theory Spec2Isabelle
  imports Main "HOL-Library.Word" "HOL-Library.Signed_Division"
begin

unbundle bit_operations_syntax

section \<open>Demand-paged virtual memory: mmanage.c, vmaccess.c, pagefile.c\<close>

subsection \<open>The constants of vmem.h and limits.h\<close>

text \<open>
  The sizes of \<^verbatim>\<open>vmem.h\<close> are parameters of the model: every function below takes
  the header \<open>h\<close>. \<^verbatim>\<open>VMEM_NPAGES\<close> is the number of virtual pages, \<^verbatim>\<open>VMEM_NFRAMES\<close>
  the number of frames, \<^verbatim>\<open>VMEM_PAGESIZE\<close> the number of \<^verbatim>\<open>int\<close>s of a page and
  \<^verbatim>\<open>UPDATE_AGE_COUNT\<close> the period of the aging pass.
\<close>

record vmem_h =
  VMEM_NPAGES :: int
  VMEM_NFRAMES :: int
  VMEM_PAGESIZE :: int
  UPDATE_AGE_COUNT :: int

text \<open>
  Modelled from the spec: \<^verbatim>\<open>vmem.h\<close> is not among the sources, so the values of
  \<^verbatim>\<open>VOID_IDX\<close>, \<^verbatim>\<open>PTF_DIRTY\<close> and \<^verbatim>\<open>PTF_REF\<close> are not given by the code. The spec calls
  \<^verbatim>\<open>frame\<close> "the index of the resident frame, or a sentinel" and \<^verbatim>\<open>flags\<close> a "bitset
  {REFERENCED, DIRTY}": the sentinel is a negative index and the two flags are two different
  bits. The proofs use nothing else about the three values.
\<close>

definition VOID_IDX :: int where
  "VOID_IDX = - 1"

definition PTF_DIRTY :: int where
  "PTF_DIRTY = 2"

definition PTF_REF :: int where
  "PTF_REF = 4"

text \<open>\<^verbatim>\<open>limits.h\<close>, on a platform whose \<^verbatim>\<open>char\<close> is signed and eight bits wide.\<close>

definition UCHAR_MAX :: int where
  "UCHAR_MAX = 255"

definition CHAR_MAX :: int where
  "CHAR_MAX = 127"

text \<open>
  \<^verbatim>\<open>adm.page_rep_algo\<close> is an \<^verbatim>\<open>int\<close> compared with three constants of \<^verbatim>\<open>vmem.h\<close>;
  \<open>VMEM_ALGO_OTHER\<close> stands for every other value, for which the \<^verbatim>\<open>switch\<close> of
  \<^verbatim>\<open>find_remove_frame\<close> has no case.
\<close>

datatype algo = VMEM_ALGO_FIFO | VMEM_ALGO_CLOCK | VMEM_ALGO_AGING | VMEM_ALGO_OTHER

subsection \<open>The shared segment and the state of the two processes\<close>

text \<open>\<^verbatim>\<open>struct pt_entry\<close>; \<^verbatim>\<open>age\<close> is an \<^verbatim>\<open>unsigned char\<close>.\<close>

record pt_entry =
  flags :: int
  frame :: int
  count :: int
  age :: "8 word"

text \<open>\<^verbatim>\<open>struct logevent\<close>, the record handed to the logger.\<close>

record logevent =
  le_req_pageno :: int
  le_replaced_page :: int
  le_alloc_frame :: int
  le_pf_count :: int
  le_g_count :: int

text \<open>
  What the two processes do to the world outside the shared segment, in the order in which
  they do it: a page read from the pagefile into the frame data at a start index, a page
  written to the pagefile from a start index, a record given to the logger, the signal of
  the client and the release of the semaphore.
\<close>

datatype io_event =
    Fetch int int
  | Store int int
  | Logger logevent
  | Kill_SIGUSR1
  | Sem_post

text \<open>
  The state: the shared segment \<^verbatim>\<open>struct vmem_struct\<close> (the fields of \<^verbatim>\<open>adm\<close> that the
  code reads, the page table \<^verbatim>\<open>pt.entries\<close> and \<^verbatim>\<open>pt.framepage\<close>, the frame \<^verbatim>\<open>data\<close>),
  the statics of mmanage.c (\<^verbatim>\<open>fifo_current\<close>, \<^verbatim>\<open>event\<close>), the value of the named
  semaphore, and the pagefile, a store of pages keyed by page number (the page \<open>p\<close> lies at
  the byte offset \<^verbatim>\<open>p * sizeof(int) * VMEM_PAGESIZE\<close>). The fields \<^verbatim>\<open>adm.size\<close>,
  \<^verbatim>\<open>adm.shm_id\<close>, \<^verbatim>\<open>adm.mmanage_pid\<close> and \<^verbatim>\<open>adm.program_name\<close> are written once and
  never read by the functions modelled here; they are left out. The C \<^verbatim>\<open>int\<close>s are
  unbounded integers: the counters are taken to stay below \<^verbatim>\<open>INT_MAX\<close>.
\<close>

record machine =
  adm_req_pageno :: int
  adm_next_alloc_idx :: int
  adm_pf_count :: int
  adm_g_count :: int
  adm_page_rep_algo :: algo
  pt_entries :: "pt_entry list"
  pt_framepage :: "int list"
  data :: "int list"
  fifo_current :: int
  event :: logevent
  local_sem :: nat
  pagefile :: "int \<Rightarrow> int list"
  trace :: "io_event list"

text \<open>
  How a function ends before its last line: \<^verbatim>\<open>TEST_AND_EXIT\<close> prints and exits
  (\<open>Exit_failure\<close>), \<^verbatim>\<open>TEST_AND_EXIT_ERRNO\<close> does so after a failed call of the C library
  (\<open>Pagefile_error\<close>), an index computed from the data lies outside its array or a
  divisor is zero, which C leaves undefined (\<open>C_undefined\<close>), or the client waits for a
  semaphore that nobody will release (\<open>Blocked\<close>). The state at that moment comes with the fault.
\<close>

datatype fault = Exit_failure | Pagefile_error | C_undefined | Blocked

type_synonym 'a outcome = "(fault \<times> machine) + ('a \<times> machine)"

definition idx_ok :: "int \<Rightarrow> 'a list \<Rightarrow> bool" where
  "idx_ok i xs \<longleftrightarrow> 0 \<le> i \<and> i < int (length xs)"

definition slice_ok :: "int \<Rightarrow> int \<Rightarrow> 'a list \<Rightarrow> bool" where
  "slice_ok start n xs \<longleftrightarrow> 0 \<le> start \<and> 0 \<le> n \<and> start + n \<le> int (length xs)"

subsection \<open>pagefile.c\<close>

text \<open>
  \<^verbatim>\<open>fetch_page_from_pagefile(pt_idx, frame_start)\<close>: \<open>frame_start\<close> is the index into
  \<^verbatim>\<open>vmem->data\<close> that the pointer points to. \<^verbatim>\<open>fread\<close> delivers fewer than
  \<^verbatim>\<open>VMEM_PAGESIZE\<close> items when the file is too short.
\<close>

definition fetch_page_from_pagefile :: "vmem_h \<Rightarrow> int \<Rightarrow> int \<Rightarrow> machine \<Rightarrow> unit outcome" where
  "fetch_page_from_pagefile h pt_idx frame_start s =
     (if pt_idx < 0 then Inl (Exit_failure, s)
      else if pt_idx \<ge> VMEM_NPAGES h then Inl (Exit_failure, s)
      else if int (length (pagefile s pt_idx)) \<noteq> VMEM_PAGESIZE h then Inl (Pagefile_error, s)
      else if \<not> slice_ok frame_start (VMEM_PAGESIZE h) (data s) then Inl (C_undefined, s)
      else Inr ((), s\<lparr>data := take (nat frame_start) (data s) @ pagefile s pt_idx @
                               drop (nat (frame_start + VMEM_PAGESIZE h)) (data s),
                     trace := trace s @ [Fetch pt_idx frame_start]\<rparr>))"

definition store_page_to_pagefile :: "vmem_h \<Rightarrow> int \<Rightarrow> int \<Rightarrow> machine \<Rightarrow> unit outcome" where
  "store_page_to_pagefile h pt_idx frame_start s =
     (if pt_idx < 0 then Inl (Exit_failure, s)
      else if pt_idx \<ge> VMEM_NPAGES h then Inl (Exit_failure, s)
      else if \<not> slice_ok frame_start (VMEM_PAGESIZE h) (data s) then Inl (C_undefined, s)
      else Inr ((), s\<lparr>pagefile := (pagefile s)
                         (pt_idx := take (nat (VMEM_PAGESIZE h)) (drop (nat frame_start) (data s))),
                     trace := trace s @ [Store pt_idx frame_start]\<rparr>))"

subsection \<open>mmanage.c\<close>

text \<open>
  \<^verbatim>\<open>vmem_init\<close> of mmanage.c, applied to the segment that \<^verbatim>\<open>shmget\<close> with
  \<^verbatim>\<open>IPC_CREAT\<close> and \<^verbatim>\<open>shmat\<close> deliver: a new one, or the one that exists under the key.
  The two loops write every element of the two arrays. \<^verbatim>\<open>sem_open\<close> after \<^verbatim>\<open>sem_unlink\<close>
  creates the semaphore with the value 0.
\<close>

function init_entries :: "vmem_h \<Rightarrow> int \<Rightarrow> pt_entry list \<Rightarrow> pt_entry list" where
  "init_entries h i es =
     (if i < VMEM_NPAGES h
      then init_entries h (i + 1)
             (es[nat i := \<lparr>flags = 0, frame = VOID_IDX, count = 0, age = 0x80\<rparr>])
      else es)"
  by pat_completeness auto
termination
  by (relation "measure (\<lambda>(h, i, es). nat (VMEM_NPAGES h - i))") auto

function init_framepage :: "vmem_h \<Rightarrow> int \<Rightarrow> int list \<Rightarrow> int list" where
  "init_framepage h i fp =
     (if i < VMEM_NFRAMES h then init_framepage h (i + 1) (fp[nat i := VOID_IDX]) else fp)"
  by pat_completeness auto
termination
  by (relation "measure (\<lambda>(h, i, fp). nat (VMEM_NFRAMES h - i))") auto

definition vmem_init :: "vmem_h \<Rightarrow> machine \<Rightarrow> machine" where
  "vmem_init h s =
     s\<lparr>adm_next_alloc_idx := 0,
       adm_req_pageno := 0,
       pt_entries := init_entries h 0 (pt_entries s),
       pt_framepage := init_framepage h 0 (pt_framepage s),
       local_sem := 0\<rparr>"

text \<open>\<^verbatim>\<open>find_free_frame\<close>: the loop from \<open>i\<close> on, with its \<^verbatim>\<open>break\<close>.\<close>

function find_free_frame_from :: "vmem_h \<Rightarrow> int \<Rightarrow> machine \<Rightarrow> int \<times> machine" where
  "find_free_frame_from h i s =
     (if i < VMEM_NFRAMES h
      then (if pt_framepage s ! nat i = VOID_IDX
            then (i, s\<lparr>event := (event s)\<lparr>le_replaced_page := VOID_IDX\<rparr>\<rparr>)
            else find_free_frame_from h (i + 1) s)
      else (VOID_IDX, s))"
  by pat_completeness auto
termination
  by (relation "measure (\<lambda>(h, i, s). nat (VMEM_NFRAMES h - i))") auto

definition find_free_frame :: "vmem_h \<Rightarrow> machine \<Rightarrow> int \<times> machine" where
  "find_free_frame h s = find_free_frame_from h 0 s"

definition fetch_page :: "vmem_h \<Rightarrow> int \<Rightarrow> machine \<Rightarrow> unit outcome" where
  "fetch_page h pt_idx s =
     (if \<not> idx_ok (adm_req_pageno s) (pt_entries s) then Inl (C_undefined, s)
      else fetch_page_from_pagefile h pt_idx
             (frame (pt_entries s ! nat (adm_req_pageno s)) * VMEM_PAGESIZE h) s)"

definition store_page :: "vmem_h \<Rightarrow> int \<Rightarrow> machine \<Rightarrow> unit outcome" where
  "store_page h pt_idx s =
     store_page_to_pagefile h pt_idx (adm_next_alloc_idx s * VMEM_PAGESIZE h) s"

text \<open>
  The common end of the three policies, which the source writes out three times: the
  victim page \<open>element\<close> becomes \<^verbatim>\<open>event.replaced_page\<close>, is stored when its
  \<^verbatim>\<open>PTF_DIRTY\<close> is set, and its \<^verbatim>\<open>frame\<close> becomes \<^verbatim>\<open>VOID_IDX\<close>.
\<close>

definition set_frame :: "int \<Rightarrow> int \<Rightarrow> machine \<Rightarrow> machine" where
  "set_frame p f s = s\<lparr>pt_entries := (pt_entries s)[nat p := (pt_entries s ! nat p)\<lparr>frame := f\<rparr>]\<rparr>"

definition set_flags :: "int \<Rightarrow> int \<Rightarrow> machine \<Rightarrow> machine" where
  "set_flags p f s = s\<lparr>pt_entries := (pt_entries s)[nat p := (pt_entries s ! nat p)\<lparr>flags := f\<rparr>]\<rparr>"

definition set_age :: "int \<Rightarrow> 8 word \<Rightarrow> machine \<Rightarrow> machine" where
  "set_age p a s = s\<lparr>pt_entries := (pt_entries s)[nat p := (pt_entries s ! nat p)\<lparr>age := a\<rparr>]\<rparr>"

definition remove_element :: "vmem_h \<Rightarrow> int \<Rightarrow> machine \<Rightarrow> unit outcome" where
  "remove_element h element s =
     (let s1 = s\<lparr>event := (event s)\<lparr>le_replaced_page := element\<rparr>\<rparr> in
      if \<not> idx_ok element (pt_entries s1) then Inl (C_undefined, s1)
      else let d = flags (pt_entries s1 ! nat element) AND PTF_DIRTY in
        case (if d = PTF_DIRTY then store_page h element s1 else Inr ((), s1)) of
          Inl e \<Rightarrow> Inl e
        | Inr (u, s2) \<Rightarrow> Inr ((), set_frame element VOID_IDX s2))"

definition find_remove_fifo :: "vmem_h \<Rightarrow> machine \<Rightarrow> int outcome" where
  "find_remove_fifo h s =
     (let fc = (if fifo_current s = VMEM_NFRAMES h - 1 then 0 else fifo_current s + 1);
          s1 = s\<lparr>fifo_current := fc, adm_next_alloc_idx := fc\<rparr> in
      if fc < 0 then Inl (Exit_failure, s1)
      else if fc \<ge> VMEM_NPAGES h then Inl (Exit_failure, s1)
      else if \<not> idx_ok fc (pt_framepage s1) then Inl (C_undefined, s1)
      else case remove_element h (pt_framepage s1 ! nat fc) s1 of
          Inl e \<Rightarrow> Inl e
        | Inr (u, s2) \<Rightarrow> Inr (fc, s2))"

text \<open>
  The scan of \<^verbatim>\<open>find_remove_aging\<close>: \<open>a\<close> is the local \<^verbatim>\<open>age\<close>, the chosen frame is kept
  in \<^verbatim>\<open>adm.next_alloc_idx\<close>.
\<close>

function aging_scan :: "vmem_h \<Rightarrow> int \<Rightarrow> int \<Rightarrow> machine \<Rightarrow> unit outcome" where
  "aging_scan h i a s =
     (if i < VMEM_NFRAMES h
      then (let page_number = pt_framepage s ! nat i in
            if \<not> idx_ok page_number (pt_entries s) then Inl (C_undefined, s)
            else if uint (age (pt_entries s ! nat page_number)) \<le> a
            then aging_scan h (i + 1) (uint (age (pt_entries s ! nat page_number)))
                   (s\<lparr>adm_next_alloc_idx := i\<rparr>)
            else aging_scan h (i + 1) a s)
      else Inr ((), s))"
  by pat_completeness auto
termination
  by (relation "measure (\<lambda>(h, i, a, s). nat (VMEM_NFRAMES h - i))") auto

definition find_remove_aging :: "vmem_h \<Rightarrow> machine \<Rightarrow> int outcome" where
  "find_remove_aging h s =
     (case aging_scan h 0 UCHAR_MAX (s\<lparr>adm_next_alloc_idx := VOID_IDX\<rparr>) of
        Inl e \<Rightarrow> Inl e
      | Inr (u, s1) \<Rightarrow>
          (let s2 = (if adm_next_alloc_idx s1 = VOID_IDX then s1\<lparr>adm_next_alloc_idx := 0\<rparr> else s1) in
           if \<not> idx_ok (adm_next_alloc_idx s2) (pt_framepage s2) then Inl (C_undefined, s2)
           else let element = pt_framepage s2 ! nat (adm_next_alloc_idx s2) in
             case remove_element h element s2 of
               Inl e \<Rightarrow> Inl e
             | Inr (u, s3) \<Rightarrow> Inr (adm_next_alloc_idx s3, set_age element 0x80 s3)))"

text \<open>Two facts for the termination of the loop of \<^verbatim>\<open>find_remove_clock\<close>.\<close>

lemma filter_update_less:
  "n < length xs \<Longrightarrow> P (xs ! n) \<Longrightarrow> \<not> P y \<Longrightarrow>
     length (filter P (xs[n := y])) < length (filter P xs)"
proof (induction xs arbitrary: n)
  case Nil
  then show ?case by simp
next
  case (Cons x xs)
  then show ?case by (cases n) auto
qed

lemma four_is_bit: "(4::int) = 2 ^ 2"
  by simp

lemma two_is_bit: "(2::int) = 2 ^ 1"
  by simp

lemma ref_xor_clears: "f AND PTF_REF = PTF_REF \<Longrightarrow> (f XOR PTF_REF) AND PTF_REF = 0"
  unfolding PTF_REF_def four_is_bit
  by (auto simp: bit_eq_iff bit_and_iff bit_xor_iff bit_exp_iff)


text \<open>
  The loop of \<^verbatim>\<open>find_remove_clock\<close>. Every turn that does not leave the loop clears a
  \<^verbatim>\<open>PTF_REF\<close> that was set, so the number of entries with \<^verbatim>\<open>PTF_REF\<close> set bounds the
  number of turns.
\<close>

definition ref_count :: "machine \<Rightarrow> nat" where
  "ref_count s = length (filter (\<lambda>e. flags e AND PTF_REF = PTF_REF) (pt_entries s))"

function find_remove_clock :: "vmem_h \<Rightarrow> machine \<Rightarrow> int outcome" where
  "find_remove_clock h s =
     (let fc = (if fifo_current s = VMEM_NFRAMES h - 1 then 0 else fifo_current s + 1);
          s1 = s\<lparr>fifo_current := fc, adm_next_alloc_idx := fc\<rparr> in
      if \<not> idx_ok fc (pt_framepage s1) then Inl (C_undefined, s1)
      else let element = pt_framepage s1 ! nat fc in
        if \<not> idx_ok element (pt_entries s1) then Inl (C_undefined, s1)
        else let r = flags (pt_entries s1 ! nat element) AND PTF_REF in
          if r = PTF_REF
          then find_remove_clock h
                 (set_flags element (flags (pt_entries s1 ! nat element) XOR PTF_REF) s1)
          else case remove_element h element s1 of
              Inl e \<Rightarrow> Inl e
            | Inr (u, s2) \<Rightarrow> Inr (fifo_current s2, s2))"
  by pat_completeness auto

termination
proof (relation "measure (\<lambda>(h, s). ref_count s)")
  show "wf (measure (\<lambda>(h, s). ref_count s))" by simp
next
  fix h :: vmem_h and s :: machine and fc s1 element r
  assume fc: "fc = (if fifo_current s = VMEM_NFRAMES h - 1 then 0 else fifo_current s + 1)"
    and s1: "s1 = s\<lparr>fifo_current := fc, adm_next_alloc_idx := fc\<rparr>"
    and el: "element = pt_framepage s1 ! nat fc"
    and ok: "\<not> \<not> idx_ok element (pt_entries s1)"
    and r: "r = flags (pt_entries s1 ! nat element) AND PTF_REF"
    and set: "r = PTF_REF"
  from ok have n: "nat element < length (pt_entries s)"
    by (simp add: idx_ok_def s1 nat_less_iff)
  from r set have P: "flags (pt_entries s ! nat element) AND PTF_REF = PTF_REF"
    by (simp add: s1)
  have "PTF_REF \<noteq> 0"
    by (simp add: PTF_REF_def)
  with ref_xor_clears [OF P]
  have Q: "\<not> (flags (pt_entries s ! nat element) XOR PTF_REF) AND PTF_REF = PTF_REF"
    by simp
  have "ref_count (set_flags element (flags (pt_entries s1 ! nat element) XOR PTF_REF) s1)
          < ref_count s"
    unfolding ref_count_def set_flags_def using n P Q
    by (simp add: s1 filter_update_less)
  then show "((h, set_flags element (flags (pt_entries s1 ! nat element) XOR PTF_REF) s1), (h, s))
               \<in> measure (\<lambda>(h, s). ref_count s)"
    by simp
qed

definition find_remove_frame :: "vmem_h \<Rightarrow> machine \<Rightarrow> int outcome" where
  "find_remove_frame h s =
     (case adm_page_rep_algo s of
        VMEM_ALGO_FIFO \<Rightarrow> find_remove_fifo h s
      | VMEM_ALGO_CLOCK \<Rightarrow> find_remove_clock h s
      | VMEM_ALGO_AGING \<Rightarrow> find_remove_aging h s
      | VMEM_ALGO_OTHER \<Rightarrow> Inr (- 1, s))"

definition sem_post :: "machine \<Rightarrow> machine" where
  "sem_post s = s\<lparr>local_sem := local_sem s + 1, trace := trace s @ [Sem_post]\<rparr>"

text \<open>
  \<^verbatim>\<open>allocate_page\<close>, in the order of the source: the search for a free frame, the fault
  counter, the eviction and the fetch when no frame is free, then the frame table, the log
  record, the two tests of the frame table slot, the \<^verbatim>\<open>frame\<close> of the requested page and
  at last \<^verbatim>\<open>sem_post\<close>.
\<close>

definition allocate_page :: "vmem_h \<Rightarrow> machine \<Rightarrow> unit outcome" where
  "allocate_page h s =
     (case find_free_frame h s of (idx0, s0) \<Rightarrow>
      let s1 = s0\<lparr>adm_pf_count := adm_pf_count s0 + 1\<rparr> in
      case (if idx0 = VOID_IDX
            then (case find_remove_frame h s1 of
                    Inl e \<Rightarrow> Inl e
                  | Inr (idx, s2) \<Rightarrow>
                      if idx < 0 then Inl (Exit_failure, s2)
                      else if idx \<ge> VMEM_NFRAMES h then Inl (Exit_failure, s2)
                      else if \<not> idx_ok (adm_req_pageno s2) (pt_entries s2)
                      then Inl (C_undefined, s2)
                      else (case fetch_page h (adm_req_pageno s2)
                                   (set_frame (adm_req_pageno s2) idx s2) of
                              Inl e \<Rightarrow> Inl e
                            | Inr (u, s3) \<Rightarrow> Inr (idx, s3)))
            else Inr (idx0, s1)) of
        Inl e \<Rightarrow> Inl e
      | Inr (idx, s4) \<Rightarrow>
          if \<not> idx_ok idx (pt_framepage s4) then Inl (C_undefined, s4)
          else let s5 = s4\<lparr>pt_framepage := (pt_framepage s4)[nat idx := adm_req_pageno s4]\<rparr>;
                   s6 = s5\<lparr>event := (event s5)\<lparr>le_req_pageno := adm_req_pageno s5,
                                               le_alloc_frame := idx,
                                               le_pf_count := adm_pf_count s5,
                                               le_g_count := adm_g_count s5\<rparr>\<rparr>;
                   s7 = s6\<lparr>trace := trace s6 @ [Logger (event s6)]\<rparr> in
            if pt_framepage s7 ! nat idx < 0 then Inl (Exit_failure, s7)
            else if pt_framepage s7 ! nat idx \<ge> VMEM_NPAGES h then Inl (Exit_failure, s7)
            else if \<not> idx_ok (adm_req_pageno s7) (pt_entries s7) then Inl (C_undefined, s7)
            else Inr ((), sem_post (set_frame (adm_req_pageno s7) idx s7)))"

text \<open>
  \<^verbatim>\<open>allocate_page\<close> once more, statement by statement: the list of the states that the
  statements of the function leave one after the other, in the order of the source, so
  that what is written before the call of \<^verbatim>\<open>sem_post\<close> and what after it can be told
  apart. The calls of \<^verbatim>\<open>find_free_frame\<close>, \<^verbatim>\<open>find_remove_frame\<close>, \<^verbatim>\<open>fetch_page\<close> and
  \<^verbatim>\<open>logger\<close> count as one statement each, the four assignments to \<^verbatim>\<open>event\<close> as one. The
  list ends where the function exits or returns.
\<close>

definition allocate_page_steps :: "vmem_h \<Rightarrow> machine \<Rightarrow> machine list" where
  "allocate_page_steps h s =
     (case find_free_frame h s of (idx0, s0) \<Rightarrow>
      let s1 = s0\<lparr>adm_pf_count := adm_pf_count s0 + 1\<rparr> in
      s0 # s1 #
      (case (if idx0 = VOID_IDX
             then (case find_remove_frame h s1 of
                     Inl (e, s2) \<Rightarrow> ([s2], None)
                   | Inr (idx, s2) \<Rightarrow>
                       if idx < 0 then ([s2], None)
                       else if idx \<ge> VMEM_NFRAMES h then ([s2], None)
                       else if \<not> idx_ok (adm_req_pageno s2) (pt_entries s2) then ([s2], None)
                       else (case fetch_page h (adm_req_pageno s2)
                                    (set_frame (adm_req_pageno s2) idx s2) of
                               Inl (e, s3) \<Rightarrow>
                                 ([s2, set_frame (adm_req_pageno s2) idx s2, s3], None)
                             | Inr (u, s3) \<Rightarrow>
                                 ([s2, set_frame (adm_req_pageno s2) idx s2, s3], Some (idx, s3))))
             else ([], Some (idx0, s1))) of
         (pre, None) \<Rightarrow> pre
       | (pre, Some (idx, s4)) \<Rightarrow>
           pre @
           (if \<not> idx_ok idx (pt_framepage s4) then []
            else let s5 = s4\<lparr>pt_framepage := (pt_framepage s4)[nat idx := adm_req_pageno s4]\<rparr>;
                     s6 = s5\<lparr>event := (event s5)\<lparr>le_req_pageno := adm_req_pageno s5,
                                                 le_alloc_frame := idx,
                                                 le_pf_count := adm_pf_count s5,
                                                 le_g_count := adm_g_count s5\<rparr>\<rparr>;
                     s7 = s6\<lparr>trace := trace s6 @ [Logger (event s6)]\<rparr> in
              s5 # s6 # s7 #
              (if pt_framepage s7 ! nat idx < 0 then []
               else if pt_framepage s7 ! nat idx \<ge> VMEM_NPAGES h then []
               else if \<not> idx_ok (adm_req_pageno s7) (pt_entries s7) then []
               else [set_frame (adm_req_pageno s7) idx s7,
                     sem_post (set_frame (adm_req_pageno s7) idx s7)]))))"

subsection \<open>vmaccess.c\<close>

text \<open>The loop of \<^verbatim>\<open>update_age_reset_ref\<close> over the frames, from \<open>i\<close> on.\<close>

function age_loop :: "vmem_h \<Rightarrow> int \<Rightarrow> machine \<Rightarrow> unit outcome" where
  "age_loop h i s =
     (if i < VMEM_NFRAMES h
      then (let page_number = pt_framepage s ! nat i in
            if page_number \<noteq> VOID_IDX
            then (if \<not> idx_ok page_number (pt_entries s) then Inl (C_undefined, s)
                  else let e = pt_entries s ! nat page_number;
                           r = flags e AND PTF_REF;
                           e1 = e\<lparr>age := word_of_int (uint (age e) sdiv 2)\<rparr>;
                           e2 = (if r = PTF_REF
                                 then e1\<lparr>age := word_of_int (uint (age e1) OR NOT CHAR_MAX),
                                         flags := flags e1 XOR PTF_REF\<rparr>
                                 else e1) in
                    age_loop h (i + 1) (s\<lparr>pt_entries := (pt_entries s)[nat page_number := e2]\<rparr>))
            else age_loop h (i + 1) s)
      else Inr ((), s))"
  by pat_completeness auto
termination
  by (relation "measure (\<lambda>(h, i, s). nat (VMEM_NFRAMES h - i))") auto

definition update_age_reset_ref :: "vmem_h \<Rightarrow> machine \<Rightarrow> unit outcome" where
  "update_age_reset_ref h s =
     (if UPDATE_AGE_COUNT h = 0 then Inl (C_undefined, s)
      else if adm_g_count s smod UPDATE_AGE_COUNT h = 0 then age_loop h 0 s
      else Inr ((), s))"

text \<open>
  \<^verbatim>\<open>kill(vmem->adm.mmanage_pid, SIGUSR1); sem_wait(local_sem);\<close> of the client. The
  manager's handler runs \<^verbatim>\<open>allocate_page\<close> on the signal, and the client goes on when
  the semaphore has been released: the fault is handled between the two calls. When the
  manager exits inside \<^verbatim>\<open>allocate_page\<close> the client never goes on; the outcome is then
  the manager's fault.
\<close>

definition page_fault :: "vmem_h \<Rightarrow> machine \<Rightarrow> unit outcome" where
  "page_fault h s =
     (case allocate_page h (s\<lparr>trace := trace s @ [Kill_SIGUSR1]\<rparr>) of
        Inl e \<Rightarrow> Inl e
      | Inr (u, s1) \<Rightarrow>
          if local_sem s1 = 0 then Inl (Blocked, s1)
          else Inr ((), s1\<lparr>local_sem := local_sem s1 - 1\<rparr>))"

text \<open>
  \<^verbatim>\<open>vmem_read\<close>. The source reads \<^verbatim>\<open>entries[page_index].frame\<close> (line 92) and writes
  \<^verbatim>\<open>adm.req_pageno\<close> (line 93) before it tests \<^verbatim>\<open>page_index\<close>; the value read is first
  used at line 97, and nothing in between writes it, so the model reads it there. In the
  same way \<^verbatim>\<open>data[page]\<close> (line 102) is read before \<^verbatim>\<open>page\<close> is tested and used only
  after the tests. A read of an element outside its array has no outcome of its own in the
  model. This is what the code does as long as the element lies inside the shared segment,
  as it does for the page indexes next to the range (the first address behind the virtual
  memory among them): the read returns some word of the segment that is never used, and the
  process goes on to line 93. For a page index so far outside the range that the element
  lies outside the mapped segment the read of line 92 traps, and the process dies there
  with \<^verbatim>\<open>adm.req_pageno\<close> as it was; the model has no such trap, and its outcome
  \<open>Exit_failure\<close> with the slot written is not the outcome of the code at these addresses.
  Where the segment ends is a matter of \<^verbatim>\<open>vmem.h\<close> and of the page size of the machine.
\<close>

definition vmem_read :: "vmem_h \<Rightarrow> int \<Rightarrow> machine \<Rightarrow> int outcome" where
  "vmem_read h address s =
     (let offset = address AND (VMEM_PAGESIZE h - 1);
          page_index = (address AND NOT (VMEM_PAGESIZE h - 1)) sdiv VMEM_PAGESIZE h;
          s1 = s\<lparr>adm_req_pageno := page_index\<rparr> in
      if page_index < 0 then Inl (Exit_failure, s1)
      else if page_index \<ge> VMEM_NPAGES h then Inl (Exit_failure, s1)
      else if \<not> idx_ok page_index (pt_entries s1) then Inl (C_undefined, s1)
      else let frame0 = frame (pt_entries s1 ! nat page_index);
               s2 = set_flags page_index (PTF_REF OR flags (pt_entries s1 ! nat page_index)) s1 in
        case (if frame0 = VOID_IDX then page_fault h s2 else Inr ((), s2)) of
          Inl e \<Rightarrow> Inl e
        | Inr (u, s3) \<Rightarrow>
            if \<not> idx_ok page_index (pt_entries s3) then Inl (C_undefined, s3)
            else let page = (frame (pt_entries s3 ! nat page_index) * VMEM_PAGESIZE h) OR offset in
              if page < 0 then Inl (Exit_failure, s3)
              else if page \<ge> 128 then Inl (Exit_failure, s3)
              else if \<not> idx_ok page (data s3) then Inl (C_undefined, s3)
              else let holder = data s3 ! nat page;
                       s4 = s3\<lparr>adm_g_count := adm_g_count s3 + 1\<rparr> in
                case (if adm_page_rep_algo s4 = VMEM_ALGO_AGING
                      then update_age_reset_ref h s4 else Inr ((), s4)) of
                  Inl e \<Rightarrow> Inl e
                | Inr (u, s5) \<Rightarrow> Inr (holder, s5))"

definition vmem_write :: "vmem_h \<Rightarrow> int \<Rightarrow> int \<Rightarrow> machine \<Rightarrow> unit outcome" where
  "vmem_write h address v s =
     (let offset = address AND (VMEM_PAGESIZE h - 1);
          page_index = (address AND NOT (VMEM_PAGESIZE h - 1)) sdiv VMEM_PAGESIZE h in
      if page_index < 0 then Inl (Exit_failure, s)
      else if page_index \<ge> VMEM_NPAGES h then Inl (Exit_failure, s)
      else let s1 = s\<lparr>adm_req_pageno := page_index\<rparr> in
        if \<not> idx_ok page_index (pt_entries s1) then Inl (C_undefined, s1)
        else let frame0 = frame (pt_entries s1 ! nat page_index);
                 s2 = set_flags page_index
                        (PTF_DIRTY OR PTF_REF OR flags (pt_entries s1 ! nat page_index)) s1 in
          case (if frame0 = VOID_IDX then page_fault h s2 else Inr ((), s2)) of
            Inl e \<Rightarrow> Inl e
          | Inr (u, s3) \<Rightarrow>
              if \<not> idx_ok page_index (pt_entries s3) then Inl (C_undefined, s3)
              else let page = (frame (pt_entries s3 ! nat page_index) * VMEM_PAGESIZE h) OR offset in
                if page < 0 then Inl (Exit_failure, s3)
                else if page \<ge> 128 then Inl (Exit_failure, s3)
                else if \<not> idx_ok page (data s3) then Inl (C_undefined, s3)
                else let s4 = s3\<lparr>data := (data s3)[nat page := v]\<rparr>;
                         s5 = s4\<lparr>adm_g_count := adm_g_count s4 + 1\<rparr> in
                  if adm_page_rep_algo s5 = VMEM_ALGO_AGING
                  then update_age_reset_ref h s5 else Inr ((), s5))"

subsection \<open>The run of the manager up to the first signal\<close>

text \<open>
  \<^verbatim>\<open>main\<close> of mmanage.c calls \<^verbatim>\<open>vmem_init\<close> and then writes \<^verbatim>\<open>adm.page_rep_algo\<close>:
  \<^verbatim>\<open>VMEM_ALGO_FIFO\<close>, or what \<^verbatim>\<open>scan_params\<close> finds on the command line.
\<close>

definition mmanage_main :: "vmem_h \<Rightarrow> algo \<Rightarrow> machine \<Rightarrow> machine" where
  "mmanage_main h a s = (vmem_init h s)\<lparr>adm_page_rep_algo := a\<rparr>"

subsection \<open>The vocabulary of the properties\<close>

text \<open>The two flags of a page, and the \<^verbatim>\<open>VMEM_PAGESIZE\<close> words of a frame.\<close>

definition is_dirty :: "machine \<Rightarrow> int \<Rightarrow> bool" where
  "is_dirty s p \<longleftrightarrow> flags (pt_entries s ! nat p) AND PTF_DIRTY = PTF_DIRTY"

definition is_ref :: "machine \<Rightarrow> int \<Rightarrow> bool" where
  "is_ref s p \<longleftrightarrow> flags (pt_entries s ! nat p) AND PTF_REF = PTF_REF"

definition frame_words :: "vmem_h \<Rightarrow> machine \<Rightarrow> int \<Rightarrow> int list" where
  "frame_words h s i = take (nat (VMEM_PAGESIZE h)) (drop (nat (i * VMEM_PAGESIZE h)) (data s))"

text \<open>The age of the page that occupies the frame \<open>i\<close>.\<close>

definition frame_age :: "machine \<Rightarrow> int \<Rightarrow> int" where
  "frame_age s i = uint (age (pt_entries s ! nat (pt_framepage s ! nat i)))"

text \<open>
  A header that makes sense: there is a frame, there are no more frames than pages, a page
  has a word, and the period of the aging pass is positive.
\<close>

definition wf_h :: "vmem_h \<Rightarrow> bool" where
  "wf_h h \<longleftrightarrow> 0 < VMEM_NFRAMES h \<and> VMEM_NFRAMES h \<le> VMEM_NPAGES h \<and> 0 < VMEM_PAGESIZE h \<and>
     0 < UPDATE_AGE_COUNT h"

text \<open>
  The arrays have the sizes that \<^verbatim>\<open>struct vmem_struct\<close> declares, and the pagefile holds
  a whole page for every page number, as \<^verbatim>\<open>init_pagefile\<close> writes it.
\<close>

definition layout_ok :: "vmem_h \<Rightarrow> machine \<Rightarrow> bool" where
  "layout_ok h s \<longleftrightarrow> int (length (pt_entries s)) = VMEM_NPAGES h \<and>
     int (length (pt_framepage s)) = VMEM_NFRAMES h \<and>
     int (length (data s)) = VMEM_NFRAMES h * VMEM_PAGESIZE h"

definition pagefile_ok :: "vmem_h \<Rightarrow> machine \<Rightarrow> bool" where
  "pagefile_ok h s \<longleftrightarrow>
     (\<forall>p < length (pt_entries s). int (length (pagefile s (int p))) = VMEM_PAGESIZE h)"

text \<open>
  The frame table and the \<^verbatim>\<open>frame\<close> fields agree: the page of an occupied frame points
  back to the frame, and the frame of a resident page holds that page.
\<close>

definition frames_agree :: "machine \<Rightarrow> bool" where
  "frames_agree s \<longleftrightarrow>
     (\<forall>i < length (pt_framepage s). pt_framepage s ! i \<noteq> VOID_IDX \<longrightarrow>
        idx_ok (pt_framepage s ! i) (pt_entries s) \<and>
        frame (pt_entries s ! nat (pt_framepage s ! i)) = int i)"

definition pages_agree :: "machine \<Rightarrow> bool" where
  "pages_agree s \<longleftrightarrow>
     (\<forall>p < length (pt_entries s). frame (pt_entries s ! p) \<noteq> VOID_IDX \<longrightarrow>
        idx_ok (frame (pt_entries s ! p)) (pt_framepage s) \<and>
        pt_framepage s ! nat (frame (pt_entries s ! p)) = int p)"

text \<open>\<^verbatim>\<open>fifo_current\<close> starts at \<open>- 1\<close> and then stays a frame index.\<close>

definition cursor_ok :: "vmem_h \<Rightarrow> machine \<Rightarrow> bool" where
  "cursor_ok h s \<longleftrightarrow> - 1 \<le> fifo_current s \<and> fifo_current s < VMEM_NFRAMES h"

definition machine_inv :: "vmem_h \<Rightarrow> machine \<Rightarrow> bool" where
  "machine_inv h s \<longleftrightarrow>
     layout_ok h s \<and> pagefile_ok h s \<and> frames_agree s \<and> pages_agree s \<and> cursor_ok h s"

definition all_occupied :: "machine \<Rightarrow> bool" where
  "all_occupied s \<longleftrightarrow> (\<forall>i < length (pt_framepage s). pt_framepage s ! i \<noteq> VOID_IDX)"

text \<open>
  The frame \<open>idx\<close> is vacant in the page table of \<open>w\<close>: the tables agree at every
  other frame, and no page has \<open>idx\<close> as its frame.
\<close>

definition vacant :: "machine \<Rightarrow> int \<Rightarrow> bool" where
  "vacant w idx \<longleftrightarrow>
     (\<forall>i < length (pt_framepage w). int i \<noteq> idx \<longrightarrow> pt_framepage w ! i \<noteq> VOID_IDX \<longrightarrow>
        idx_ok (pt_framepage w ! i) (pt_entries w) \<and>
        frame (pt_entries w ! nat (pt_framepage w ! i)) = int i) \<and>
     (\<forall>p < length (pt_entries w). frame (pt_entries w ! p) \<noteq> VOID_IDX \<longrightarrow>
        idx_ok (frame (pt_entries w ! p)) (pt_framepage w) \<and>
        pt_framepage w ! nat (frame (pt_entries w ! p)) = int p \<and>
        frame (pt_entries w ! p) \<noteq> idx)"

text \<open>
  The consistency of claim C1 in its own words: the page of an occupied frame is in range
  and is the one and only page whose \<^verbatim>\<open>frame\<close> is this frame, and no two pages have
  the same frame.
\<close>

definition tables_consistent :: "machine \<Rightarrow> bool" where
  "tables_consistent s \<longleftrightarrow>
     (\<forall>i < length (pt_framepage s). pt_framepage s ! i \<noteq> VOID_IDX \<longrightarrow>
        idx_ok (pt_framepage s ! i) (pt_entries s) \<and>
        (\<forall>q < length (pt_entries s).
           frame (pt_entries s ! q) = int i \<longleftrightarrow> int q = pt_framepage s ! i)) \<and>
     (\<forall>q < length (pt_entries s). \<forall>r < length (pt_entries s).
        frame (pt_entries s ! q) \<noteq> VOID_IDX \<and> frame (pt_entries s ! q) = frame (pt_entries s ! r)
          \<longrightarrow> q = r)"

text \<open>
  The state that \<^verbatim>\<open>remove_element\<close> leaves when none of its tests fails, and what an
  eviction of the frame \<open>idx\<close> that leads from \<open>s\<close> to \<open>t\<close> has done: the frame table and the
  frame data are as before, only the page of the frame has lost its frame, the page was
  stored exactly when it was dirty.
\<close>

definition after_removal :: "vmem_h \<Rightarrow> int \<Rightarrow> machine \<Rightarrow> machine" where
  "after_removal h e s =
     (if is_dirty s e
      then s\<lparr>event := (event s)\<lparr>le_replaced_page := e\<rparr>,
             pagefile := (pagefile s)(e := frame_words h s (adm_next_alloc_idx s)),
             trace := trace s @ [Store e (adm_next_alloc_idx s * VMEM_PAGESIZE h)],
             pt_entries := (pt_entries s)[nat e := (pt_entries s ! nat e)\<lparr>frame := VOID_IDX\<rparr>]\<rparr>
      else s\<lparr>event := (event s)\<lparr>le_replaced_page := e\<rparr>,
             pt_entries := (pt_entries s)[nat e := (pt_entries s ! nat e)\<lparr>frame := VOID_IDX\<rparr>]\<rparr>)"

definition evicts :: "vmem_h \<Rightarrow> machine \<Rightarrow> int \<Rightarrow> machine \<Rightarrow> bool" where
  "evicts h s idx t \<longleftrightarrow>
     0 \<le> idx \<and> idx < VMEM_NFRAMES h \<and>
     pt_framepage t = pt_framepage s \<and>
     length (pt_entries t) = length (pt_entries s) \<and>
     map frame (pt_entries t) = (map frame (pt_entries s))[nat (pt_framepage s ! nat idx) := VOID_IDX] \<and>
     data t = data s \<and>
     pagefile t = (if is_dirty s (pt_framepage s ! nat idx)
                   then (pagefile s)(pt_framepage s ! nat idx := frame_words h s idx)
                   else pagefile s) \<and>
     trace t = trace s @ (if is_dirty s (pt_framepage s ! nat idx)
                          then [Store (pt_framepage s ! nat idx) (idx * VMEM_PAGESIZE h)] else []) \<and>
     adm_req_pageno t = adm_req_pageno s \<and>
     adm_pf_count t = adm_pf_count s \<and>
     adm_g_count t = adm_g_count s \<and>
     adm_page_rep_algo t = adm_page_rep_algo s \<and>
     local_sem t = local_sem s \<and>
     le_replaced_page (event t) = pt_framepage s ! nat idx \<and>
     cursor_ok h t"

text \<open>
  One turn of the loop of \<^verbatim>\<open>find_remove_clock\<close> in pieces: the cursor moves on
  circularly (\<open>next_frame\<close>, \<open>clock_turn\<close>), the page of the frame it then points to is
  inspected (\<open>visited_page\<close>), and when its \<^verbatim>\<open>PTF_REF\<close> is set the turn ends with the
  flag cleared (\<open>second_chance\<close>).
\<close>

definition next_frame :: "vmem_h \<Rightarrow> int \<Rightarrow> int" where
  "next_frame h f = (if f = VMEM_NFRAMES h - 1 then 0 else f + 1)"

definition clock_turn :: "vmem_h \<Rightarrow> machine \<Rightarrow> machine" where
  "clock_turn h s = s\<lparr>fifo_current := next_frame h (fifo_current s),
                      adm_next_alloc_idx := next_frame h (fifo_current s)\<rparr>"

definition visited_page :: "vmem_h \<Rightarrow> machine \<Rightarrow> int" where
  "visited_page h s = pt_framepage s ! nat (next_frame h (fifo_current s))"

definition second_chance :: "vmem_h \<Rightarrow> machine \<Rightarrow> machine" where
  "second_chance h s =
     set_flags (visited_page h s) (flags (pt_entries s ! nat (visited_page h s)) XOR PTF_REF)
       (clock_turn h s)"

text \<open>
  The lines of \<^verbatim>\<open>allocate_page\<close> after the frame is chosen, when no test fails: the
  fetch of the requested page into the frame \<open>idx\<close> (\<open>fetched\<close>), the log record
  (\<open>log_fault\<close>) and the two table entries (\<open>enter_frame\<close>).
\<close>

definition fetched :: "vmem_h \<Rightarrow> int \<Rightarrow> machine \<Rightarrow> machine" where
  "fetched h idx s =
     s\<lparr>pt_entries := (pt_entries s)[nat (adm_req_pageno s) :=
                        (pt_entries s ! nat (adm_req_pageno s))\<lparr>frame := idx\<rparr>],
       data := take (nat (idx * VMEM_PAGESIZE h)) (data s) @ pagefile s (adm_req_pageno s) @
               drop (nat (idx * VMEM_PAGESIZE h + VMEM_PAGESIZE h)) (data s),
       trace := trace s @ [Fetch (adm_req_pageno s) (idx * VMEM_PAGESIZE h)]\<rparr>"

definition log_fault :: "int \<Rightarrow> machine \<Rightarrow> machine" where
  "log_fault idx s =
     s\<lparr>event := (event s)\<lparr>le_req_pageno := adm_req_pageno s, le_alloc_frame := idx,
                           le_pf_count := adm_pf_count s, le_g_count := adm_g_count s\<rparr>,
       trace := trace s @ [Logger ((event s)\<lparr>le_req_pageno := adm_req_pageno s,
                                            le_alloc_frame := idx,
                                            le_pf_count := adm_pf_count s,
                                            le_g_count := adm_g_count s\<rparr>)]\<rparr>"

definition enter_frame :: "int \<Rightarrow> machine \<Rightarrow> machine" where
  "enter_frame idx s =
     set_frame (adm_req_pageno s) idx
       (log_fault idx (s\<lparr>pt_framepage := (pt_framepage s)[nat idx := adm_req_pageno s]\<rparr>))"

text \<open>
  The states between the lines of \<^verbatim>\<open>allocate_page\<close> after the frame is chosen: the slot
  of the frame table is taken (\<open>slot_taken\<close>), the fields of \<^verbatim>\<open>event\<close> are assigned
  (\<open>event_set\<close>). And what it means that in the state \<open>w\<close> the semaphore has not been
  released since the state \<open>s\<close>: it has the value it had, and the trace has grown by events
  that are not a release.
\<close>

definition slot_taken :: "int \<Rightarrow> machine \<Rightarrow> machine" where
  "slot_taken idx s = s\<lparr>pt_framepage := (pt_framepage s)[nat idx := adm_req_pageno s]\<rparr>"

definition event_set :: "int \<Rightarrow> machine \<Rightarrow> machine" where
  "event_set idx s =
     s\<lparr>event := (event s)\<lparr>le_req_pageno := adm_req_pageno s, le_alloc_frame := idx,
                           le_pf_count := adm_pf_count s, le_g_count := adm_g_count s\<rparr>\<rparr>"

definition not_released :: "machine \<Rightarrow> machine \<Rightarrow> bool" where
  "not_released s w \<longleftrightarrow>
     local_sem w = local_sem s \<and> (\<exists>evs. trace w = trace s @ evs \<and> Sem_post \<notin> set evs)"

text \<open>
  The victim that the spec describes for the aging policy: among the frames whose page has
  the smallest age, the one with the lowest index.
\<close>

definition aging_victim_spec :: "vmem_h \<Rightarrow> machine \<Rightarrow> int" where
  "aging_victim_spec h s =
     hd (filter (\<lambda>i. \<forall>k \<in> set [0..VMEM_NFRAMES h - 1]. frame_age s i \<le> frame_age s k)
           [0..VMEM_NFRAMES h - 1])"

subsection \<open>Concrete machines\<close>

text \<open>
  A small header with four pages of eight words and two frames, a pagefile whose page \<open>p\<close>
  holds eight times \<open>100 + p\<close>, and the machine after a write to the address 0 and a read
  of the address 8: both frames are occupied, by the pages 0 and 1, page 0 is dirty, both
  pages are referenced and have the age of \<^verbatim>\<open>vmem_init\<close>.
\<close>

definition h_small :: vmem_h where
  "h_small = \<lparr>VMEM_NPAGES = 4, VMEM_NFRAMES = 2, VMEM_PAGESIZE = 8, UPDATE_AGE_COUNT = 20\<rparr>"

definition pf_small :: "int \<Rightarrow> int list" where
  "pf_small p = replicate 8 (100 + p)"

definition s_full :: "algo \<Rightarrow> machine" where
  "s_full a =
     \<lparr>adm_req_pageno = 1, adm_next_alloc_idx = 0, adm_pf_count = 2, adm_g_count = 2,
      adm_page_rep_algo = a,
      pt_entries = [\<lparr>flags = 6, frame = 0, count = 0, age = 0x80\<rparr>,
                    \<lparr>flags = 4, frame = 1, count = 0, age = 0x80\<rparr>,
                    \<lparr>flags = 0, frame = - 1, count = 0, age = 0x80\<rparr>,
                    \<lparr>flags = 0, frame = - 1, count = 0, age = 0x80\<rparr>],
      pt_framepage = [0, 1],
      data = [7, 0, 0, 0, 0, 0, 0, 0, 0, 0, 0, 0, 0, 0, 0, 0],
      fifo_current = - 1,
      event = \<lparr>le_req_pageno = 1, le_replaced_page = - 1, le_alloc_frame = 1,
               le_pf_count = 2, le_g_count = 1\<rparr>,
      local_sem = 0, pagefile = pf_small,
      trace = [Kill_SIGUSR1,
               Logger \<lparr>le_req_pageno = 0, le_replaced_page = - 1, le_alloc_frame = 0,
                       le_pf_count = 1, le_g_count = 0\<rparr>,
               Sem_post, Kill_SIGUSR1,
               Logger \<lparr>le_req_pageno = 1, le_replaced_page = - 1, le_alloc_frame = 1,
                       le_pf_count = 2, le_g_count = 1\<rparr>,
               Sem_post]\<rparr>"

text \<open>
  The machine \<open>s_full\<close> at the moment the manager gets the signal for a read of the
  address 16: the page 2 is requested, referenced and not resident.
\<close>

definition s_fault :: "algo \<Rightarrow> machine" where
  "s_fault a =
     (s_full a)\<lparr>adm_req_pageno := 2,
                pt_entries := (pt_entries (s_full a))
                                [2 := \<lparr>flags = 4, frame = - 1, count = 0, age = 0x80\<rparr>],
                trace := trace (s_full a) @ [Kill_SIGUSR1]\<rparr>"

text \<open>
  The machine at the first fault after \<^verbatim>\<open>vmem_init\<close> on a fresh segment: the client
  writes to the address 0, no frame is occupied, the page 0 is requested.
\<close>

definition s_first :: "algo \<Rightarrow> machine" where
  "s_first a =
     \<lparr>adm_req_pageno = 0, adm_next_alloc_idx = 0, adm_pf_count = 0, adm_g_count = 0,
      adm_page_rep_algo = a,
      pt_entries = [\<lparr>flags = 6, frame = - 1, count = 0, age = 0x80\<rparr>,
                    \<lparr>flags = 0, frame = - 1, count = 0, age = 0x80\<rparr>,
                    \<lparr>flags = 0, frame = - 1, count = 0, age = 0x80\<rparr>,
                    \<lparr>flags = 0, frame = - 1, count = 0, age = 0x80\<rparr>],
      pt_framepage = [- 1, - 1],
      data = replicate 16 0,
      fifo_current = - 1,
      event = \<lparr>le_req_pageno = 0, le_replaced_page = 0, le_alloc_frame = 0,
               le_pf_count = 0, le_g_count = 0\<rparr>,
      local_sem = 0, pagefile = pf_small,
      trace = [Kill_SIGUSR1]\<rparr>"

subsection \<open>The accessors in parts, and runs of accesses\<close>

text \<open>
  What one pass of \<^verbatim>\<open>update_age_reset_ref\<close> does to the entry of a page found in a frame:
  the age is halved, and a set \<^verbatim>\<open>PTF_REF\<close> moves into the top bit of the age and is cleared.
\<close>

definition decay :: "pt_entry \<Rightarrow> pt_entry" where
  "decay e =
     (if flags e AND PTF_REF = PTF_REF
      then e\<lparr>age := age e div 2 OR 0x80, flags := flags e XOR PTF_REF\<rparr>
      else e\<lparr>age := age e div 2\<rparr>)"

text \<open>The page \<open>p\<close> is listed in a frame with an index from \<open>i\<close> on.\<close>

definition in_frames :: "vmem_h \<Rightarrow> int \<Rightarrow> machine \<Rightarrow> nat \<Rightarrow> bool" where
  "in_frames h i s p \<longleftrightarrow> (\<exists>k. i \<le> k \<and> k < VMEM_NFRAMES h \<and> pt_framepage s ! nat k = int p)"

text \<open>
  A page that is resident in \<open>s\<close> and in \<open>t\<close> has the same frame in both, and the words of
  this frame are the same in both.
\<close>

definition stays :: "vmem_h \<Rightarrow> machine \<Rightarrow> machine \<Rightarrow> bool" where
  "stays h s t \<longleftrightarrow>
     (\<forall>q < length (pt_entries s).
        frame (pt_entries s ! q) \<noteq> VOID_IDX \<longrightarrow> frame (pt_entries t ! q) \<noteq> VOID_IDX \<longrightarrow>
        frame (pt_entries t ! q) = frame (pt_entries s ! q) \<and>
        (\<forall>k. 0 \<le> k \<and> k < VMEM_PAGESIZE h \<longrightarrow>
           data t ! nat (frame (pt_entries s ! q) * VMEM_PAGESIZE h + k) =
           data s ! nat (frame (pt_entries s ! q) * VMEM_PAGESIZE h + k)))"

text \<open>
  The common start of \<^verbatim>\<open>vmem_read\<close> and \<^verbatim>\<open>vmem_write\<close> once the page index is known:
  the requested page is published, the flags are set, and a page that is not resident is
  requested from the manager.
\<close>

definition touch :: "vmem_h \<Rightarrow> int \<Rightarrow> int \<Rightarrow> machine \<Rightarrow> unit outcome" where
  "touch h page_index fl s =
     (if frame (pt_entries s ! nat page_index) = VOID_IDX
      then page_fault h (set_flags page_index fl (s\<lparr>adm_req_pageno := page_index\<rparr>))
      else Inr ((), set_flags page_index fl (s\<lparr>adm_req_pageno := page_index\<rparr>)))"

text \<open>The masks of the address decomposition assume a page size that is a power of two.\<close>

definition pagesize_pow2 :: "vmem_h \<Rightarrow> bool" where
  "pagesize_pow2 h \<longleftrightarrow> (\<exists>k. VMEM_PAGESIZE h = 2 ^ k)"

text \<open>
  The rest of \<^verbatim>\<open>vmem_read\<close> and of \<^verbatim>\<open>vmem_write\<close> after the page is resident: the
  physical cell is computed and tested, read or written, the access is counted and the
  aging pass is called.
\<close>

definition read_tail :: "vmem_h \<Rightarrow> int \<Rightarrow> int \<Rightarrow> machine \<Rightarrow> int outcome" where
  "read_tail h offset page_index s3 =
     (if \<not> idx_ok page_index (pt_entries s3) then Inl (C_undefined, s3)
      else let page = (frame (pt_entries s3 ! nat page_index) * VMEM_PAGESIZE h) OR offset in
        if page < 0 then Inl (Exit_failure, s3)
        else if page \<ge> 128 then Inl (Exit_failure, s3)
        else if \<not> idx_ok page (data s3) then Inl (C_undefined, s3)
        else let holder = data s3 ! nat page;
                 s4 = s3\<lparr>adm_g_count := adm_g_count s3 + 1\<rparr> in
          case (if adm_page_rep_algo s4 = VMEM_ALGO_AGING
                then update_age_reset_ref h s4 else Inr ((), s4)) of
            Inl e \<Rightarrow> Inl e
          | Inr (u, s5) \<Rightarrow> Inr (holder, s5))"

definition write_tail :: "vmem_h \<Rightarrow> int \<Rightarrow> int \<Rightarrow> int \<Rightarrow> machine \<Rightarrow> unit outcome" where
  "write_tail h offset page_index v s3 =
     (if \<not> idx_ok page_index (pt_entries s3) then Inl (C_undefined, s3)
      else let page = (frame (pt_entries s3 ! nat page_index) * VMEM_PAGESIZE h) OR offset in
        if page < 0 then Inl (Exit_failure, s3)
        else if page \<ge> 128 then Inl (Exit_failure, s3)
        else if \<not> idx_ok page (data s3) then Inl (C_undefined, s3)
        else let s4 = s3\<lparr>data := (data s3)[nat page := v]\<rparr>;
                 s5 = s4\<lparr>adm_g_count := adm_g_count s4 + 1\<rparr> in
          if adm_page_rep_algo s5 = VMEM_ALGO_AGING
          then update_age_reset_ref h s5 else Inr ((), s5))"

text \<open>The accesses of a client program, and a run of them.\<close>

datatype access = Read int | Write int int

fun step :: "vmem_h \<Rightarrow> access \<Rightarrow> machine \<Rightarrow> machine option" where
  "step h (Read b) s = (case vmem_read h b s of Inl e \<Rightarrow> None | Inr (v, t) \<Rightarrow> Some t)"
| "step h (Write b w) s = (case vmem_write h b w s of Inl e \<Rightarrow> None | Inr (u, t) \<Rightarrow> Some t)"

text \<open>
  The run of a list of accesses that all return and after each of which the page \<open>p\<close> is
  resident. An access raises one page fault at most, which removes one page at most, so a
  page that is resident before and after the access was not evicted by it.
\<close>

fun run_keeping :: "vmem_h \<Rightarrow> int \<Rightarrow> access list \<Rightarrow> machine \<Rightarrow> machine option" where
  "run_keeping h p [] s = Some s"
| "run_keeping h p (x # xs) s =
     (case step h x s of
        None \<Rightarrow> None
      | Some t \<Rightarrow> if frame (pt_entries t ! nat p) = VOID_IDX then None
                  else run_keeping h p xs t)"

fun writes_to :: "int \<Rightarrow> access \<Rightarrow> bool" where
  "writes_to a (Read b) = False"
| "writes_to a (Write b w) = (b = a)"

text \<open>
  The page of the address \<open>a\<close> is resident, and the word of its frame at the offset of \<open>a\<close>,
  which lies below the bound 128 of the accessors, is \<open>v\<close>.
\<close>

definition holds :: "vmem_h \<Rightarrow> int \<Rightarrow> int \<Rightarrow> machine \<Rightarrow> bool" where
  "holds h a v s \<longleftrightarrow> machine_inv h s \<and>
     0 \<le> a div VMEM_PAGESIZE h \<and> a div VMEM_PAGESIZE h < VMEM_NPAGES h \<and>
     frame (pt_entries s ! nat (a div VMEM_PAGESIZE h)) \<noteq> VOID_IDX \<and>
     frame (pt_entries s ! nat (a div VMEM_PAGESIZE h)) * VMEM_PAGESIZE h + a mod VMEM_PAGESIZE h < 128 \<and>
     data s ! nat (frame (pt_entries s ! nat (a div VMEM_PAGESIZE h)) * VMEM_PAGESIZE h +
                   a mod VMEM_PAGESIZE h) = v"

text \<open>
  A run of accesses that all return, and the accesses whose page number is in range.
\<close>

fun run :: "vmem_h \<Rightarrow> access list \<Rightarrow> machine \<Rightarrow> machine option" where
  "run h [] s = Some s"
| "run h (x # xs) s = (case step h x s of None \<Rightarrow> None | Some t \<Rightarrow> run h xs t)"

fun in_range :: "vmem_h \<Rightarrow> access \<Rightarrow> bool" where
  "in_range h (Read a) \<longleftrightarrow> 0 \<le> a div VMEM_PAGESIZE h \<and> a div VMEM_PAGESIZE h < VMEM_NPAGES h"
| "in_range h (Write a v) \<longleftrightarrow> 0 \<le> a div VMEM_PAGESIZE h \<and> a div VMEM_PAGESIZE h < VMEM_NPAGES h"

text \<open>The recursive equations of the loops are unfolded by hand in the proofs.\<close>

declare init_entries.simps [simp del]
declare init_framepage.simps [simp del]
declare find_free_frame_from.simps [simp del]
declare aging_scan.simps [simp del]
declare find_remove_clock.simps [simp del]
declare age_loop.simps [simp del]

section \<open>Lemmas\<close>

subsection \<open>The replacement policies\<close>

lemma find_free_frame_from_spec:
  "0 \<le> i \<Longrightarrow> find_free_frame_from h i s = (idx, t) \<Longrightarrow>
     (idx = VOID_IDX \<and> t = s \<and> (\<forall>k. i \<le> k \<and> k < VMEM_NFRAMES h \<longrightarrow> pt_framepage s ! nat k \<noteq> VOID_IDX)) \<or>
     (i \<le> idx \<and> idx < VMEM_NFRAMES h \<and> pt_framepage s ! nat idx = VOID_IDX \<and>
      (\<forall>k. i \<le> k \<and> k < idx \<longrightarrow> pt_framepage s ! nat k \<noteq> VOID_IDX) \<and>
      t = s\<lparr>event := (event s)\<lparr>le_replaced_page := VOID_IDX\<rparr>\<rparr>)"
proof (induction h i s rule: find_free_frame_from.induct)
  case (1 h i s)
  show ?case
  proof (cases "i < VMEM_NFRAMES h")
    case False
    with "1.prems" show ?thesis by (simp add: find_free_frame_from.simps [of h i s])
  next
    case inr: True
    show ?thesis
    proof (cases "pt_framepage s ! nat i = VOID_IDX")
      case True
      with inr "1.prems" show ?thesis by (simp add: find_free_frame_from.simps [of h i s])
    next
      case False
      with inr "1.prems" have eq: "find_free_frame_from h (i + 1) s = (idx, t)"
        by (simp add: find_free_frame_from.simps [of h i s])
      from "1.prems" have "0 \<le> i + 1" by simp
      from "1.IH" [OF inr False this eq]
      show ?thesis
      proof (elim disjE conjE)
        assume a: "idx = VOID_IDX" "t = s" "\<forall>k. i + 1 \<le> k \<and> k < VMEM_NFRAMES h \<longrightarrow> pt_framepage s ! nat k \<noteq> VOID_IDX"
        have "\<forall>k. i \<le> k \<and> k < VMEM_NFRAMES h \<longrightarrow> pt_framepage s ! nat k \<noteq> VOID_IDX"
        proof (intro allI impI)
          fix k assume "i \<le> k \<and> k < VMEM_NFRAMES h"
          then show "pt_framepage s ! nat k \<noteq> VOID_IDX"
            using a(3) False by (cases "k = i") auto
        qed
        with a show ?thesis by simp
      next
        assume a: "i + 1 \<le> idx" "idx < VMEM_NFRAMES h" "pt_framepage s ! nat idx = VOID_IDX"
          "\<forall>k. i + 1 \<le> k \<and> k < idx \<longrightarrow> pt_framepage s ! nat k \<noteq> VOID_IDX"
          "t = s\<lparr>event := (event s)\<lparr>le_replaced_page := VOID_IDX\<rparr>\<rparr>"
        have "\<forall>k. i \<le> k \<and> k < idx \<longrightarrow> pt_framepage s ! nat k \<noteq> VOID_IDX"
        proof (intro allI impI)
          fix k assume "i \<le> k \<and> k < idx"
          then show "pt_framepage s ! nat k \<noteq> VOID_IDX"
            using a(4) False by (cases "k = i") auto
        qed
        with a show ?thesis by simp
      qed
    qed
  qed
qed

lemma remove_element_eq:
  assumes "idx_ok e (pt_entries s)" "e < VMEM_NPAGES h"
    "slice_ok (adm_next_alloc_idx s * VMEM_PAGESIZE h) (VMEM_PAGESIZE h) (data s)"
  shows "remove_element h e s = Inr ((), after_removal h e s)"
  using assms
  by (simp add: remove_element_def after_removal_def is_dirty_def store_page_def
      store_page_to_pagefile_def set_frame_def frame_words_def idx_ok_def Let_def)

lemma frame_slice_ok:
  assumes "0 \<le> idx" "idx < nf" "0 < ps" "int (length d) = nf * ps"
  shows "slice_ok (idx * ps) ps d"
proof -
  have "(idx + 1) * ps \<le> nf * ps"
    using assms by (intro mult_right_mono) auto
  then have "idx * ps + ps \<le> nf * ps"
    by (simp add: algebra_simps)
  with assms show ?thesis
    by (simp add: slice_ok_def)
qed

lemma occupied_page:
  assumes "frames_agree s" "all_occupied s" "0 \<le> i" "i < int (length (pt_framepage s))"
  shows "idx_ok (pt_framepage s ! nat i) (pt_entries s)"
    and "frame (pt_entries s ! nat (pt_framepage s ! nat i)) = i"
proof -
  from assms(3,4) have n: "nat i < length (pt_framepage s)" by simp
  with assms(2) have "pt_framepage s ! nat i \<noteq> VOID_IDX" by (simp add: all_occupied_def)
  with assms(1) n show "idx_ok (pt_framepage s ! nat i) (pt_entries s)"
    and "frame (pt_entries s ! nat (pt_framepage s ! nat i)) = i"
    using assms(3) by (auto simp: frames_agree_def)
qed

lemma after_removal_evicts:
  assumes "wf_h h" "layout_ok h s" 
    and idx: "0 \<le> idx" "idx < VMEM_NFRAMES h"
    and nx: "adm_next_alloc_idx s = idx"
    and cur: "cursor_ok h s"
    and e: "e = pt_framepage s ! nat idx"
  shows "evicts h s idx (after_removal h e s)"
  using assms
  by (simp add: evicts_def after_removal_def is_dirty_def frame_words_def cursor_ok_def
      map_update)

lemma fifo_evicts:
  assumes h: "wf_h h" and lay: "layout_ok h s" and fr: "frames_agree s"
    and cur: "cursor_ok h s" and occ: "all_occupied s"
  shows "\<exists>idx t. find_remove_fifo h s = Inr (idx, t) \<and> evicts h s idx t \<and>
           idx = (if fifo_current s = VMEM_NFRAMES h - 1 then 0 else fifo_current s + 1)"
proof -
  define fc where "fc = (if fifo_current s = VMEM_NFRAMES h - 1 then 0 else fifo_current s + 1)"
  define s1 where "s1 = s\<lparr>fifo_current := fc, adm_next_alloc_idx := fc\<rparr>"
  from cur h have fc: "0 \<le> fc" "fc < VMEM_NFRAMES h"
    by (auto simp: fc_def cursor_ok_def wf_h_def)
  with h have fcp: "fc < VMEM_NPAGES h" by (simp add: wf_h_def)
  from lay fc have ok: "idx_ok fc (pt_framepage s1)"
    by (simp add: idx_ok_def layout_ok_def s1_def)
  have fr1: "frames_agree s1" and occ1: "all_occupied s1" and lay1: "layout_ok h s1"
    using fr occ lay by (simp_all add: frames_agree_def all_occupied_def layout_ok_def s1_def)
  define e where "e = pt_framepage s1 ! nat fc"
  from occupied_page [OF fr1 occ1] fc lay1 have eok: "idx_ok e (pt_entries s1)"
    by (simp add: e_def layout_ok_def)
  with lay1 have ep: "e < VMEM_NPAGES h" by (simp add: idx_ok_def layout_ok_def)
  have sl: "slice_ok (adm_next_alloc_idx s1 * VMEM_PAGESIZE h) (VMEM_PAGESIZE h) (data s1)"
  proof -
    from h have ps: "0 < VMEM_PAGESIZE h" by (simp add: wf_h_def)
    from lay1 have len: "int (length (data s1)) = VMEM_NFRAMES h * VMEM_PAGESIZE h"
      by (simp add: layout_ok_def)
    from frame_slice_ok [OF fc ps len] show ?thesis by (simp add: s1_def)
  qed
  have rm: "remove_element h e s1 = Inr ((), after_removal h e s1)"
    by (rule remove_element_eq [OF eok ep sl])
  have res: "find_remove_fifo h s = Inr (fc, after_removal h e s1)"
    using fc fcp ok rm
    by (simp add: find_remove_fifo_def Let_def fc_def [symmetric] s1_def [symmetric] e_def [symmetric])
  have cur1: "cursor_ok h s1" using fc by (simp add: cursor_ok_def s1_def)
  have "evicts h s1 fc (after_removal h e s1)"
    by (rule after_removal_evicts [OF h lay1 fc _ cur1 e_def]) (simp add: s1_def)
  then have "evicts h s fc (after_removal h e s1)"
    by (simp add: evicts_def s1_def is_dirty_def frame_words_def)
  with res show ?thesis by (simp add: fc_def)
qed

lemma frame_age_next [simp]: "frame_age (s\<lparr>adm_next_alloc_idx := j\<rparr>) = frame_age s"
  by (rule ext) (simp add: frame_age_def)

lemma aging_scan_spec:
  assumes "0 \<le> i"
    and "\<forall>k. i \<le> k \<and> k < VMEM_NFRAMES h \<longrightarrow> idx_ok (pt_framepage s ! nat k) (pt_entries s)"
  shows "\<exists>j. aging_scan h i a s = Inr ((), s\<lparr>adm_next_alloc_idx := j\<rparr>) \<and>
           ((j = adm_next_alloc_idx s \<and> (\<forall>k. i \<le> k \<and> k < VMEM_NFRAMES h \<longrightarrow> a < frame_age s k)) \<or>
            (i \<le> j \<and> j < VMEM_NFRAMES h \<and> frame_age s j \<le> a \<and>
             (\<forall>k. i \<le> k \<and> k < VMEM_NFRAMES h \<longrightarrow> frame_age s j \<le> frame_age s k) \<and>
             (\<forall>k. j < k \<and> k < VMEM_NFRAMES h \<longrightarrow> frame_age s j < frame_age s k)))"
  using assms
proof (induction h i a s rule: aging_scan.induct)
  case (1 h i a s)
  show ?case
  proof (cases "i < VMEM_NFRAMES h")
    case False
    then have "aging_scan h i a s = Inr ((), s\<lparr>adm_next_alloc_idx := adm_next_alloc_idx s\<rparr>)"
      by (simp add: aging_scan.simps [of h i a s])
    with False show ?thesis by (intro exI [of _ "adm_next_alloc_idx s"]) simp
  next
    case inr: True
    define p where "p = pt_framepage s ! nat i"
    from "1.prems" inr have pok: "idx_ok p (pt_entries s)" by (simp add: p_def)
    have later: "\<forall>k. i + 1 \<le> k \<and> k < VMEM_NFRAMES h \<longrightarrow> idx_ok (pt_framepage s ! nat k) (pt_entries s)"
      using "1.prems"(2) by simp
    have i1: "0 \<le> i + 1" using "1.prems"(1) by simp
    have Ai: "frame_age s i = uint (age (pt_entries s ! nat p))"
      by (simp add: frame_age_def p_def)
    show ?thesis
    proof (cases "uint (age (pt_entries s ! nat p)) \<le> a")
      case True
      have step: "aging_scan h i a s =
          aging_scan h (i + 1) (frame_age s i) (s\<lparr>adm_next_alloc_idx := i\<rparr>)"
        using inr pok True by (simp add: aging_scan.simps [of h i a s] p_def [symmetric] Ai Let_def)
      from pok True have c1: "\<not> \<not> idx_ok p (pt_entries s)" "uint (age (pt_entries s ! nat p)) \<le> a"
        by simp_all
      from later have later': "\<forall>k. i + 1 \<le> k \<and> k < VMEM_NFRAMES h \<longrightarrow>
           idx_ok (pt_framepage (s\<lparr>adm_next_alloc_idx := i\<rparr>) ! nat k) (pt_entries (s\<lparr>adm_next_alloc_idx := i\<rparr>))"
        by simp
      from "1.IH"(1) [OF inr p_def c1 i1 later']
      obtain j where
        r: "aging_scan h (i + 1) (frame_age s i) (s\<lparr>adm_next_alloc_idx := i\<rparr>) = Inr ((), s\<lparr>adm_next_alloc_idx := j\<rparr>)"
        and d: "(j = i \<and> (\<forall>k. i + 1 \<le> k \<and> k < VMEM_NFRAMES h \<longrightarrow> frame_age s i < frame_age s k)) \<or>
            (i + 1 \<le> j \<and> j < VMEM_NFRAMES h \<and> frame_age s j \<le> frame_age s i \<and>
             (\<forall>k. i + 1 \<le> k \<and> k < VMEM_NFRAMES h \<longrightarrow> frame_age s j \<le> frame_age s k) \<and>
             (\<forall>k. j < k \<and> k < VMEM_NFRAMES h \<longrightarrow> frame_age s j < frame_age s k))"
        by (auto simp: Ai)
      have "i \<le> j \<and> j < VMEM_NFRAMES h \<and> frame_age s j \<le> a \<and>
             (\<forall>k. i \<le> k \<and> k < VMEM_NFRAMES h \<longrightarrow> frame_age s j \<le> frame_age s k) \<and>
             (\<forall>k. j < k \<and> k < VMEM_NFRAMES h \<longrightarrow> frame_age s j < frame_age s k)"
        using d
      proof
        assume a1: "j = i \<and> (\<forall>k. i + 1 \<le> k \<and> k < VMEM_NFRAMES h \<longrightarrow> frame_age s i < frame_age s k)"
        have "\<forall>k. i \<le> k \<and> k < VMEM_NFRAMES h \<longrightarrow> frame_age s i \<le> frame_age s k"
        proof (intro allI impI)
          fix k assume k: "i \<le> k \<and> k < VMEM_NFRAMES h"
          show "frame_age s i \<le> frame_age s k"
          proof (cases "k = i")
            case True then show ?thesis by simp
          next
            case False
            with k have "i + 1 \<le> k \<and> k < VMEM_NFRAMES h" by simp
            with a1 have "frame_age s i < frame_age s k" by blast
            then show ?thesis by simp
          qed
        qed
        moreover have "\<forall>k. i < k \<and> k < VMEM_NFRAMES h \<longrightarrow> frame_age s i < frame_age s k"
          using a1 by simp
        ultimately show ?thesis using a1 inr True Ai by simp
      next
        assume a2: "i + 1 \<le> j \<and> j < VMEM_NFRAMES h \<and> frame_age s j \<le> frame_age s i \<and>
             (\<forall>k. i + 1 \<le> k \<and> k < VMEM_NFRAMES h \<longrightarrow> frame_age s j \<le> frame_age s k) \<and>
             (\<forall>k. j < k \<and> k < VMEM_NFRAMES h \<longrightarrow> frame_age s j < frame_age s k)"
        have "\<forall>k. i \<le> k \<and> k < VMEM_NFRAMES h \<longrightarrow> frame_age s j \<le> frame_age s k"
        proof (intro allI impI)
          fix k assume k: "i \<le> k \<and> k < VMEM_NFRAMES h"
          show "frame_age s j \<le> frame_age s k"
          proof (cases "k = i")
            case True with a2 show ?thesis by simp
          next
            case False
            with k have "i + 1 \<le> k \<and> k < VMEM_NFRAMES h" by simp
            with a2 show ?thesis by blast
          qed
        qed
        with a2 True Ai show ?thesis by simp
      qed
      with step r show ?thesis by auto
    next
      case False
      have step: "aging_scan h i a s = aging_scan h (i + 1) a s"
        using inr pok False by (simp add: aging_scan.simps [of h i a s] p_def [symmetric] Let_def)
      from pok have c1: "\<not> \<not> idx_ok p (pt_entries s)" by simp
      from "1.IH"(2) [OF inr p_def c1 False i1 later]
      obtain j where
        r: "aging_scan h (i + 1) a s = Inr ((), s\<lparr>adm_next_alloc_idx := j\<rparr>)"
        and d: "(j = adm_next_alloc_idx s \<and> (\<forall>k. i + 1 \<le> k \<and> k < VMEM_NFRAMES h \<longrightarrow> a < frame_age s k)) \<or>
            (i + 1 \<le> j \<and> j < VMEM_NFRAMES h \<and> frame_age s j \<le> a \<and>
             (\<forall>k. i + 1 \<le> k \<and> k < VMEM_NFRAMES h \<longrightarrow> frame_age s j \<le> frame_age s k) \<and>
             (\<forall>k. j < k \<and> k < VMEM_NFRAMES h \<longrightarrow> frame_age s j < frame_age s k))"
        by auto
      from False Ai have ai: "a < frame_age s i" by simp
      have "(j = adm_next_alloc_idx s \<and> (\<forall>k. i \<le> k \<and> k < VMEM_NFRAMES h \<longrightarrow> a < frame_age s k)) \<or>
            (i \<le> j \<and> j < VMEM_NFRAMES h \<and> frame_age s j \<le> a \<and>
             (\<forall>k. i \<le> k \<and> k < VMEM_NFRAMES h \<longrightarrow> frame_age s j \<le> frame_age s k) \<and>
             (\<forall>k. j < k \<and> k < VMEM_NFRAMES h \<longrightarrow> frame_age s j < frame_age s k))"
        using d
      proof
        assume a1: "j = adm_next_alloc_idx s \<and> (\<forall>k. i + 1 \<le> k \<and> k < VMEM_NFRAMES h \<longrightarrow> a < frame_age s k)"
        have "\<forall>k. i \<le> k \<and> k < VMEM_NFRAMES h \<longrightarrow> a < frame_age s k"
        proof (intro allI impI)
          fix k assume k: "i \<le> k \<and> k < VMEM_NFRAMES h"
          show "a < frame_age s k"
          proof (cases "k = i")
            case True with ai show ?thesis by simp
          next
            case False
            with k have "i + 1 \<le> k \<and> k < VMEM_NFRAMES h" by simp
            with a1 show ?thesis by blast
          qed
        qed
        with a1 show ?thesis by simp
      next
        assume a2: "i + 1 \<le> j \<and> j < VMEM_NFRAMES h \<and> frame_age s j \<le> a \<and>
             (\<forall>k. i + 1 \<le> k \<and> k < VMEM_NFRAMES h \<longrightarrow> frame_age s j \<le> frame_age s k) \<and>
             (\<forall>k. j < k \<and> k < VMEM_NFRAMES h \<longrightarrow> frame_age s j < frame_age s k)"
        have "\<forall>k. i \<le> k \<and> k < VMEM_NFRAMES h \<longrightarrow> frame_age s j \<le> frame_age s k"
        proof (intro allI impI)
          fix k assume k: "i \<le> k \<and> k < VMEM_NFRAMES h"
          show "frame_age s j \<le> frame_age s k"
          proof (cases "k = i")
            case True with a2 ai show ?thesis by simp
          next
            case False
            with k have "i + 1 \<le> k \<and> k < VMEM_NFRAMES h" by simp
            with a2 show ?thesis by blast
          qed
        qed
        with a2 show ?thesis by simp
      qed
      with step r show ?thesis by auto
    qed
  qed
qed

lemma map_frame_update_same:
  "frame y = frame (xs ! n) \<Longrightarrow> map frame (xs[n := y]) = map frame xs"
  by (cases "n < length xs") (auto simp: list_eq_iff_nth_eq nth_list_update)

lemma evicts_set_age:
  "evicts h s idx t \<Longrightarrow> evicts h s idx (set_age p a t)"
  by (simp add: evicts_def set_age_def map_frame_update_same cursor_ok_def)

lemma evicts_set_flags:
  "evicts h s idx t \<Longrightarrow> evicts h s idx (set_flags p a t)"
  by (simp add: evicts_def set_flags_def map_frame_update_same cursor_ok_def)

lemma frame_age_le: "frame_age s i \<le> UCHAR_MAX"
proof -
  have "uint (age (pt_entries s ! nat (pt_framepage s ! nat i))) < 2 ^ LENGTH(8)"
    by (rule uint_lt2p)
  then show ?thesis by (simp add: frame_age_def UCHAR_MAX_def)
qed

lemma aging_evicts:
  assumes h: "wf_h h" and lay: "layout_ok h s" and fr: "frames_agree s"
    and cur: "cursor_ok h s" and occ: "all_occupied s"
  shows "\<exists>idx t. find_remove_aging h s = Inr (idx, t) \<and> evicts h s idx t \<and>
           (\<forall>k. 0 \<le> k \<and> k < VMEM_NFRAMES h \<longrightarrow> frame_age s idx \<le> frame_age s k) \<and>
           (\<forall>k. idx < k \<and> k < VMEM_NFRAMES h \<longrightarrow> frame_age s idx < frame_age s k) \<and>
           age (pt_entries t ! nat (pt_framepage s ! nat idx)) = 0x80 \<and>
           frame (pt_entries t ! nat (pt_framepage s ! nat idx)) = VOID_IDX"
proof -
  define s0 where "s0 = s\<lparr>adm_next_alloc_idx := VOID_IDX\<rparr>"
  have valid: "\<forall>k. 0 \<le> k \<and> k < VMEM_NFRAMES h \<longrightarrow> idx_ok (pt_framepage s0 ! nat k) (pt_entries s0)"
    using occupied_page(1) [OF fr occ] lay by (simp add: s0_def layout_ok_def)
  from aging_scan_spec [OF order_refl valid, of UCHAR_MAX]
  obtain j where r: "aging_scan h 0 UCHAR_MAX s0 = Inr ((), s0\<lparr>adm_next_alloc_idx := j\<rparr>)"
    and d: "(j = adm_next_alloc_idx s0 \<and> (\<forall>k. 0 \<le> k \<and> k < VMEM_NFRAMES h \<longrightarrow> UCHAR_MAX < frame_age s0 k)) \<or>
            (0 \<le> j \<and> j < VMEM_NFRAMES h \<and> frame_age s0 j \<le> UCHAR_MAX \<and>
             (\<forall>k. 0 \<le> k \<and> k < VMEM_NFRAMES h \<longrightarrow> frame_age s0 j \<le> frame_age s0 k) \<and>
             (\<forall>k. j < k \<and> k < VMEM_NFRAMES h \<longrightarrow> frame_age s0 j < frame_age s0 k))"
    by blast
  have fa: "frame_age s0 = frame_age s" by (simp add: s0_def)
  from h have "0 \<le> (0::int) \<and> 0 < VMEM_NFRAMES h" by (simp add: wf_h_def)
  moreover have "\<not> UCHAR_MAX < frame_age s0 0"
    using frame_age_le [of s0 0] by simp
  ultimately have "\<not> (\<forall>k. 0 \<le> k \<and> k < VMEM_NFRAMES h \<longrightarrow> UCHAR_MAX < frame_age s0 k)"
    by blast
  with d have j: "0 \<le> j" "j < VMEM_NFRAMES h"
    and least: "\<forall>k. 0 \<le> k \<and> k < VMEM_NFRAMES h \<longrightarrow> frame_age s j \<le> frame_age s k"
    and last: "\<forall>k. j < k \<and> k < VMEM_NFRAMES h \<longrightarrow> frame_age s j < frame_age s k"
    by (auto simp: fa)
  define s1 where "s1 = s\<lparr>adm_next_alloc_idx := j\<rparr>"
  have s01: "s0\<lparr>adm_next_alloc_idx := j\<rparr> = s1" by (simp add: s0_def s1_def)
  have nv: "j \<noteq> VOID_IDX" using j by (simp add: VOID_IDX_def)
  have lay1: "layout_ok h s1" and fr1: "frames_agree s1" and occ1: "all_occupied s1"
    and cur1: "cursor_ok h s1"
    using lay fr occ cur
    by (simp_all add: s1_def layout_ok_def frames_agree_def all_occupied_def cursor_ok_def)
  have jok: "idx_ok j (pt_framepage s1)"
    using j lay by (simp add: idx_ok_def s1_def layout_ok_def)
  define e where "e = pt_framepage s1 ! nat j"
  from occupied_page [OF fr1 occ1] j lay1 have eok: "idx_ok e (pt_entries s1)"
    by (simp add: e_def layout_ok_def)
  with lay1 have ep: "e < VMEM_NPAGES h" by (simp add: idx_ok_def layout_ok_def)
  have sl: "slice_ok (adm_next_alloc_idx s1 * VMEM_PAGESIZE h) (VMEM_PAGESIZE h) (data s1)"
  proof -
    from h have ps: "0 < VMEM_PAGESIZE h" by (simp add: wf_h_def)
    from lay1 have len: "int (length (data s1)) = VMEM_NFRAMES h * VMEM_PAGESIZE h"
      by (simp add: layout_ok_def)
    from frame_slice_ok [OF j ps len] show ?thesis by (simp add: s1_def)
  qed
  have rm: "remove_element h e s1 = Inr ((), after_removal h e s1)"
    by (rule remove_element_eq [OF eok ep sl])
  have nx: "adm_next_alloc_idx (after_removal h e s1) = j"
    by (simp add: after_removal_def s1_def)
  have nx1: "adm_next_alloc_idx s1 = j"
    by (simp add: s1_def)
  have res: "find_remove_aging h s = Inr (j, set_age e 0x80 (after_removal h e s1))"
    by (simp add: find_remove_aging_def s0_def [symmetric] r s01 Let_def nv jok
        nx1 e_def [symmetric] rm nx)
  have "evicts h s1 j (after_removal h e s1)"
    by (rule after_removal_evicts [OF h lay1 j _ cur1 e_def]) (simp add: s1_def)
  then have "evicts h s1 j (set_age e 0x80 (after_removal h e s1))"
    by (rule evicts_set_age)
  then have ev: "evicts h s j (set_age e 0x80 (after_removal h e s1))"
    by (simp add: evicts_def s1_def is_dirty_def frame_words_def)
  have es: "e = pt_framepage s ! nat j" by (simp add: e_def s1_def)
  from eok have n: "nat e < length (pt_entries s)" by (simp add: idx_ok_def s1_def nat_less_iff)
  have ag: "age (pt_entries (set_age e 0x80 (after_removal h e s1)) ! nat e) = 0x80"
    and fv: "frame (pt_entries (set_age e 0x80 (after_removal h e s1)) ! nat e) = VOID_IDX"
    using n by (simp_all add: set_age_def after_removal_def s1_def)
  from res ev least last ag fv show ?thesis
    unfolding es by blast
qed

lemma xor_other_bit: "m \<noteq> k \<Longrightarrow> ((f::int) XOR 2 ^ m) AND 2 ^ k = f AND 2 ^ k"
  by (auto simp: bit_eq_iff bit_and_iff bit_xor_iff bit_exp_iff)

lemma dirty_xor_ref: "(f XOR PTF_REF) AND PTF_DIRTY = f AND PTF_DIRTY"
proof -
  have "(f XOR 2 ^ 2) AND 2 ^ 1 = f AND (2 ^ 1 :: int)"
    by (rule xor_other_bit) simp
  then show ?thesis
    by (simp add: PTF_REF_def PTF_DIRTY_def)
qed

lemma is_dirty_second_chance:
  "is_dirty (second_chance h s) p = is_dirty s p"
proof (cases "nat (visited_page h s) < length (pt_entries s)")
  case True
  then show ?thesis
    by (simp add: is_dirty_def second_chance_def set_flags_def clock_turn_def nth_list_update
        dirty_xor_ref)
next
  case False
  then have "length (pt_entries s) \<le> nat (visited_page h s)"
    by simp
  then show ?thesis
    by (simp add: is_dirty_def second_chance_def set_flags_def clock_turn_def list_update_beyond)
qed

lemma second_chance_fields:
  "pt_framepage (second_chance h s) = pt_framepage s"
  "length (pt_entries (second_chance h s)) = length (pt_entries s)"
  "map frame (pt_entries (second_chance h s)) = map frame (pt_entries s)"
  "data (second_chance h s) = data s"
  "pagefile (second_chance h s) = pagefile s"
  "trace (second_chance h s) = trace s"
  "adm_req_pageno (second_chance h s) = adm_req_pageno s"
  "adm_pf_count (second_chance h s) = adm_pf_count s"
  "adm_g_count (second_chance h s) = adm_g_count s"
  "adm_page_rep_algo (second_chance h s) = adm_page_rep_algo s"
  "local_sem (second_chance h s) = local_sem s"
  "fifo_current (second_chance h s) = next_frame h (fifo_current s)"
  by (simp_all add: second_chance_def set_flags_def clock_turn_def map_frame_update_same)

lemma frame_nth_map: "n < length xs \<Longrightarrow> frame (xs ! n) = map frame xs ! n"
  by simp

lemma frames_agree_cong:
  assumes "frames_agree s" "pt_framepage s' = pt_framepage s"
    "map frame (pt_entries s') = map frame (pt_entries s)"
  shows "frames_agree s'"
proof -
  from assms(3) have len: "length (pt_entries s') = length (pt_entries s)"
    by (metis length_map)
  show ?thesis
    unfolding frames_agree_def
  proof (intro allI impI)
    fix i assume i: "i < length (pt_framepage s')" and nv: "pt_framepage s' ! i \<noteq> VOID_IDX"
    with assms(1,2) have ok: "idx_ok (pt_framepage s ! i) (pt_entries s)"
      and fr: "frame (pt_entries s ! nat (pt_framepage s ! i)) = int i"
      by (auto simp: frames_agree_def)
    from ok have n: "nat (pt_framepage s ! i) < length (pt_entries s)"
      by (simp add: idx_ok_def nat_less_iff)
    have "frame (pt_entries s' ! nat (pt_framepage s ! i)) = map frame (pt_entries s') ! nat (pt_framepage s ! i)"
      using n len by simp
    also have "\<dots> = frame (pt_entries s ! nat (pt_framepage s ! i))"
      using n by (simp add: assms(3))
    finally show "idx_ok (pt_framepage s' ! i) (pt_entries s') \<and>
        frame (pt_entries s' ! nat (pt_framepage s' ! i)) = int i"
      using ok fr len by (simp add: assms(2) idx_ok_def)
  qed
qed

lemma next_frame_range:
  "wf_h h \<Longrightarrow> cursor_ok h s \<Longrightarrow> 0 \<le> next_frame h (fifo_current s) \<and> next_frame h (fifo_current s) < VMEM_NFRAMES h"
  by (auto simp: wf_h_def cursor_ok_def next_frame_def)

lemma second_chance_pre:
  assumes "wf_h h" "layout_ok h s" "frames_agree s" "cursor_ok h s" "all_occupied s"
  shows "layout_ok h (second_chance h s)" "frames_agree (second_chance h s)"
    "cursor_ok h (second_chance h s)" "all_occupied (second_chance h s)"
proof -
  show "layout_ok h (second_chance h s)"
    using assms(2) by (simp add: layout_ok_def second_chance_fields)
  show "frames_agree (second_chance h s)"
    by (rule frames_agree_cong [OF assms(3)]) (simp_all add: second_chance_fields)
  show "cursor_ok h (second_chance h s)"
    using next_frame_range [OF assms(1,4)] by (simp add: cursor_ok_def second_chance_fields)
  show "all_occupied (second_chance h s)"
    using assms(5) by (simp add: all_occupied_def second_chance_fields)
qed

lemma frame_words_second_chance: "frame_words h (second_chance h s) = frame_words h s"
  by (rule ext) (simp add: frame_words_def second_chance_fields)

lemma evicts_second_chance:
  "evicts h (second_chance h s) idx t \<Longrightarrow> evicts h s idx t"
  by (simp add: evicts_def second_chance_fields is_dirty_second_chance frame_words_second_chance)

lemma ref_count_second_chance:
  assumes "idx_ok (visited_page h s) (pt_entries s)" "is_ref s (visited_page h s)"
  shows "ref_count (second_chance h s) < ref_count s"
proof -
  from assms(1) have n: "nat (visited_page h s) < length (pt_entries s)"
    by (simp add: idx_ok_def nat_less_iff)
  from assms(2) have P: "flags (pt_entries s ! nat (visited_page h s)) AND PTF_REF = PTF_REF"
    by (simp add: is_ref_def)
  have "PTF_REF \<noteq> 0" by (simp add: PTF_REF_def)
  with ref_xor_clears [OF P]
  have Q: "\<not> (flags (pt_entries s ! nat (visited_page h s)) XOR PTF_REF) AND PTF_REF = PTF_REF"
    by simp
  show ?thesis
    unfolding ref_count_def second_chance_def set_flags_def clock_turn_def using n P Q
    by (simp add: filter_update_less)
qed

lemma clock_step_skip:
  assumes "idx_ok (next_frame h (fifo_current s)) (pt_framepage s)"
    "idx_ok (visited_page h s) (pt_entries s)" "is_ref s (visited_page h s)"
  shows "find_remove_clock h s = find_remove_clock h (second_chance h s)"
  using assms
  by (simp add: find_remove_clock.simps [of h s] Let_def next_frame_def [symmetric]
      visited_page_def is_ref_def second_chance_def clock_turn_def)

lemma clock_step_evict:
  assumes "idx_ok (next_frame h (fifo_current s)) (pt_framepage s)"
    "idx_ok (visited_page h s) (pt_entries s)" "\<not> is_ref s (visited_page h s)"
    "remove_element h (visited_page h s) (clock_turn h s) = Inr ((), t)"
    "fifo_current t = next_frame h (fifo_current s)"
  shows "find_remove_clock h s = Inr (next_frame h (fifo_current s), t)"
  using assms
  by (simp add: find_remove_clock.simps [of h s] Let_def next_frame_def [symmetric]
      visited_page_def is_ref_def clock_turn_def)

lemma clock_loop:
  assumes "wf_h h" "layout_ok h s" "frames_agree s" "cursor_ok h s" "all_occupied s"
  shows "\<exists>n. n \<le> ref_count s \<and>
      (\<forall>m<n. is_ref ((second_chance h ^^ m) s) (visited_page h ((second_chance h ^^ m) s))) \<and>
      \<not> is_ref ((second_chance h ^^ n) s) (visited_page h ((second_chance h ^^ n) s)) \<and>
      find_remove_clock h s =
        Inr (next_frame h (fifo_current ((second_chance h ^^ n) s)),
             after_removal h (visited_page h ((second_chance h ^^ n) s))
               (clock_turn h ((second_chance h ^^ n) s))) \<and>
      evicts h s (next_frame h (fifo_current ((second_chance h ^^ n) s)))
        (after_removal h (visited_page h ((second_chance h ^^ n) s))
               (clock_turn h ((second_chance h ^^ n) s)))"
  using assms
proof (induction "ref_count s" arbitrary: s rule: less_induct)
  case less
  note h = \<open>wf_h h\<close> and lay = \<open>layout_ok h s\<close> and fr = \<open>frames_agree s\<close>
    and cur = \<open>cursor_ok h s\<close> and occ = \<open>all_occupied s\<close>
  define fc where "fc = next_frame h (fifo_current s)"
  from next_frame_range [OF h cur] have fc: "0 \<le> fc" "fc < VMEM_NFRAMES h"
    by (simp_all add: fc_def)
  from fc lay have fok: "idx_ok (next_frame h (fifo_current s)) (pt_framepage s)"
    by (simp add: idx_ok_def layout_ok_def fc_def)
  from occupied_page(1) [OF fr occ fc(1)] fc(2) lay
  have eok: "idx_ok (visited_page h s) (pt_entries s)"
    by (simp add: visited_page_def fc_def layout_ok_def)
  show ?case
  proof (cases "is_ref s (visited_page h s)")
    case True
    let ?s' = "second_chance h s"
    have dec: "ref_count ?s' < ref_count s"
      by (rule ref_count_second_chance [OF eok True])
    note pre = second_chance_pre [OF h lay fr cur occ]
    from less.hyps [OF dec h pre]
    obtain n where n: "n \<le> ref_count ?s'"
      and skipped: "\<forall>m<n. is_ref ((second_chance h ^^ m) ?s') (visited_page h ((second_chance h ^^ m) ?s'))"
      and stop: "\<not> is_ref ((second_chance h ^^ n) ?s') (visited_page h ((second_chance h ^^ n) ?s'))"
      and res: "find_remove_clock h ?s' =
        Inr (next_frame h (fifo_current ((second_chance h ^^ n) ?s')),
             after_removal h (visited_page h ((second_chance h ^^ n) ?s'))
               (clock_turn h ((second_chance h ^^ n) ?s')))"
      and ev: "evicts h ?s' (next_frame h (fifo_current ((second_chance h ^^ n) ?s')))
        (after_removal h (visited_page h ((second_chance h ^^ n) ?s'))
               (clock_turn h ((second_chance h ^^ n) ?s')))"
      by blast
    have shift: "(second_chance h ^^ m) ?s' = (second_chance h ^^ Suc m) s" for m
      by (simp add: funpow_swap1)
    have "\<forall>m<Suc n. is_ref ((second_chance h ^^ m) s) (visited_page h ((second_chance h ^^ m) s))"
    proof (intro allI impI)
      fix m assume m: "m < Suc n"
      show "is_ref ((second_chance h ^^ m) s) (visited_page h ((second_chance h ^^ m) s))"
      proof (cases m)
        case 0
        with True show ?thesis by simp
      next
        case (Suc m')
        with m have "m' < n" by simp
        with skipped have "is_ref ((second_chance h ^^ m') ?s') (visited_page h ((second_chance h ^^ m') ?s'))"
          by blast
        then show ?thesis unfolding shift Suc .
      qed
    qed
    moreover have "Suc n \<le> ref_count s" using n dec by simp
    moreover note stop [unfolded shift] res [unfolded shift]
      evicts_second_chance [OF ev, unfolded shift]
    moreover have "find_remove_clock h s = find_remove_clock h ?s'"
      by (rule clock_step_skip [OF fok eok True])
    ultimately show ?thesis
      by (intro exI [of _ "Suc n"]) simp
  next
    case False
    let ?s1 = "clock_turn h s"
    have lay1: "layout_ok h ?s1" using lay by (simp add: layout_ok_def clock_turn_def)
    have cur1: "cursor_ok h ?s1" using fc by (simp add: cursor_ok_def clock_turn_def fc_def)
    have eok1: "idx_ok (visited_page h s) (pt_entries ?s1)"
      using eok by (simp add: clock_turn_def)
    from eok lay have ep: "visited_page h s < VMEM_NPAGES h"
      by (simp add: idx_ok_def layout_ok_def)
    have sl: "slice_ok (adm_next_alloc_idx ?s1 * VMEM_PAGESIZE h) (VMEM_PAGESIZE h) (data ?s1)"
    proof -
      from h have ps: "0 < VMEM_PAGESIZE h" by (simp add: wf_h_def)
      from lay1 have len: "int (length (data ?s1)) = VMEM_NFRAMES h * VMEM_PAGESIZE h"
        by (simp add: layout_ok_def)
      from frame_slice_ok [OF fc ps len] show ?thesis by (simp add: clock_turn_def fc_def)
    qed
    have rm: "remove_element h (visited_page h s) ?s1 = Inr ((), after_removal h (visited_page h s) ?s1)"
      by (rule remove_element_eq [OF eok1 ep sl])
    have fcur: "fifo_current (after_removal h (visited_page h s) ?s1) = next_frame h (fifo_current s)"
      by (simp add: after_removal_def clock_turn_def)
    have res: "find_remove_clock h s =
        Inr (next_frame h (fifo_current s), after_removal h (visited_page h s) ?s1)"
      by (rule clock_step_evict [OF fok eok False rm fcur])
    have "evicts h ?s1 fc (after_removal h (visited_page h s) ?s1)"
      by (rule after_removal_evicts [OF h lay1 fc _ cur1])
        (simp_all add: clock_turn_def fc_def visited_page_def)
    then have "evicts h s (next_frame h (fifo_current s)) (after_removal h (visited_page h s) ?s1)"
      by (simp add: evicts_def clock_turn_def is_dirty_def frame_words_def fc_def)
    with res False show ?thesis
      by (intro exI [of _ 0]) simp
  qed
qed

lemma allocate_page_free_eq:
  assumes ff: "find_free_frame h s = (idx, s0)" and nv: "idx \<noteq> VOID_IDX"
    and iok: "idx_ok idx (pt_framepage s0)"
    and req: "idx_ok (adm_req_pageno s0) (pt_entries s0)" "adm_req_pageno s0 < VMEM_NPAGES h"
  shows "allocate_page h s =
           Inr ((), sem_post (enter_frame idx (s0\<lparr>adm_pf_count := adm_pf_count s0 + 1\<rparr>)))"
proof -
  from iok have n: "nat idx < length (pt_framepage s0)" by (simp add: idx_ok_def nat_less_iff)
  from req(1) have r0: "\<not> adm_req_pageno s0 < 0" by (simp add: idx_ok_def)
  show ?thesis
    using nv iok req r0 n
    by (simp add: allocate_page_def ff Let_def enter_frame_def log_fault_def set_frame_def)
qed

lemma fetch_page_eq:
  assumes req: "idx_ok (adm_req_pageno s) (pt_entries s)" "adm_req_pageno s < VMEM_NPAGES h"
    and fr: "frame (pt_entries s ! nat (adm_req_pageno s)) = idx"
    and pf: "int (length (pagefile s (adm_req_pageno s))) = VMEM_PAGESIZE h"
    and sl: "slice_ok (idx * VMEM_PAGESIZE h) (VMEM_PAGESIZE h) (data s)"
  shows "fetch_page h (adm_req_pageno s) s =
           Inr ((), s\<lparr>data := take (nat (idx * VMEM_PAGESIZE h)) (data s) @
                               pagefile s (adm_req_pageno s) @
                               drop (nat (idx * VMEM_PAGESIZE h + VMEM_PAGESIZE h)) (data s),
                     trace := trace s @ [Fetch (adm_req_pageno s) (idx * VMEM_PAGESIZE h)]\<rparr>)"
proof -
  from req(1) have r0: "\<not> adm_req_pageno s < 0" by (simp add: idx_ok_def)
  show ?thesis
    using req r0 fr pf sl
    by (simp add: fetch_page_def fetch_page_from_pagefile_def)
qed

lemma allocate_page_evict_eq:
  assumes ff: "find_free_frame h s = (VOID_IDX, s0)"
    and rm: "find_remove_frame h (s0\<lparr>adm_pf_count := adm_pf_count s0 + 1\<rparr>) = Inr (idx, u)"
    and idx: "0 \<le> idx" "idx < VMEM_NFRAMES h"
    and iok: "idx_ok idx (pt_framepage u)"
    and req: "idx_ok (adm_req_pageno u) (pt_entries u)" "adm_req_pageno u < VMEM_NPAGES h"
    and pf: "int (length (pagefile u (adm_req_pageno u))) = VMEM_PAGESIZE h"
    and sl: "slice_ok (idx * VMEM_PAGESIZE h) (VMEM_PAGESIZE h) (data u)"
  shows "allocate_page h s = Inr ((), sem_post (enter_frame idx (fetched h idx u)))"
proof -
  let ?u1 = "set_frame (adm_req_pageno u) idx u"
  from req(1) have n: "nat (adm_req_pageno u) < length (pt_entries u)"
    by (simp add: idx_ok_def nat_less_iff)
  from req(1) have r0: "\<not> adm_req_pageno u < 0" by (simp add: idx_ok_def)
  have req1: "idx_ok (adm_req_pageno ?u1) (pt_entries ?u1)" "adm_req_pageno ?u1 < VMEM_NPAGES h"
    using req by (simp_all add: set_frame_def idx_ok_def)
  have fr1: "frame (pt_entries ?u1 ! nat (adm_req_pageno ?u1)) = idx"
    using n by (simp add: set_frame_def)
  have pf1: "int (length (pagefile ?u1 (adm_req_pageno ?u1))) = VMEM_PAGESIZE h"
    using pf by (simp add: set_frame_def)
  have sl1: "slice_ok (idx * VMEM_PAGESIZE h) (VMEM_PAGESIZE h) (data ?u1)"
    using sl by (simp add: set_frame_def)
  have ft: "fetch_page h (adm_req_pageno u) ?u1 = Inr ((), fetched h idx u)"
    using fetch_page_eq [OF req1 fr1 pf1 sl1]
    by (simp add: set_frame_def fetched_def)
  have iok2: "idx_ok idx (pt_framepage (fetched h idx u))"
    using iok by (simp add: fetched_def)
  from iok have ni: "nat idx < length (pt_framepage u)" by (simp add: idx_ok_def nat_less_iff)
  have req2: "idx_ok (adm_req_pageno u) (pt_entries (fetched h idx u))"
    using req(1) by (simp add: fetched_def idx_ok_def)
  note ft' = ft [unfolded set_frame_def fetched_def]
  show ?thesis
    using idx req r0 ni iok2 req2
    by (simp add: allocate_page_def ff rm ft' Let_def enter_frame_def log_fault_def
        set_frame_def fetched_def)
qed


subsection \<open>The fault handler\<close>

lemma find_remove_frame_evicts:
  assumes "wf_h h" and "layout_ok h s" and "frames_agree s" and "cursor_ok h s"
    and "all_occupied s" and "adm_page_rep_algo s \<noteq> VMEM_ALGO_OTHER"
  shows "\<exists>idx t. find_remove_frame h s = Inr (idx, t) \<and> evicts h s idx t"
proof (cases "adm_page_rep_algo s")
  case VMEM_ALGO_FIFO
  with fifo_evicts [OF assms(1-5)] show ?thesis
    by (auto simp: find_remove_frame_def)
next
  case VMEM_ALGO_CLOCK
  with clock_loop [OF assms(1-5)] show ?thesis
    by (auto simp: find_remove_frame_def)
next
  case VMEM_ALGO_AGING
  with aging_evicts [OF assms(1-5)] show ?thesis
    by (auto simp: find_remove_frame_def)
next
  case VMEM_ALGO_OTHER
  with assms(6) show ?thesis by simp
qed

lemma find_free_frame_cases:
  assumes lay: "layout_ok h s"
  shows "(all_occupied s \<and> find_free_frame h s = (VOID_IDX, s)) \<or>
         (\<exists>idx. 0 \<le> idx \<and> idx < VMEM_NFRAMES h \<and> pt_framepage s ! nat idx = VOID_IDX \<and>
            (\<forall>k. 0 \<le> k \<and> k < idx \<longrightarrow> pt_framepage s ! nat k \<noteq> VOID_IDX) \<and>
            find_free_frame h s = (idx, s\<lparr>event := (event s)\<lparr>le_replaced_page := VOID_IDX\<rparr>\<rparr>))"
proof -
  obtain idx t where r: "find_free_frame_from h 0 s = (idx, t)"
    by (cases "find_free_frame_from h 0 s") auto
  from find_free_frame_from_spec [OF order_refl r]
  show ?thesis
  proof
    assume a: "idx = VOID_IDX \<and> t = s \<and>
      (\<forall>k. 0 \<le> k \<and> k < VMEM_NFRAMES h \<longrightarrow> pt_framepage s ! nat k \<noteq> VOID_IDX)"
    have "all_occupied s"
      unfolding all_occupied_def
    proof (intro allI impI)
      fix i assume "i < length (pt_framepage s)"
      with lay have "0 \<le> int i \<and> int i < VMEM_NFRAMES h" by (simp add: layout_ok_def)
      with a have "pt_framepage s ! nat (int i) \<noteq> VOID_IDX" by blast
      then show "pt_framepage s ! i \<noteq> VOID_IDX" by simp
    qed
    with a r show ?thesis by (simp add: find_free_frame_def)
  next
    assume "0 \<le> idx \<and> idx < VMEM_NFRAMES h \<and> pt_framepage s ! nat idx = VOID_IDX \<and>
      (\<forall>k. 0 \<le> k \<and> k < idx \<longrightarrow> pt_framepage s ! nat k \<noteq> VOID_IDX) \<and>
      t = s\<lparr>event := (event s)\<lparr>le_replaced_page := VOID_IDX\<rparr>\<rparr>"
    with r show ?thesis by (auto simp: find_free_frame_def)
  qed
qed

lemma frame_words_length:
  assumes "wf_h h" "layout_ok h s" "0 \<le> idx" "idx < VMEM_NFRAMES h"
  shows "int (length (frame_words h s idx)) = VMEM_PAGESIZE h"
proof -
  from assms(1) have ps: "0 < VMEM_PAGESIZE h" by (simp add: wf_h_def)
  from assms(2) have len: "int (length (data s)) = VMEM_NFRAMES h * VMEM_PAGESIZE h"
    by (simp add: layout_ok_def)
  from frame_slice_ok [OF assms(3,4) ps len]
  have "idx * VMEM_PAGESIZE h + VMEM_PAGESIZE h \<le> int (length (data s))"
    and "0 \<le> idx * VMEM_PAGESIZE h"
    by (simp_all add: slice_ok_def)
  then have "nat (VMEM_PAGESIZE h) \<le> length (data s) - nat (idx * VMEM_PAGESIZE h)"
    by linarith
  then show ?thesis using ps by (simp add: frame_words_def min_def)
qed

lemma evicts_pagefile_ok:
  assumes "wf_h h" "layout_ok h s" "pagefile_ok h s" "evicts h s idx u"
  shows "pagefile_ok h u"
proof -
  from assms(4) have idx: "0 \<le> idx" "idx < VMEM_NFRAMES h"
    and len: "length (pt_entries u) = length (pt_entries s)"
    and pf: "pagefile u = (if is_dirty s (pt_framepage s ! nat idx)
                   then (pagefile s)(pt_framepage s ! nat idx := frame_words h s idx)
                   else pagefile s)"
    by (simp_all add: evicts_def)
  from frame_words_length [OF assms(1,2) idx] assms(3) show ?thesis
    by (simp add: pagefile_ok_def pf len)
qed

text \<open>
  The state in which \<^verbatim>\<open>allocate_page\<close> enters the requested page, when a frame is free
  and when a frame has been emptied.
\<close>

lemma allocate_page_cases:
  assumes h: "wf_h h" and lay: "layout_ok h s" and pf: "pagefile_ok h s"
    and fr: "frames_agree s" and cur: "cursor_ok h s"
    and req: "idx_ok (adm_req_pageno s) (pt_entries s)"
  shows "(\<exists>idx. 0 \<le> idx \<and> idx < VMEM_NFRAMES h \<and> pt_framepage s ! nat idx = VOID_IDX \<and>
            (\<forall>k. 0 \<le> k \<and> k < idx \<longrightarrow> pt_framepage s ! nat k \<noteq> VOID_IDX) \<and>
            allocate_page h s =
              Inr ((), sem_post (enter_frame idx
                         (s\<lparr>event := (event s)\<lparr>le_replaced_page := VOID_IDX\<rparr>,
                            adm_pf_count := adm_pf_count s + 1\<rparr>)))) \<or>
         (all_occupied s \<and> adm_page_rep_algo s = VMEM_ALGO_OTHER \<and>
            allocate_page h s = Inl (Exit_failure, s\<lparr>adm_pf_count := adm_pf_count s + 1\<rparr>)) \<or>
         (all_occupied s \<and> adm_page_rep_algo s \<noteq> VMEM_ALGO_OTHER \<and>
            (\<exists>idx u. find_remove_frame h (s\<lparr>adm_pf_count := adm_pf_count s + 1\<rparr>) = Inr (idx, u) \<and>
               evicts h (s\<lparr>adm_pf_count := adm_pf_count s + 1\<rparr>) idx u \<and>
               allocate_page h s = Inr ((), sem_post (enter_frame idx (fetched h idx u)))))"
  using find_free_frame_cases [OF lay]
proof (elim disjE conjE exE)
  fix idx
  assume idx: "0 \<le> idx" "idx < VMEM_NFRAMES h" and v: "pt_framepage s ! nat idx = VOID_IDX"
    and least: "\<forall>k. 0 \<le> k \<and> k < idx \<longrightarrow> pt_framepage s ! nat k \<noteq> VOID_IDX"
    and ff: "find_free_frame h s = (idx, s\<lparr>event := (event s)\<lparr>le_replaced_page := VOID_IDX\<rparr>\<rparr>)"
  let ?s0 = "s\<lparr>event := (event s)\<lparr>le_replaced_page := VOID_IDX\<rparr>\<rparr>"
  from idx have nv: "idx \<noteq> VOID_IDX" by (simp add: VOID_IDX_def)
  from idx lay have iok: "idx_ok idx (pt_framepage ?s0)" by (simp add: idx_ok_def layout_ok_def)
  from req have r1: "idx_ok (adm_req_pageno ?s0) (pt_entries ?s0)" by simp
  from req lay have r2: "adm_req_pageno ?s0 < VMEM_NPAGES h" by (simp add: idx_ok_def layout_ok_def)
  from allocate_page_free_eq [OF ff nv iok r1 r2] idx v least
  show ?thesis by auto
next
  assume occ: "all_occupied s" and ff: "find_free_frame h s = (VOID_IDX, s)"
  let ?s1 = "s\<lparr>adm_pf_count := adm_pf_count s + 1\<rparr>"
  show ?thesis
  proof (cases "adm_page_rep_algo s = VMEM_ALGO_OTHER")
    case True
    then have "allocate_page h s = Inl (Exit_failure, ?s1)"
      by (simp add: allocate_page_def ff find_remove_frame_def)
    with occ True show ?thesis by simp
  next
    case False
    have lay1: "layout_ok h ?s1" and fr1: "frames_agree ?s1" and cur1: "cursor_ok h ?s1"
      and occ1: "all_occupied ?s1" and pf1: "pagefile_ok h ?s1"
      using lay fr cur occ pf
      by (simp_all add: layout_ok_def frames_agree_def cursor_ok_def all_occupied_def pagefile_ok_def)
    from False have al1: "adm_page_rep_algo ?s1 \<noteq> VMEM_ALGO_OTHER" by simp
    from find_remove_frame_evicts [OF h lay1 fr1 cur1 occ1 al1]
    obtain idx u where rm: "find_remove_frame h ?s1 = Inr (idx, u)" and ev: "evicts h ?s1 idx u"
      by blast
    from ev have idx: "0 \<le> idx" "idx < VMEM_NFRAMES h"
      and fpu: "pt_framepage u = pt_framepage s" and lenu: "length (pt_entries u) = length (pt_entries s)"
      and du: "data u = data s" and ru: "adm_req_pageno u = adm_req_pageno s"
      by (simp_all add: evicts_def)
    from idx lay have iok: "idx_ok idx (pt_framepage u)" by (simp add: idx_ok_def layout_ok_def fpu)
    from req have r1: "idx_ok (adm_req_pageno u) (pt_entries u)" by (simp add: idx_ok_def ru lenu)
    from req lay have r2: "adm_req_pageno u < VMEM_NPAGES h" by (simp add: idx_ok_def layout_ok_def ru)
    from evicts_pagefile_ok [OF h lay1 pf1 ev] r1
    have pl: "int (length (pagefile u (adm_req_pageno u))) = VMEM_PAGESIZE h"
      by (auto simp: pagefile_ok_def idx_ok_def nat_less_iff dest!: spec [of _ "nat (adm_req_pageno u)"])
    have sl: "slice_ok (idx * VMEM_PAGESIZE h) (VMEM_PAGESIZE h) (data u)"
    proof -
      from h have ps: "0 < VMEM_PAGESIZE h" by (simp add: wf_h_def)
      from lay have len: "int (length (data u)) = VMEM_NFRAMES h * VMEM_PAGESIZE h"
        by (simp add: layout_ok_def du)
      from frame_slice_ok [OF idx ps len] show ?thesis .
    qed
    from allocate_page_evict_eq [OF ff rm idx iok r1 r2 pl sl] rm ev occ False
    show ?thesis by blast
  qed
qed

lemma free_vacant:
  assumes fr: "frames_agree s" and pg: "pages_agree s"
    and v: "pt_framepage s ! nat idx = VOID_IDX"
  shows "vacant s idx"
  unfolding vacant_def
proof (intro conjI allI impI)
  fix i assume "i < length (pt_framepage s)" "pt_framepage s ! i \<noteq> VOID_IDX"
  with fr show "idx_ok (pt_framepage s ! i) (pt_entries s)"
    and "frame (pt_entries s ! nat (pt_framepage s ! i)) = int i"
    by (simp_all add: frames_agree_def)
next
  fix p assume p: "p < length (pt_entries s)" "frame (pt_entries s ! p) \<noteq> VOID_IDX"
  with pg show ok: "idx_ok (frame (pt_entries s ! p)) (pt_framepage s)"
    and bck: "pt_framepage s ! nat (frame (pt_entries s ! p)) = int p"
    by (simp_all add: pages_agree_def)
  show "frame (pt_entries s ! p) \<noteq> idx"
  proof
    assume "frame (pt_entries s ! p) = idx"
    with bck v have "int p = VOID_IDX" by simp
    then show False by (simp add: VOID_IDX_def)
  qed
qed

lemma evicts_vacant:
  assumes fr: "frames_agree s" and pg: "pages_agree s" and occ: "all_occupied s"
    and len: "idx < int (length (pt_framepage s))" and ev: "evicts h s idx u"
  shows "vacant u idx"
proof -
  define e where "e = pt_framepage s ! nat idx"
  from ev have idx: "0 \<le> idx" and fpu: "pt_framepage u = pt_framepage s"
    and lenu: "length (pt_entries u) = length (pt_entries s)"
    and mf: "map frame (pt_entries u) = (map frame (pt_entries s))[nat e := VOID_IDX]"
    by (simp_all add: evicts_def e_def)
  from occupied_page [OF fr occ idx len]
  have eok: "idx_ok e (pt_entries s)" and ef: "frame (pt_entries s ! nat e) = idx"
    by (simp_all add: e_def)
  from eok have en: "nat e < length (pt_entries s)" and e0: "0 \<le> e"
    by (simp_all add: idx_ok_def nat_less_iff)
  have fu: "frame (pt_entries u ! p) = (if p = nat e then VOID_IDX else frame (pt_entries s ! p))"
    if "p < length (pt_entries s)" for p
  proof -
    have "frame (pt_entries u ! p) = map frame (pt_entries u) ! p"
      using that lenu by simp
    also have "\<dots> = (if p = nat e then VOID_IDX else frame (pt_entries s ! p))"
      using that by (simp add: mf nth_list_update)
    finally show ?thesis .
  qed
  show ?thesis
    unfolding vacant_def
  proof (intro conjI allI impI)
    fix i assume i: "i < length (pt_framepage u)" and ne: "int i \<noteq> idx"
      and nv: "pt_framepage u ! i \<noteq> VOID_IDX"
    from i nv fr have qok: "idx_ok (pt_framepage s ! i) (pt_entries s)"
      and qf: "frame (pt_entries s ! nat (pt_framepage s ! i)) = int i"
      by (simp_all add: frames_agree_def fpu)
    from qok have qn: "nat (pt_framepage s ! i) < length (pt_entries s)"
      by (simp add: idx_ok_def nat_less_iff)
    have "nat (pt_framepage s ! i) \<noteq> nat e"
      using qf ef ne by auto
    with fu [OF qn] qf qok
    show "idx_ok (pt_framepage u ! i) (pt_entries u)"
      and "frame (pt_entries u ! nat (pt_framepage u ! i)) = int i"
      by (simp_all add: fpu idx_ok_def lenu)
  next
    fix p assume p: "p < length (pt_entries u)" and nv: "frame (pt_entries u ! p) \<noteq> VOID_IDX"
    from p have ps: "p < length (pt_entries s)" by (simp add: lenu)
    from fu [OF ps] nv have pe: "p \<noteq> nat e" and same: "frame (pt_entries u ! p) = frame (pt_entries s ! p)"
      by (auto split: if_splits)
    from pg ps nv same have ok: "idx_ok (frame (pt_entries s ! p)) (pt_framepage s)"
      and bck: "pt_framepage s ! nat (frame (pt_entries s ! p)) = int p"
      by (simp_all add: pages_agree_def)
    from ok bck same show "idx_ok (frame (pt_entries u ! p)) (pt_framepage u)"
      and "pt_framepage u ! nat (frame (pt_entries u ! p)) = int p"
      by (simp_all add: fpu)
    show "frame (pt_entries u ! p) \<noteq> idx"
    proof
      assume "frame (pt_entries u ! p) = idx"
      with same bck have "e = int p" by (simp add: e_def)
      with pe show False by simp
    qed
  qed
qed

lemma install_agree:
  assumes vac: "vacant w idx"
    and req: "idx_ok req (pt_entries w)" and nonres: "frame (pt_entries w ! nat req) = VOID_IDX"
    and iok: "idx_ok idx (pt_framepage w)"
    and es: "pt_entries t = (pt_entries w)[nat req := (pt_entries w ! nat req)\<lparr>frame := idx\<rparr>]"
    and fp: "pt_framepage t = (pt_framepage w)[nat idx := req]"
  shows "frames_agree t" and "pages_agree t"
proof -
  from req have rn: "nat req < length (pt_entries w)" and r0: "0 \<le> req"
    by (simp_all add: idx_ok_def nat_less_iff)
  from iok have inn: "nat idx < length (pt_framepage w)" and i0: "0 \<le> idx"
    by (simp_all add: idx_ok_def nat_less_iff)
  have ft: "frame (pt_entries t ! p) = (if p = nat req then idx else frame (pt_entries w ! p))"
    if "p < length (pt_entries w)" for p
    using that by (simp add: es nth_list_update)
  have pt: "pt_framepage t ! i = (if i = nat idx then req else pt_framepage w ! i)"
    if "i < length (pt_framepage w)" for i
    using that by (simp add: fp nth_list_update)
  show "frames_agree t"
    unfolding frames_agree_def
  proof (intro allI impI)
    fix i assume i: "i < length (pt_framepage t)" and nv: "pt_framepage t ! i \<noteq> VOID_IDX"
    from i have iw: "i < length (pt_framepage w)" by (simp add: fp)
    show "idx_ok (pt_framepage t ! i) (pt_entries t) \<and>
          frame (pt_entries t ! nat (pt_framepage t ! i)) = int i"
    proof (cases "i = nat idx")
      case True
      with pt [OF iw] ft [OF rn] req i0 show ?thesis
        by (simp add: idx_ok_def es)
    next
      case False
      with pt [OF iw] have same: "pt_framepage t ! i = pt_framepage w ! i" by simp
      from False i0 have "int i \<noteq> idx" by auto
      with vac iw nv same have qok: "idx_ok (pt_framepage w ! i) (pt_entries w)"
        and qf: "frame (pt_entries w ! nat (pt_framepage w ! i)) = int i"
        by (simp_all add: vacant_def)
      from qok have qn: "nat (pt_framepage w ! i) < length (pt_entries w)"
        by (simp add: idx_ok_def nat_less_iff)
      have "nat (pt_framepage w ! i) \<noteq> nat req"
      proof
        assume "nat (pt_framepage w ! i) = nat req"
        with qf nonres have "int i = VOID_IDX" by simp
        then show False by (simp add: VOID_IDX_def)
      qed
      with ft [OF qn] qf qok same show ?thesis
        by (simp add: idx_ok_def es)
    qed
  qed
  show "pages_agree t"
    unfolding pages_agree_def
  proof (intro allI impI)
    fix p assume p: "p < length (pt_entries t)" and nv: "frame (pt_entries t ! p) \<noteq> VOID_IDX"
    from p have pw: "p < length (pt_entries w)" by (simp add: es)
    show "idx_ok (frame (pt_entries t ! p)) (pt_framepage t) \<and>
          pt_framepage t ! nat (frame (pt_entries t ! p)) = int p"
    proof (cases "p = nat req")
      case True
      with ft [OF pw] pt [OF inn] iok r0 show ?thesis
        by (simp add: idx_ok_def fp)
    next
      case False
      with ft [OF pw] have same: "frame (pt_entries t ! p) = frame (pt_entries w ! p)" by simp
      with vac pw nv have ok: "idx_ok (frame (pt_entries w ! p)) (pt_framepage w)"
        and bck: "pt_framepage w ! nat (frame (pt_entries w ! p)) = int p"
        and ni: "frame (pt_entries w ! p) \<noteq> idx"
        by (simp_all add: vacant_def)
      from ok have fn: "nat (frame (pt_entries w ! p)) < length (pt_framepage w)"
        and f0: "0 \<le> frame (pt_entries w ! p)"
        by (simp_all add: idx_ok_def nat_less_iff)
      from ni f0 i0 have "nat (frame (pt_entries w ! p)) \<noteq> nat idx" by auto
      with pt [OF fn] bck ok same show ?thesis
        by (simp add: idx_ok_def fp)
    qed
  qed
qed

lemma fetched_data_length:
  assumes "slice_ok a n d" "int (length pg) = n"
  shows "length (take (nat a) d @ pg @ drop (nat (a + n)) d) = length d"
proof -
  from assms have "0 \<le> a" "0 \<le> n" "a + n \<le> int (length d)" "length pg = nat n"
    by (auto simp: slice_ok_def)
  then show ?thesis by (simp add: min_def) linarith
qed

lemma evicts_nonresident:
  assumes "evicts h s idx u" "idx_ok req (pt_entries s)" "frame (pt_entries s ! nat req) = VOID_IDX"
  shows "frame (pt_entries u ! nat req) = VOID_IDX"
proof -
  from assms(2) have n: "nat req < length (pt_entries s)" by (simp add: idx_ok_def nat_less_iff)
  from assms(1) have len: "length (pt_entries u) = length (pt_entries s)"
    and mf: "map frame (pt_entries u) =
        (map frame (pt_entries s))[nat (pt_framepage s ! nat idx) := VOID_IDX]"
    by (simp_all add: evicts_def)
  have "frame (pt_entries u ! nat req) = map frame (pt_entries u) ! nat req"
    using n len by simp
  also have "\<dots> = VOID_IDX"
    using n assms(3)
    by (cases "nat (pt_framepage s ! nat idx) < length (pt_entries s)")
      (simp_all add: mf nth_list_update list_update_beyond)
  finally show ?thesis .
qed

lemma allocate_page_inv:
  assumes h: "wf_h h" and inv: "machine_inv h s"
    and req: "idx_ok (adm_req_pageno s) (pt_entries s)"
    and nonres: "frame (pt_entries s ! nat (adm_req_pageno s)) = VOID_IDX"
    and res: "allocate_page h s = Inr (x, t)"
  shows "machine_inv h t"
proof -
  from inv have lay: "layout_ok h s" and pf: "pagefile_ok h s" and fr: "frames_agree s"
    and pg: "pages_agree s" and cur: "cursor_ok h s"
    by (simp_all add: machine_inv_def)
  from req have rn: "nat (adm_req_pageno s) < length (pt_entries s)"
    by (simp add: idx_ok_def nat_less_iff)
  from allocate_page_cases [OF h lay pf fr cur req] res
  consider (free) idx where "0 \<le> idx" "idx < VMEM_NFRAMES h" "pt_framepage s ! nat idx = VOID_IDX"
      "t = sem_post (enter_frame idx (s\<lparr>event := (event s)\<lparr>le_replaced_page := VOID_IDX\<rparr>,
                            adm_pf_count := adm_pf_count s + 1\<rparr>))"
    | (evict) idx u where "all_occupied s"
      "evicts h (s\<lparr>adm_pf_count := adm_pf_count s + 1\<rparr>) idx u"
      "t = sem_post (enter_frame idx (fetched h idx u))"
    by auto
  then show ?thesis
  proof cases
    case free
    let ?w = "s\<lparr>event := (event s)\<lparr>le_replaced_page := VOID_IDX\<rparr>,
                adm_pf_count := adm_pf_count s + 1\<rparr>"
    have "frames_agree ?w" "pages_agree ?w"
      using fr pg by (simp_all add: frames_agree_def pages_agree_def)
    then have vac: "vacant ?w idx"
      by (rule free_vacant) (simp add: free(3))
    from free(1,2) lay have iok: "idx_ok idx (pt_framepage ?w)"
      by (simp add: idx_ok_def layout_ok_def)
    have es: "pt_entries t = (pt_entries ?w)[nat (adm_req_pageno s) :=
        (pt_entries ?w ! nat (adm_req_pageno s))\<lparr>frame := idx\<rparr>]"
      and fp: "pt_framepage t = (pt_framepage ?w)[nat idx := adm_req_pageno s]"
      by (simp_all add: free(4) sem_post_def enter_frame_def log_fault_def set_frame_def)
    have req': "idx_ok (adm_req_pageno s) (pt_entries ?w)"
      and nonres': "frame (pt_entries ?w ! nat (adm_req_pageno s)) = VOID_IDX"
      using req nonres by simp_all
    note agree = install_agree [OF vac req' nonres' iok es fp]
    have "layout_ok h t" "pagefile_ok h t" "cursor_ok h t"
      using lay pf cur
      by (simp_all add: free(4) sem_post_def enter_frame_def log_fault_def set_frame_def
          layout_ok_def pagefile_ok_def cursor_ok_def)
    with agree show ?thesis by (simp add: machine_inv_def)
  next
    case evict
    let ?s1 = "s\<lparr>adm_pf_count := adm_pf_count s + 1\<rparr>"
    have lay1: "layout_ok h ?s1" and fr1: "frames_agree ?s1" and pg1: "pages_agree ?s1"
      and occ1: "all_occupied ?s1" and pf1: "pagefile_ok h ?s1"
      using lay fr pg evict(1) pf
      by (simp_all add: layout_ok_def frames_agree_def pages_agree_def all_occupied_def
          pagefile_ok_def)
    from evict(2) have idx: "0 \<le> idx" "idx < VMEM_NFRAMES h"
      and fpu: "pt_framepage u = pt_framepage s"
      and lenu: "length (pt_entries u) = length (pt_entries s)"
      and du: "data u = data s" and ru: "adm_req_pageno u = adm_req_pageno s"
      and curu: "cursor_ok h u"
      by (simp_all add: evicts_def)
    from idx lay have il: "idx < int (length (pt_framepage ?s1))" by (simp add: layout_ok_def)
    have vac: "vacant u idx"
      by (rule evicts_vacant [OF fr1 pg1 occ1 il evict(2)])
    from idx lay have iok: "idx_ok idx (pt_framepage u)"
      by (simp add: idx_ok_def layout_ok_def fpu)
    have requ: "idx_ok (adm_req_pageno s) (pt_entries u)"
      using req by (simp add: idx_ok_def lenu)
    have nonresu: "frame (pt_entries u ! nat (adm_req_pageno s)) = VOID_IDX"
      by (rule evicts_nonresident [OF evict(2)]) (use req nonres in simp_all)
    from rn have rnu: "nat (adm_req_pageno s) < length (pt_entries u)" by (simp add: lenu)
    have es: "pt_entries t = (pt_entries u)[nat (adm_req_pageno s) :=
        (pt_entries u ! nat (adm_req_pageno s))\<lparr>frame := idx\<rparr>]"
      and fp: "pt_framepage t = (pt_framepage u)[nat idx := adm_req_pageno s]"
      using rnu
      by (simp_all add: evict(3) sem_post_def enter_frame_def log_fault_def set_frame_def
          fetched_def ru)
    note agree = install_agree [OF vac requ nonresu iok es fp]
    have pfu: "pagefile_ok h u"
      by (rule evicts_pagefile_ok [OF h lay1 pf1 evict(2)])
    with rnu have pl: "int (length (pagefile u (adm_req_pageno s))) = VMEM_PAGESIZE h"
      using req by (auto simp: pagefile_ok_def idx_ok_def dest!: spec [of _ "nat (adm_req_pageno s)"])
    have sl: "slice_ok (idx * VMEM_PAGESIZE h) (VMEM_PAGESIZE h) (data u)"
    proof -
      from h have ps: "0 < VMEM_PAGESIZE h" by (simp add: wf_h_def)
      from lay have len: "int (length (data u)) = VMEM_NFRAMES h * VMEM_PAGESIZE h"
        by (simp add: layout_ok_def du)
      from frame_slice_ok [OF idx ps len] show ?thesis .
    qed
    have dl: "length (data t) = length (data u)"
      using fetched_data_length [OF sl pl]
      by (simp add: evict(3) sem_post_def enter_frame_def log_fault_def set_frame_def
          fetched_def ru)
    have "layout_ok h t"
      using lay dl
      by (simp add: layout_ok_def du es fp lenu fpu)
    moreover have "pagefile_ok h t"
      using pfu
      by (simp add: evict(3) sem_post_def enter_frame_def log_fault_def set_frame_def
          fetched_def pagefile_ok_def)
    moreover have "cursor_ok h t"
      using curu
      by (simp add: evict(3) sem_post_def enter_frame_def log_fault_def set_frame_def
          fetched_def cursor_ok_def)
    ultimately show ?thesis using agree by (simp add: machine_inv_def)
  qed
qed

lemma agree_consistent:
  assumes fr: "frames_agree s" and pg: "pages_agree s"
  shows "tables_consistent s"
  unfolding tables_consistent_def
proof (intro conjI allI impI)
  fix i assume i: "i < length (pt_framepage s)" and nv: "pt_framepage s ! i \<noteq> VOID_IDX"
  from fr i nv show ok: "idx_ok (pt_framepage s ! i) (pt_entries s)"
    by (simp add: frames_agree_def)
  fix q assume q: "q < length (pt_entries s)"
  show "frame (pt_entries s ! q) = int i \<longleftrightarrow> int q = pt_framepage s ! i"
  proof
    assume a: "frame (pt_entries s ! q) = int i"
    then have "frame (pt_entries s ! q) \<noteq> VOID_IDX" by (simp add: VOID_IDX_def)
    with pg q have "pt_framepage s ! nat (frame (pt_entries s ! q)) = int q"
      by (simp add: pages_agree_def)
    with a show "int q = pt_framepage s ! i" by simp
  next
    assume a: "int q = pt_framepage s ! i"
    from fr i nv have "frame (pt_entries s ! nat (pt_framepage s ! i)) = int i"
      by (simp add: frames_agree_def)
    with a [symmetric] show "frame (pt_entries s ! q) = int i" by simp
  qed
next
  fix q r assume q: "q < length (pt_entries s)" and r: "r < length (pt_entries s)"
    and a: "frame (pt_entries s ! q) \<noteq> VOID_IDX \<and> frame (pt_entries s ! q) = frame (pt_entries s ! r)"
  from a have nq: "frame (pt_entries s ! q) \<noteq> VOID_IDX"
    by (rule conjunct1)
  from a have eq: "frame (pt_entries s ! q) = frame (pt_entries s ! r)"
    by (rule conjunct2)
  from nq have nr: "frame (pt_entries s ! r) \<noteq> VOID_IDX"
    unfolding eq .
  from pg q nq have "pt_framepage s ! nat (frame (pt_entries s ! q)) = int q"
    unfolding pages_agree_def by blast
  moreover from pg r nr have "pt_framepage s ! nat (frame (pt_entries s ! r)) = int r"
    unfolding pages_agree_def by blast
  ultimately have "int q = int r" unfolding eq by (rule trans [OF sym])
  then show "q = r" by simp
qed

lemma fetched_frame_words:
  assumes "slice_ok a n d" "int (length pg) = n"
  shows "take (nat n) (drop (nat a) (take (nat a) d @ pg @ drop (nat (a + n)) d)) = pg"
proof -
  from assms have "0 \<le> a" "a \<le> int (length d)" "length pg = nat n"
    by (auto simp: slice_ok_def)
  then have "length (take (nat a) d) = nat a" by (simp add: min_def) linarith
  then have "drop (nat a) (take (nat a) d @ pg @ drop (nat (a + n)) d) = pg @ drop (nat (a + n)) d"
    by simp
  with \<open>length pg = nat n\<close> show ?thesis by simp
qed

text \<open>What a fault that finds every frame occupied leaves behind.\<close>

lemma allocate_page_evict_result:
  assumes h: "wf_h h" and inv: "machine_inv h s"
    and req: "idx_ok (adm_req_pageno s) (pt_entries s)"
    and occ: "all_occupied s" and al: "adm_page_rep_algo s \<noteq> VMEM_ALGO_OTHER"
  shows "\<exists>idx u. find_remove_frame h (s\<lparr>adm_pf_count := adm_pf_count s + 1\<rparr>) = Inr (idx, u) \<and>
           evicts h (s\<lparr>adm_pf_count := adm_pf_count s + 1\<rparr>) idx u \<and>
           allocate_page h s = Inr ((), sem_post (enter_frame idx (fetched h idx u))) \<and>
           int (length (pagefile u (adm_req_pageno s))) = VMEM_PAGESIZE h \<and>
           slice_ok (idx * VMEM_PAGESIZE h) (VMEM_PAGESIZE h) (data u)"
proof -
  from inv have lay: "layout_ok h s" and pf: "pagefile_ok h s" and fr: "frames_agree s"
    and cur: "cursor_ok h s"
    by (simp_all add: machine_inv_def)
  let ?s1 = "s\<lparr>adm_pf_count := adm_pf_count s + 1\<rparr>"
  have "\<not> (\<exists>idx. 0 \<le> idx \<and> idx < VMEM_NFRAMES h \<and> pt_framepage s ! nat idx = VOID_IDX)"
  proof
    assume "\<exists>idx. 0 \<le> idx \<and> idx < VMEM_NFRAMES h \<and> pt_framepage s ! nat idx = VOID_IDX"
    then obtain idx where i: "0 \<le> idx" "idx < VMEM_NFRAMES h"
      and v: "pt_framepage s ! nat idx = VOID_IDX" by blast
    from i lay have "nat idx < length (pt_framepage s)"
      by (simp add: layout_ok_def nat_less_iff)
    with occ have "pt_framepage s ! nat idx \<noteq> VOID_IDX"
      unfolding all_occupied_def by blast
    with v show False by simp
  qed
  with allocate_page_cases [OF h lay pf fr cur req] al
  obtain idx u where rm: "find_remove_frame h ?s1 = Inr (idx, u)"
    and ev: "evicts h ?s1 idx u"
    and eq: "allocate_page h s = Inr ((), sem_post (enter_frame idx (fetched h idx u)))"
    by blast
  have lay1: "layout_ok h ?s1" and pf1: "pagefile_ok h ?s1"
    using lay pf by (simp_all add: layout_ok_def pagefile_ok_def)
  from ev have idx: "0 \<le> idx" "idx < VMEM_NFRAMES h"
    and lenu: "length (pt_entries u) = length (pt_entries s)" and du: "data u = data s"
    by (simp_all add: evicts_def)
  from req have rn: "nat (adm_req_pageno s) < length (pt_entries s)" and r0: "0 \<le> adm_req_pageno s"
    by (simp_all add: idx_ok_def nat_less_iff)
  from evicts_pagefile_ok [OF h lay1 pf1 ev] rn r0
  have pl: "int (length (pagefile u (adm_req_pageno s))) = VMEM_PAGESIZE h"
    by (auto simp: pagefile_ok_def lenu dest!: spec [of _ "nat (adm_req_pageno s)"])
  have sl: "slice_ok (idx * VMEM_PAGESIZE h) (VMEM_PAGESIZE h) (data u)"
  proof -
    from h have ps: "0 < VMEM_PAGESIZE h" by (simp add: wf_h_def)
    from lay have len: "int (length (data u)) = VMEM_NFRAMES h * VMEM_PAGESIZE h"
      by (simp add: layout_ok_def du)
    from frame_slice_ok [OF idx ps len] show ?thesis .
  qed
  from rm ev eq pl sl show ?thesis by blast
qed


subsection \<open>The aging pass and the accessors\<close>

lemma and_pagesize_mask: "(a::int) AND (2 ^ k - 1) = a mod 2 ^ k"
  by (simp add: mask_eq_exp_minus_1 [symmetric] take_bit_eq_mask [symmetric] take_bit_eq_mod)

lemma and_not_pagesize_mask: "(a::int) AND NOT (2 ^ k - 1) = 2 ^ k * (a div 2 ^ k)"
proof -
  have "a AND NOT (mask k) = push_bit k (drop_bit k a)"
    by (rule bit_eqI) (auto simp: bit_simps)
  then show ?thesis
    by (simp add: mask_eq_exp_minus_1 push_bit_eq_mult drop_bit_eq_div)
qed

lemma sdiv_exact: "0 < (b::int) \<Longrightarrow> (b * q) sdiv b = q"
  by (simp add: signed_divide_int_def sgn_mult abs_mult mult.commute [of "sgn q"] flip: abs_sgn
      add: mult_sgn_abs)

lemma page_index_eq: "((a::int) AND NOT (2 ^ k - 1)) sdiv 2 ^ k = a div 2 ^ k"
  by (simp add: and_not_pagesize_mask sdiv_exact)

lemma frame_or_offset:
  assumes "0 \<le> off" "off < 2 ^ k"
  shows "(f * 2 ^ k) OR off = f * 2 ^ k + (off::int)"
proof -
  have "off = take_bit k off"
    using assms by (simp add: take_bit_int_eq_self)
  moreover have "f * 2 ^ k = push_bit k f"
    by (simp add: push_bit_eq_mult)
  moreover have "push_bit k f OR take_bit k off = push_bit k f + take_bit k off"
    by (rule disjunctive_add [symmetric]) (auto simp: bit_simps)
  ultimately show ?thesis by simp
qed

lemma age_halved: "(word_of_int (uint (a :: 8 word) sdiv 2) :: 8 word) = a div 2"
proof -
  have "uint a sdiv 2 = uint a div 2"
    by (simp add: signed_divide_int_def sgn_if)
  then show ?thesis
    by (simp add: word_div_def)
qed

lemma age_top_bit: "(word_of_int (uint (a :: 8 word) OR NOT CHAR_MAX) :: 8 word) = a OR 0x80"
proof -
  have "(word_of_int (NOT 127) :: 8 word) = 0x80"
    by simp
  moreover have "(word_of_int (uint a OR NOT 127) :: 8 word) =
      word_of_int (uint a) OR word_of_int (NOT 127)"
    by (rule word_wi_log_defs(3) [symmetric])
  ultimately show ?thesis
    by (simp only: CHAR_MAX_def word_of_int_uint)
qed

lemma in_frames_entries [simp]: "in_frames h i (s\<lparr>pt_entries := es\<rparr>) = in_frames h i s"
  by (rule ext) (simp add: in_frames_def)

lemma in_frames_step:
  "in_frames h i s p \<longleftrightarrow>
     (i < VMEM_NFRAMES h \<and> pt_framepage s ! nat i = int p) \<or> in_frames h (i + 1) s p"
proof
  assume "in_frames h i s p"
  then obtain k where k: "i \<le> k" "k < VMEM_NFRAMES h" "pt_framepage s ! nat k = int p"
    by (auto simp: in_frames_def)
  show "(i < VMEM_NFRAMES h \<and> pt_framepage s ! nat i = int p) \<or> in_frames h (i + 1) s p"
  proof (cases "k = i")
    case True
    with k show ?thesis by simp
  next
    case False
    with k have "i + 1 \<le> k \<and> k < VMEM_NFRAMES h \<and> pt_framepage s ! nat k = int p" by simp
    then have "in_frames h (i + 1) s p" unfolding in_frames_def by (rule exI)
    then show ?thesis by simp
  qed
next
  assume "(i < VMEM_NFRAMES h \<and> pt_framepage s ! nat i = int p) \<or> in_frames h (i + 1) s p"
  then show "in_frames h i s p"
  proof
    assume "i < VMEM_NFRAMES h \<and> pt_framepage s ! nat i = int p"
    then have "i \<le> i \<and> i < VMEM_NFRAMES h \<and> pt_framepage s ! nat i = int p" by simp
    then show ?thesis unfolding in_frames_def by (rule exI)
  next
    assume "in_frames h (i + 1) s p"
    then obtain k where "i + 1 \<le> k" "k < VMEM_NFRAMES h" "pt_framepage s ! nat k = int p"
      by (auto simp: in_frames_def)
    then have "i \<le> k \<and> k < VMEM_NFRAMES h \<and> pt_framepage s ! nat k = int p" by simp
    then show ?thesis unfolding in_frames_def by (rule exI)
  qed
qed

lemma age_loop_step_void:
  assumes "i < VMEM_NFRAMES h" "pt_framepage s ! nat i = VOID_IDX"
  shows "age_loop h i s = age_loop h (i + 1) s"
  using assms by (simp add: age_loop.simps [of h i s])

lemma age_loop_step_page:
  assumes "i < VMEM_NFRAMES h" "pt_framepage s ! nat i \<noteq> VOID_IDX"
    "idx_ok (pt_framepage s ! nat i) (pt_entries s)"
  shows "age_loop h i s =
     age_loop h (i + 1)
       (s\<lparr>pt_entries := (pt_entries s)[nat (pt_framepage s ! nat i) :=
                            decay (pt_entries s ! nat (pt_framepage s ! nat i))]\<rparr>)"
  using assms
  by (simp add: age_loop.simps [of h i s] Let_def decay_def age_halved age_top_bit)

lemma age_loop_spec:
  assumes "0 \<le> i"
    and "\<forall>k. i \<le> k \<and> k < VMEM_NFRAMES h \<longrightarrow> pt_framepage s ! nat k \<noteq> VOID_IDX \<longrightarrow>
           idx_ok (pt_framepage s ! nat k) (pt_entries s)"
    and "\<forall>k l. i \<le> k \<and> k < l \<and> l < VMEM_NFRAMES h \<longrightarrow> pt_framepage s ! nat k \<noteq> VOID_IDX \<longrightarrow>
           pt_framepage s ! nat k \<noteq> pt_framepage s ! nat l"
  shows "\<exists>es. age_loop h i s = Inr ((), s\<lparr>pt_entries := es\<rparr>) \<and>
           length es = length (pt_entries s) \<and>
           (\<forall>p < length es. es ! p =
              (if in_frames h i s p then decay (pt_entries s ! p) else pt_entries s ! p))"
  using assms
proof (induction h i s rule: age_loop.induct)
  case (1 h i s)
  note valid = "1.prems"(2) and dist = "1.prems"(3)
  show ?case
  proof (cases "i < VMEM_NFRAMES h")
    case False
    then have "age_loop h i s = Inr ((), s\<lparr>pt_entries := pt_entries s\<rparr>)"
      by (simp add: age_loop.simps [of h i s])
    moreover from False have "\<not> in_frames h i s p" for p
      by (auto simp: in_frames_def)
    ultimately show ?thesis by (intro exI [of _ "pt_entries s"]) simp
  next
    case inr: True
    define q where "q = pt_framepage s ! nat i"
    have i1: "0 \<le> i + 1" using "1.prems"(1) by simp
    show ?thesis
    proof (cases "q = VOID_IDX")
      case True
      have step: "age_loop h i s = age_loop h (i + 1) s"
        by (rule age_loop_step_void [OF inr]) (use True in \<open>simp add: q_def\<close>)
      have c: "\<not> q \<noteq> VOID_IDX" using True by simp
      have valid': "\<forall>k. i + 1 \<le> k \<and> k < VMEM_NFRAMES h \<longrightarrow> pt_framepage s ! nat k \<noteq> VOID_IDX \<longrightarrow>
           idx_ok (pt_framepage s ! nat k) (pt_entries s)"
        using valid by simp
      have dist': "\<forall>k l. i + 1 \<le> k \<and> k < l \<and> l < VMEM_NFRAMES h \<longrightarrow> pt_framepage s ! nat k \<noteq> VOID_IDX \<longrightarrow>
           pt_framepage s ! nat k \<noteq> pt_framepage s ! nat l"
        using dist by simp
      from "1.IH"(2) [OF inr q_def c i1 valid' dist']
      obtain es where r: "age_loop h (i + 1) s = Inr ((), s\<lparr>pt_entries := es\<rparr>)"
        and len: "length es = length (pt_entries s)"
        and each: "\<forall>p < length es. es ! p =
              (if in_frames h (i + 1) s p then decay (pt_entries s ! p) else pt_entries s ! p)"
        by blast
      have same: "in_frames h i s p = in_frames h (i + 1) s p" for p
        using True by (simp add: in_frames_step [of h i s p] q_def [symmetric] VOID_IDX_def)
      from step r len each show ?thesis by (auto simp: same)
    next
      case False
      with valid inr "1.prems"(1) have qok: "idx_ok q (pt_entries s)"
        by (simp add: q_def)
      then have qn: "nat q < length (pt_entries s)" and q0: "0 \<le> q"
        by (simp_all add: idx_ok_def nat_less_iff)
      define s1 where "s1 = s\<lparr>pt_entries := (pt_entries s)[nat q := decay (pt_entries s ! nat q)]\<rparr>"
      have step: "age_loop h i s = age_loop h (i + 1) s1"
        using age_loop_step_page [OF inr _ qok [unfolded q_def]] False
        by (simp add: q_def s1_def)
      have valid': "\<forall>k. i + 1 \<le> k \<and> k < VMEM_NFRAMES h \<longrightarrow> pt_framepage s1 ! nat k \<noteq> VOID_IDX \<longrightarrow>
           idx_ok (pt_framepage s1 ! nat k) (pt_entries s1)"
        using valid by (simp add: s1_def idx_ok_def)
      have dist': "\<forall>k l. i + 1 \<le> k \<and> k < l \<and> l < VMEM_NFRAMES h \<longrightarrow> pt_framepage s1 ! nat k \<noteq> VOID_IDX \<longrightarrow>
           pt_framepage s1 ! nat k \<noteq> pt_framepage s1 ! nat l"
        using dist by (simp add: s1_def)
      have c: "\<not> \<not> idx_ok q (pt_entries s)" using qok by simp
      have IH: "\<exists>es. age_loop h (i + 1) s1 = Inr ((), s1\<lparr>pt_entries := es\<rparr>) \<and>
           length es = length (pt_entries s1) \<and>
           (\<forall>p < length es. es ! p =
              (if in_frames h (i + 1) s1 p then decay (pt_entries s1 ! p) else pt_entries s1 ! p))"
      proof -
        have e2: "(if flags (pt_entries s ! nat q) AND PTF_REF = PTF_REF
                then (pt_entries s ! nat q)\<lparr>age := word_of_int (uint (age (pt_entries s ! nat q)) sdiv 2)\<rparr>
                     \<lparr>age := word_of_int
                              (uint (age ((pt_entries s ! nat q)\<lparr>age := word_of_int (uint (age (pt_entries s ! nat q)) sdiv 2)\<rparr>)) OR
                               NOT CHAR_MAX),
                       flags := flags ((pt_entries s ! nat q)\<lparr>age := word_of_int (uint (age (pt_entries s ! nat q)) sdiv 2)\<rparr>) XOR PTF_REF\<rparr>
                else (pt_entries s ! nat q)\<lparr>age := word_of_int (uint (age (pt_entries s ! nat q)) sdiv 2)\<rparr>)
              = decay (pt_entries s ! nat q)"
          by (auto simp: decay_def age_halved age_top_bit)
        note ih = "1.IH"(1) [OF inr q_def False c refl refl refl refl i1, unfolded e2,
            folded s1_def]
        from ih [OF valid' dist'] show ?thesis .
      qed
      then obtain es where r: "age_loop h (i + 1) s1 = Inr ((), s1\<lparr>pt_entries := es\<rparr>)"
        and len: "length es = length (pt_entries s1)"
        and each: "\<forall>p < length es. es ! p =
              (if in_frames h (i + 1) s1 p then decay (pt_entries s1 ! p) else pt_entries s1 ! p)"
        by blast
      have s1s: "s1\<lparr>pt_entries := es\<rparr> = s\<lparr>pt_entries := es\<rparr>"
        by (simp add: s1_def)
      have len': "length es = length (pt_entries s)"
        using len by (simp add: s1_def)
      have notlater: "\<not> in_frames h (i + 1) s (nat q)"
      proof
        assume "in_frames h (i + 1) s (nat q)"
        then obtain l where l: "i + 1 \<le> l" "l < VMEM_NFRAMES h" "pt_framepage s ! nat l = q"
          using q0 by (auto simp: in_frames_def)
        from l have "i \<le> i \<and> i < l \<and> l < VMEM_NFRAMES h" by simp
        moreover from False have "pt_framepage s ! nat i \<noteq> VOID_IDX" by (simp add: q_def)
        ultimately have "pt_framepage s ! nat i \<noteq> pt_framepage s ! nat l"
          using dist by blast
        with l show False by (simp add: q_def)
      qed
      have here: "in_frames h i s (nat q)"
        using inr q0 by (simp add: in_frames_step [of h i s "nat q"] q_def [symmetric])
      have other: "in_frames h i s p = in_frames h (i + 1) s p" if "p \<noteq> nat q" for p
      proof -
        from that q0 have "q \<noteq> int p" by auto
        then show ?thesis
          by (simp add: in_frames_step [of h i s p] q_def [symmetric])
      qed
      have "\<forall>p < length es. es ! p =
              (if in_frames h i s p then decay (pt_entries s ! p) else pt_entries s ! p)"
      proof (intro allI impI)
        fix p assume p: "p < length es"
        show "es ! p = (if in_frames h i s p then decay (pt_entries s ! p) else pt_entries s ! p)"
        proof (cases "p = nat q")
          case True
          with each p notlater qn here show ?thesis
            by (simp add: s1_def)
        next
          case False
          with each p other [OF False] show ?thesis
            by (simp add: s1_def)
        qed
      qed
      with step r s1s len' show ?thesis by auto
    qed
  qed
qed

lemma frame_decay [simp]: "frame (decay e) = frame e"
  by (simp add: decay_def)

lemma frames_valid:
  assumes "layout_ok h s" "frames_agree s"
  shows "\<forall>k. 0 \<le> k \<and> k < VMEM_NFRAMES h \<longrightarrow> pt_framepage s ! nat k \<noteq> VOID_IDX \<longrightarrow>
           idx_ok (pt_framepage s ! nat k) (pt_entries s)"
proof (intro allI impI)
  fix k assume k: "0 \<le> k \<and> k < VMEM_NFRAMES h" and nv: "pt_framepage s ! nat k \<noteq> VOID_IDX"
  from k assms(1) have "nat k < length (pt_framepage s)"
    by (simp add: layout_ok_def nat_less_iff)
  with assms(2) nv show "idx_ok (pt_framepage s ! nat k) (pt_entries s)"
    unfolding frames_agree_def by blast
qed

lemma frames_distinct:
  assumes "layout_ok h s" "frames_agree s"
  shows "\<forall>k l. 0 \<le> k \<and> k < l \<and> l < VMEM_NFRAMES h \<longrightarrow> pt_framepage s ! nat k \<noteq> VOID_IDX \<longrightarrow>
           pt_framepage s ! nat k \<noteq> pt_framepage s ! nat l"
proof (intro allI impI notI)
  fix k l assume kl: "0 \<le> k \<and> k < l \<and> l < VMEM_NFRAMES h"
    and nv: "pt_framepage s ! nat k \<noteq> VOID_IDX"
    and eq: "pt_framepage s ! nat k = pt_framepage s ! nat l"
  from kl assms(1) have nk: "nat k < length (pt_framepage s)" and nl: "nat l < length (pt_framepage s)"
    by (simp_all add: layout_ok_def nat_less_iff)
  from assms(2) nk nv have "frame (pt_entries s ! nat (pt_framepage s ! nat k)) = int (nat k)"
    unfolding frames_agree_def by blast
  moreover from nv eq have "pt_framepage s ! nat l \<noteq> VOID_IDX" by simp
  with assms(2) nl have "frame (pt_entries s ! nat (pt_framepage s ! nat l)) = int (nat l)"
    unfolding frames_agree_def by blast
  ultimately have "int (nat k) = int (nat l)" using eq by simp
  with kl show False by simp
qed

text \<open>The call of \<^verbatim>\<open>update_age_reset_ref\<close> changes the page table entries only.\<close>

lemma update_age_spec:
  assumes h: "wf_h h" and lay: "layout_ok h s" and fr: "frames_agree s"
  shows "\<exists>es. update_age_reset_ref h s = Inr ((), s\<lparr>pt_entries := es\<rparr>) \<and>
      length es = length (pt_entries s) \<and>
      map frame es = map frame (pt_entries s) \<and>
      (adm_g_count s smod UPDATE_AGE_COUNT h \<noteq> 0 \<longrightarrow> es = pt_entries s) \<and>
      (adm_g_count s smod UPDATE_AGE_COUNT h = 0 \<longrightarrow>
         (\<forall>p < length es. es ! p =
            (if in_frames h 0 s p then decay (pt_entries s ! p) else pt_entries s ! p)))"
proof (cases "adm_g_count s smod UPDATE_AGE_COUNT h = 0")
  case False
  with h have "update_age_reset_ref h s = Inr ((), s\<lparr>pt_entries := pt_entries s\<rparr>)"
    by (simp add: update_age_reset_ref_def wf_h_def)
  with False show ?thesis by (intro exI [of _ "pt_entries s"]) simp
next
  case True
  from age_loop_spec [OF order_refl frames_valid [OF lay fr] frames_distinct [OF lay fr]]
  obtain es where r: "age_loop h 0 s = Inr ((), s\<lparr>pt_entries := es\<rparr>)"
    and len: "length es = length (pt_entries s)"
    and each: "\<forall>p < length es. es ! p =
              (if in_frames h 0 s p then decay (pt_entries s ! p) else pt_entries s ! p)"
    by blast
  have "map frame es = map frame (pt_entries s)"
    using len each by (auto simp: list_eq_iff_nth_eq)
  moreover from h True r have "update_age_reset_ref h s = Inr ((), s\<lparr>pt_entries := es\<rparr>)"
    by (simp add: update_age_reset_ref_def wf_h_def)
  ultimately show ?thesis using len each True by blast
qed

lemma resident_in_frames:
  assumes lay: "layout_ok h s" and fr: "frames_agree s" and pg: "pages_agree s"
    and p: "p < length (pt_entries s)"
  shows "in_frames h 0 s p \<longleftrightarrow> frame (pt_entries s ! p) \<noteq> VOID_IDX"
proof
  assume "in_frames h 0 s p"
  then obtain k where k: "0 \<le> k" "k < VMEM_NFRAMES h" "pt_framepage s ! nat k = int p"
    by (auto simp: in_frames_def)
  from k lay have nk: "nat k < length (pt_framepage s)" by (simp add: layout_ok_def nat_less_iff)
  from k have "pt_framepage s ! nat k \<noteq> VOID_IDX" by (simp add: VOID_IDX_def)
  with fr nk have "frame (pt_entries s ! nat (pt_framepage s ! nat k)) = int (nat k)"
    unfolding frames_agree_def by blast
  with k show "frame (pt_entries s ! p) \<noteq> VOID_IDX" by (simp add: VOID_IDX_def)
next
  assume nv: "frame (pt_entries s ! p) \<noteq> VOID_IDX"
  with pg p have ok: "idx_ok (frame (pt_entries s ! p)) (pt_framepage s)"
    and bk: "pt_framepage s ! nat (frame (pt_entries s ! p)) = int p"
    unfolding pages_agree_def by blast+
  from ok lay have "0 \<le> frame (pt_entries s ! p) \<and> frame (pt_entries s ! p) < VMEM_NFRAMES h \<and>
      pt_framepage s ! nat (frame (pt_entries s ! p)) = int p"
    using bk by (simp add: idx_ok_def layout_ok_def)
  then show "in_frames h 0 s p" unfolding in_frames_def by (rule exI)
qed

lemma splice_nth_outside:
  assumes sl: "slice_ok a m d" and pg: "int (length pg) = m"
    and n: "0 \<le> n" "n < a \<or> a + m \<le> n"
  shows "(take (nat a) d @ pg @ drop (nat (a + m)) d) ! nat n = d ! nat n"
proof -
  from sl have a: "0 \<le> a" "0 \<le> m" "a + m \<le> int (length d)" by (simp_all add: slice_ok_def)
  then have lt: "length (take (nat a) d) = nat a" by (simp add: min_def) linarith
  from n(2) show ?thesis
  proof
    assume "n < a"
    with n(1) have "nat n < nat a" by simp
    with lt show ?thesis by (simp add: nth_append)
  next
    assume ge: "a + m \<le> n"
    with a have n1: "\<not> nat n < nat a" by simp
    from ge a pg have n2: "\<not> nat n - nat a < length pg" by (simp; linarith)
    from ge a pg have idx: "nat (a + m) + (nat n - nat a - length pg) = nat n"
      by (simp; linarith)
    from a have le: "nat (a + m) \<le> length d" by (simp; linarith)
    from n1 lt have l1: "length (take (nat a) d) \<le> nat n" by linarith
    from n2 have l2: "length pg \<le> nat n - nat a" by linarith
    have "(take (nat a) d @ pg @ drop (nat (a + m)) d) ! nat n =
        (pg @ drop (nat (a + m)) d) ! (nat n - nat a)"
      using nth_append_right [OF l1] lt by simp
    also have "\<dots> = drop (nat (a + m)) d ! (nat n - nat a - length pg)"
      by (rule nth_append_right [OF l2])
    also have "\<dots> = d ! (nat (a + m) + (nat n - nat a - length pg))"
      by (rule nth_drop [OF le])
    also have "\<dots> = d ! nat n"
      by (simp only: idx)
    finally show ?thesis .
  qed
qed

lemma frame_cell_outside:
  assumes "f \<noteq> idx" "0 \<le> k" "k < ps"
  shows "f * ps + k < idx * ps \<or> idx * ps + ps \<le> f * (ps::int) + k"
proof (cases "f < idx")
  case True
  then have "f + 1 \<le> idx" by simp
  with assms(2,3) have "(f + 1) * ps \<le> idx * ps"
    by (intro mult_right_mono) auto
  with assms(3) show ?thesis by (simp add: algebra_simps)
next
  case False
  with assms(1) have "idx + 1 \<le> f" by simp
  with assms(2,3) have "(idx + 1) * ps \<le> f * ps"
    by (intro mult_right_mono) auto
  with assms(2) show ?thesis by (simp add: algebra_simps)
qed

lemma allocate_page_summary:
  assumes h: "wf_h h" and inv: "machine_inv h s"
    and req: "idx_ok (adm_req_pageno s) (pt_entries s)"
    and nonres: "frame (pt_entries s ! nat (adm_req_pageno s)) = VOID_IDX"
    and res: "allocate_page h s = Inr (x, t)"
  shows "stays h s t"
    and "frame (pt_entries t ! nat (adm_req_pageno s)) \<noteq> VOID_IDX"
    and "adm_g_count t = adm_g_count s"
    and "adm_page_rep_algo t = adm_page_rep_algo s"
    and "local_sem t = local_sem s + 1"
    and "adm_req_pageno t = adm_req_pageno s"
    and "length (pt_entries t) = length (pt_entries s)"
proof -
  from inv have lay: "layout_ok h s" and pf: "pagefile_ok h s" and fr: "frames_agree s"
    and pg: "pages_agree s" and cur: "cursor_ok h s"
    by (simp_all add: machine_inv_def)
  from req have rn: "nat (adm_req_pageno s) < length (pt_entries s)"
    by (simp add: idx_ok_def nat_less_iff)
  from allocate_page_cases [OF h lay pf fr cur req] res
  consider (free) idx where "0 \<le> idx" "idx < VMEM_NFRAMES h" "pt_framepage s ! nat idx = VOID_IDX"
      "t = sem_post (enter_frame idx (s\<lparr>event := (event s)\<lparr>le_replaced_page := VOID_IDX\<rparr>,
                            adm_pf_count := adm_pf_count s + 1\<rparr>))"
    | (evict) idx u where "all_occupied s"
      "evicts h (s\<lparr>adm_pf_count := adm_pf_count s + 1\<rparr>) idx u"
      "t = sem_post (enter_frame idx (fetched h idx u))"
    by auto
  then have "stays h s t \<and> frame (pt_entries t ! nat (adm_req_pageno s)) \<noteq> VOID_IDX \<and>
      adm_g_count t = adm_g_count s \<and> adm_page_rep_algo t = adm_page_rep_algo s \<and>
      local_sem t = local_sem s + 1 \<and> adm_req_pageno t = adm_req_pageno s \<and>
      length (pt_entries t) = length (pt_entries s)"
  proof cases
    case free
    have es: "pt_entries t = (pt_entries s)[nat (adm_req_pageno s) :=
        (pt_entries s ! nat (adm_req_pageno s))\<lparr>frame := idx\<rparr>]"
      and dt: "data t = data s"
      and misc: "adm_g_count t = adm_g_count s" "adm_page_rep_algo t = adm_page_rep_algo s"
        "local_sem t = local_sem s + 1" "adm_req_pageno t = adm_req_pageno s"
      by (simp_all add: free(4) sem_post_def enter_frame_def log_fault_def set_frame_def)
    have "stays h s t"
      unfolding stays_def
    proof (intro allI impI)
      fix q assume q: "q < length (pt_entries s)" and r: "frame (pt_entries s ! q) \<noteq> VOID_IDX"
      with nonres have "q \<noteq> nat (adm_req_pageno s)" by auto
      then show "frame (pt_entries t ! q) = frame (pt_entries s ! q) \<and>
        (\<forall>k. 0 \<le> k \<and> k < VMEM_PAGESIZE h \<longrightarrow>
           data t ! nat (frame (pt_entries s ! q) * VMEM_PAGESIZE h + k) =
           data s ! nat (frame (pt_entries s ! q) * VMEM_PAGESIZE h + k))"
        by (simp add: es dt)
    qed
    moreover have "frame (pt_entries t ! nat (adm_req_pageno s)) \<noteq> VOID_IDX"
      using rn free(1) by (simp add: es VOID_IDX_def)
    ultimately show ?thesis using misc by (simp add: es)
  next
    case evict
    let ?s1 = "s\<lparr>adm_pf_count := adm_pf_count s + 1\<rparr>"
    define e where "e = pt_framepage s ! nat idx"
    from evict(2) have idx: "0 \<le> idx" "idx < VMEM_NFRAMES h"
      and fpu: "pt_framepage u = pt_framepage s"
      and lenu: "length (pt_entries u) = length (pt_entries s)"
      and mf: "map frame (pt_entries u) = (map frame (pt_entries s))[nat e := VOID_IDX]"
      and du: "data u = data s" and ru: "adm_req_pageno u = adm_req_pageno s"
      and gu: "adm_g_count u = adm_g_count s" and au: "adm_page_rep_algo u = adm_page_rep_algo s"
      and su: "local_sem u = local_sem s"
      by (simp_all add: evicts_def e_def)
    from rn have rnu: "nat (adm_req_pageno s) < length (pt_entries u)" by (simp add: lenu)
    have es: "pt_entries t = (pt_entries u)[nat (adm_req_pageno s) :=
        (pt_entries u ! nat (adm_req_pageno s))\<lparr>frame := idx\<rparr>]"
      and dt: "data t = take (nat (idx * VMEM_PAGESIZE h)) (data s) @ pagefile u (adm_req_pageno s) @
               drop (nat (idx * VMEM_PAGESIZE h + VMEM_PAGESIZE h)) (data s)"
      and misc: "adm_g_count t = adm_g_count s" "adm_page_rep_algo t = adm_page_rep_algo s"
        "local_sem t = local_sem s + 1" "adm_req_pageno t = adm_req_pageno s"
      using rnu
      by (simp_all add: evict(3) sem_post_def enter_frame_def log_fault_def set_frame_def
          fetched_def ru du gu au su)
    have lay1: "layout_ok h ?s1" and pf1: "pagefile_ok h ?s1"
      using lay pf by (simp_all add: layout_ok_def pagefile_ok_def)
    have pfu: "pagefile_ok h u"
      by (rule evicts_pagefile_ok [OF h lay1 pf1 evict(2)])
    with rnu req have pl: "int (length (pagefile u (adm_req_pageno s))) = VMEM_PAGESIZE h"
      by (auto simp: pagefile_ok_def idx_ok_def dest!: spec [of _ "nat (adm_req_pageno s)"])
    from h have ps: "0 < VMEM_PAGESIZE h" by (simp add: wf_h_def)
    have sl: "slice_ok (idx * VMEM_PAGESIZE h) (VMEM_PAGESIZE h) (data s)"
    proof -
      from lay have len: "int (length (data s)) = VMEM_NFRAMES h * VMEM_PAGESIZE h"
        by (simp add: layout_ok_def)
      from frame_slice_ok [OF idx ps len] show ?thesis .
    qed
    from idx lay have il: "idx < int (length (pt_framepage s))" by (simp add: layout_ok_def)
    from occupied_page [OF fr evict(1) idx(1) il]
    have eok: "idx_ok e (pt_entries s)" by (simp add: e_def)
    then have e0: "0 \<le> e" by (simp add: idx_ok_def)
    have fu: "frame (pt_entries u ! q) = (if q = nat e then VOID_IDX else frame (pt_entries s ! q))"
      if "q < length (pt_entries s)" for q
    proof -
      have "frame (pt_entries u ! q) = map frame (pt_entries u) ! q"
        using that lenu by simp
      also have "\<dots> = (if q = nat e then VOID_IDX else frame (pt_entries s ! q))"
        using that by (simp add: mf nth_list_update)
      finally show ?thesis .
    qed
    have "stays h s t"
      unfolding stays_def
    proof (intro allI impI)
      fix q assume q: "q < length (pt_entries s)" and r: "frame (pt_entries s ! q) \<noteq> VOID_IDX"
        and r': "frame (pt_entries t ! q) \<noteq> VOID_IDX"
      from r nonres have qr: "q \<noteq> nat (adm_req_pageno s)" by auto
      then have tq: "frame (pt_entries t ! q) = frame (pt_entries u ! q)"
        by (simp add: es)
      with r' fu [OF q] have qe: "q \<noteq> nat e" and same: "frame (pt_entries t ! q) = frame (pt_entries s ! q)"
        by (auto split: if_splits)
      from pg q r have fok: "idx_ok (frame (pt_entries s ! q)) (pt_framepage s)"
        and bk: "pt_framepage s ! nat (frame (pt_entries s ! q)) = int q"
        unfolding pages_agree_def by blast+
      from fok have f0: "0 \<le> frame (pt_entries s ! q)" by (simp add: idx_ok_def)
      have ne: "frame (pt_entries s ! q) \<noteq> idx"
      proof
        assume "frame (pt_entries s ! q) = idx"
        with bk have "e = int q" by (simp add: e_def)
        with qe show False by simp
      qed
      have "\<forall>k. 0 \<le> k \<and> k < VMEM_PAGESIZE h \<longrightarrow>
           data t ! nat (frame (pt_entries s ! q) * VMEM_PAGESIZE h + k) =
           data s ! nat (frame (pt_entries s ! q) * VMEM_PAGESIZE h + k)"
      proof (intro allI impI)
        fix k assume k: "0 \<le> k \<and> k < VMEM_PAGESIZE h"
        then have k0: "0 \<le> k" and kp: "k < VMEM_PAGESIZE h" by simp_all
        from f0 ps k0 have n0: "0 \<le> frame (pt_entries s ! q) * VMEM_PAGESIZE h + k" by simp
        note out = frame_cell_outside [OF ne k0 kp]
        from splice_nth_outside [OF sl pl n0 out]
        show "data t ! nat (frame (pt_entries s ! q) * VMEM_PAGESIZE h + k) =
           data s ! nat (frame (pt_entries s ! q) * VMEM_PAGESIZE h + k)"
          by (simp add: dt)
      qed
      with same show "frame (pt_entries t ! q) = frame (pt_entries s ! q) \<and>
        (\<forall>k. 0 \<le> k \<and> k < VMEM_PAGESIZE h \<longrightarrow>
           data t ! nat (frame (pt_entries s ! q) * VMEM_PAGESIZE h + k) =
           data s ! nat (frame (pt_entries s ! q) * VMEM_PAGESIZE h + k))"
        by simp
    qed
    moreover have "frame (pt_entries t ! nat (adm_req_pageno s)) \<noteq> VOID_IDX"
      using rnu idx(1) by (simp add: es VOID_IDX_def)
    ultimately show ?thesis using misc by (simp add: es lenu)
  qed
  then show "stays h s t"
    and "frame (pt_entries t ! nat (adm_req_pageno s)) \<noteq> VOID_IDX"
    and "adm_g_count t = adm_g_count s"
    and "adm_page_rep_algo t = adm_page_rep_algo s"
    and "local_sem t = local_sem s + 1"
    and "adm_req_pageno t = adm_req_pageno s"
    and "length (pt_entries t) = length (pt_entries s)"
    by simp_all
qed

lemma pages_agree_cong:
  assumes "pages_agree s" "pt_framepage s' = pt_framepage s"
    "map frame (pt_entries s') = map frame (pt_entries s)"
  shows "pages_agree s'"
proof -
  from assms(3) have len: "length (pt_entries s') = length (pt_entries s)"
    by (metis length_map)
  show ?thesis
    unfolding pages_agree_def
  proof (intro allI impI)
    fix p assume p: "p < length (pt_entries s')" and nv: "frame (pt_entries s' ! p) \<noteq> VOID_IDX"
    have "frame (pt_entries s' ! p) = map frame (pt_entries s') ! p"
      using p by simp
    also have "\<dots> = frame (pt_entries s ! p)"
      using p len by (simp add: assms(3))
    finally have same: "frame (pt_entries s' ! p) = frame (pt_entries s ! p)" .
    with assms(1) p nv len have "idx_ok (frame (pt_entries s ! p)) (pt_framepage s) \<and>
        pt_framepage s ! nat (frame (pt_entries s ! p)) = int p"
      unfolding pages_agree_def by simp
    then show "idx_ok (frame (pt_entries s' ! p)) (pt_framepage s') \<and>
        pt_framepage s' ! nat (frame (pt_entries s' ! p)) = int p"
      by (simp add: same assms(2))
  qed
qed

lemma machine_inv_cong:
  assumes "machine_inv h s" "map frame (pt_entries t) = map frame (pt_entries s)"
    "pt_framepage t = pt_framepage s" "length (data t) = length (data s)"
    "pagefile t = pagefile s" "fifo_current t = fifo_current s"
  shows "machine_inv h t"
proof -
  from assms(2) have len: "length (pt_entries t) = length (pt_entries s)"
    by (metis length_map)
  from assms(1) have "layout_ok h s" "pagefile_ok h s" "frames_agree s" "pages_agree s"
    "cursor_ok h s" by (simp_all add: machine_inv_def)
  then have "layout_ok h t" "pagefile_ok h t" "cursor_ok h t"
    using len assms(3-6) by (simp_all add: layout_ok_def pagefile_ok_def cursor_ok_def)
  moreover have "frames_agree t"
    by (rule frames_agree_cong [OF \<open>frames_agree s\<close> assms(3,2)])
  moreover have "pages_agree t"
    by (rule pages_agree_cong [OF \<open>pages_agree s\<close> assms(3,2)])
  ultimately show ?thesis by (simp add: machine_inv_def)
qed

lemma stays_cong:
  assumes "stays h s' t'" "map frame (pt_entries s') = map frame (pt_entries s)"
    "data s' = data s" "map frame (pt_entries t) = map frame (pt_entries t')" "data t = data t'"
    "length (pt_entries t') = length (pt_entries s')"
  shows "stays h s t"
proof -
  from assms(2) have len: "length (pt_entries s') = length (pt_entries s)"
    by (metis length_map)
  from assms(4) have lent: "length (pt_entries t) = length (pt_entries t')"
    by (metis length_map)
  have fs: "frame (pt_entries s' ! q) = frame (pt_entries s ! q)" if "q < length (pt_entries s)" for q
  proof -
    have "frame (pt_entries s' ! q) = map frame (pt_entries s') ! q" using that len by simp
    also have "\<dots> = frame (pt_entries s ! q)" using that by (simp add: assms(2))
    finally show ?thesis .
  qed
  have ft: "frame (pt_entries t ! q) = frame (pt_entries t' ! q)" if "q < length (pt_entries s)" for q
  proof -
    have "frame (pt_entries t ! q) = map frame (pt_entries t) ! q"
      using that len lent assms(6) by simp
    also have "\<dots> = frame (pt_entries t' ! q)"
      using that len assms(6) by (simp add: assms(4))
    finally show ?thesis .
  qed
  show ?thesis
    unfolding stays_def
  proof (intro allI impI)
    fix q assume q: "q < length (pt_entries s)" and r: "frame (pt_entries s ! q) \<noteq> VOID_IDX"
      and r': "frame (pt_entries t ! q) \<noteq> VOID_IDX"
    from q len have q': "q < length (pt_entries s')" by simp
    have r1: "frame (pt_entries s' ! q) \<noteq> VOID_IDX" using r fs [OF q] by simp
    have r2: "frame (pt_entries t' ! q) \<noteq> VOID_IDX" using r' ft [OF q] by simp
    from assms(1) q' r1 r2
    have "frame (pt_entries t' ! q) = frame (pt_entries s' ! q) \<and>
        (\<forall>k. 0 \<le> k \<and> k < VMEM_PAGESIZE h \<longrightarrow>
           data t' ! nat (frame (pt_entries s' ! q) * VMEM_PAGESIZE h + k) =
           data s' ! nat (frame (pt_entries s' ! q) * VMEM_PAGESIZE h + k))"
      unfolding stays_def by blast
    then show "frame (pt_entries t ! q) = frame (pt_entries s ! q) \<and>
        (\<forall>k. 0 \<le> k \<and> k < VMEM_PAGESIZE h \<longrightarrow>
           data t ! nat (frame (pt_entries s ! q) * VMEM_PAGESIZE h + k) =
           data s ! nat (frame (pt_entries s ! q) * VMEM_PAGESIZE h + k))"
      by (simp add: fs [OF q] ft [OF q] assms(3,5))
  qed
qed

lemma stays_refl_cong:
  assumes "map frame (pt_entries t) = map frame (pt_entries s)" "data t = data s"
  shows "stays h s t"
proof -
  from assms(1) have len: "length (pt_entries t) = length (pt_entries s)"
    by (metis length_map)
  have ft: "frame (pt_entries t ! q) = frame (pt_entries s ! q)" if "q < length (pt_entries s)" for q
  proof -
    have "frame (pt_entries t ! q) = map frame (pt_entries t) ! q" using that len by simp
    also have "\<dots> = frame (pt_entries s ! q)" using that by (simp add: assms(1))
    finally show ?thesis .
  qed
  show ?thesis
    unfolding stays_def by (simp add: ft assms(2))
qed

lemma touch_spec:
  assumes h: "wf_h h" and inv: "machine_inv h s"
    and p: "0 \<le> p" "p < VMEM_NPAGES h"
    and res: "touch h p fl s = Inr (x, s3)"
  shows "machine_inv h s3" and "stays h s s3"
    and "frame (pt_entries s3 ! nat p) \<noteq> VOID_IDX"
    and "adm_g_count s3 = adm_g_count s" and "adm_page_rep_algo s3 = adm_page_rep_algo s"
    and "length (pt_entries s3) = length (pt_entries s)"
proof -
  let ?s2 = "set_flags p fl (s\<lparr>adm_req_pageno := p\<rparr>)"
  from inv p have pn: "nat p < length (pt_entries s)"
    by (simp add: machine_inv_def layout_ok_def nat_less_iff)
  have mf2: "map frame (pt_entries ?s2) = map frame (pt_entries s)"
    by (simp add: set_flags_def map_frame_update_same)
  have inv2: "machine_inv h ?s2"
    by (rule machine_inv_cong [OF inv mf2]) (simp_all add: set_flags_def)
  have f2: "frame (pt_entries ?s2 ! nat p) = frame (pt_entries s ! nat p)"
    using pn by (simp add: set_flags_def)
  have "machine_inv h s3 \<and> stays h s s3 \<and> frame (pt_entries s3 ! nat p) \<noteq> VOID_IDX \<and>
    adm_g_count s3 = adm_g_count s \<and> adm_page_rep_algo s3 = adm_page_rep_algo s \<and>
    length (pt_entries s3) = length (pt_entries s)"
  proof (cases "frame (pt_entries s ! nat p) = VOID_IDX")
    case False
    with res have s3: "s3 = ?s2" by (simp add: touch_def)
    have "stays h s ?s2"
      by (rule stays_refl_cong [OF mf2]) (simp add: set_flags_def)
    with inv2 False f2 show ?thesis
      by (simp add: s3) (simp add: set_flags_def)
  next
    case True
    let ?s2' = "?s2\<lparr>trace := trace ?s2 @ [Kill_SIGUSR1]\<rparr>"
    from res True have pfr: "page_fault h ?s2 = Inr (x, s3)" by (simp add: touch_def)
    then obtain s3' where al: "allocate_page h ?s2' = Inr ((), s3')"
      and s3: "s3 = s3'\<lparr>local_sem := local_sem s3' - 1\<rparr>"
      by (auto simp: page_fault_def split: sum.splits if_splits)
    have mf2': "map frame (pt_entries ?s2') = map frame (pt_entries s)"
      using mf2 by simp
    have inv2': "machine_inv h ?s2'"
      by (rule machine_inv_cong [OF inv mf2']) (simp_all add: set_flags_def)
    have rq: "adm_req_pageno ?s2' = p" by (simp add: set_flags_def)
    have req: "idx_ok (adm_req_pageno ?s2') (pt_entries ?s2')"
      using pn p by (simp add: rq) (simp add: idx_ok_def set_flags_def)
    have nonres: "frame (pt_entries ?s2' ! nat (adm_req_pageno ?s2')) = VOID_IDX"
      using True f2 by (simp add: rq)
    note inv3' = allocate_page_inv [OF h inv2' req nonres al]
    note sm = allocate_page_summary [OF h inv2' req nonres al]
    have inv3: "machine_inv h s3"
      by (rule machine_inv_cong [OF inv3']) (simp_all add: s3)
    have len2: "length (pt_entries ?s2') = length (pt_entries s)"
      by (simp add: set_flags_def)
    have st: "stays h s s3"
      by (rule stays_cong [OF sm(1) mf2']) (simp_all add: s3 set_flags_def sm(7))
    from sm(2) have "frame (pt_entries s3 ! nat p) \<noteq> VOID_IDX"
      by (simp add: rq s3)
    moreover from sm(3,4,7) have "adm_g_count s3 = adm_g_count s"
      "adm_page_rep_algo s3 = adm_page_rep_algo s" "length (pt_entries s3) = length (pt_entries s)"
      by (simp_all add: s3 set_flags_def)
    ultimately show ?thesis using inv3 st by simp
  qed
  then show "machine_inv h s3" and "stays h s s3"
    and "frame (pt_entries s3 ! nat p) \<noteq> VOID_IDX"
    and "adm_g_count s3 = adm_g_count s" and "adm_page_rep_algo s3 = adm_page_rep_algo s"
    and "length (pt_entries s3) = length (pt_entries s)"
    by simp_all
qed

lemma addr_split:
  assumes "pagesize_pow2 h"
  shows "a AND (VMEM_PAGESIZE h - 1) = a mod VMEM_PAGESIZE h"
    and "(a AND NOT (VMEM_PAGESIZE h - 1)) sdiv VMEM_PAGESIZE h = a div VMEM_PAGESIZE h"
proof -
  from assms obtain k where k: "VMEM_PAGESIZE h = 2 ^ k" by (auto simp: pagesize_pow2_def)
  show "a AND (VMEM_PAGESIZE h - 1) = a mod VMEM_PAGESIZE h"
    unfolding k by (rule and_pagesize_mask)
  show "(a AND NOT (VMEM_PAGESIZE h - 1)) sdiv VMEM_PAGESIZE h = a div VMEM_PAGESIZE h"
    unfolding k by (rule page_index_eq)
qed

lemma frame_or_offset_h:
  assumes "pagesize_pow2 h"
  shows "(f * VMEM_PAGESIZE h) OR (a mod VMEM_PAGESIZE h) = f * VMEM_PAGESIZE h + a mod VMEM_PAGESIZE h"
proof -
  from assms obtain k where k: "VMEM_PAGESIZE h = 2 ^ k" by (auto simp: pagesize_pow2_def)
  show ?thesis
    unfolding k by (rule frame_or_offset) simp_all
qed

lemma vmem_read_unfold:
  "vmem_read h a s =
     (let offset = a AND (VMEM_PAGESIZE h - 1);
          page_index = (a AND NOT (VMEM_PAGESIZE h - 1)) sdiv VMEM_PAGESIZE h in
      if page_index < 0 then Inl (Exit_failure, s\<lparr>adm_req_pageno := page_index\<rparr>)
      else if page_index \<ge> VMEM_NPAGES h
      then Inl (Exit_failure, s\<lparr>adm_req_pageno := page_index\<rparr>)
      else if \<not> idx_ok page_index (pt_entries s)
      then Inl (C_undefined, s\<lparr>adm_req_pageno := page_index\<rparr>)
      else case touch h page_index (PTF_REF OR flags (pt_entries s ! nat page_index)) s of
             Inl e \<Rightarrow> Inl e
           | Inr (u, s3) \<Rightarrow> read_tail h offset page_index s3)"
  unfolding vmem_read_def touch_def read_tail_def Let_def
  by (simp split del: if_split cong: if_cong sum.case_cong prod.case_cong)

lemma vmem_write_unfold:
  "vmem_write h a v s =
     (let offset = a AND (VMEM_PAGESIZE h - 1);
          page_index = (a AND NOT (VMEM_PAGESIZE h - 1)) sdiv VMEM_PAGESIZE h in
      if page_index < 0 then Inl (Exit_failure, s)
      else if page_index \<ge> VMEM_NPAGES h then Inl (Exit_failure, s)
      else if \<not> idx_ok page_index (pt_entries s)
      then Inl (C_undefined, s\<lparr>adm_req_pageno := page_index\<rparr>)
      else case touch h page_index
                  (PTF_DIRTY OR PTF_REF OR flags (pt_entries s ! nat page_index)) s of
             Inl e \<Rightarrow> Inl e
           | Inr (u, s3) \<Rightarrow> write_tail h offset page_index v s3)"
  unfolding vmem_write_def touch_def write_tail_def Let_def
  by (simp split del: if_split cong: if_cong sum.case_cong prod.case_cong)

lemma read_tail_result:
  assumes pw: "pagesize_pow2 h"
    and res: "read_tail h (a mod VMEM_PAGESIZE h) p s3 = Inr (v, t)"
  shows "v = data s3 ! nat (frame (pt_entries s3 ! nat p) * VMEM_PAGESIZE h + a mod VMEM_PAGESIZE h)"
    and "if adm_page_rep_algo s3 = VMEM_ALGO_AGING
         then update_age_reset_ref h (s3\<lparr>adm_g_count := adm_g_count s3 + 1\<rparr>) = Inr ((), t)
         else t = s3\<lparr>adm_g_count := adm_g_count s3 + 1\<rparr>"
  using res
  by (auto simp: read_tail_def Let_def frame_or_offset_h [OF pw]
      split: if_splits sum.splits prod.splits)

lemma write_tail_result:
  assumes pw: "pagesize_pow2 h"
    and res: "write_tail h (a mod VMEM_PAGESIZE h) p v s3 = Inr (x, t)"
  shows "idx_ok (frame (pt_entries s3 ! nat p) * VMEM_PAGESIZE h + a mod VMEM_PAGESIZE h) (data s3)"
    and "frame (pt_entries s3 ! nat p) * VMEM_PAGESIZE h + a mod VMEM_PAGESIZE h < 128"
    and "if adm_page_rep_algo s3 = VMEM_ALGO_AGING
         then update_age_reset_ref h
                (s3\<lparr>data := (data s3)[nat (frame (pt_entries s3 ! nat p) * VMEM_PAGESIZE h +
                                             a mod VMEM_PAGESIZE h) := v],
                     adm_g_count := adm_g_count s3 + 1\<rparr>) = Inr ((), t)
         else t = s3\<lparr>data := (data s3)[nat (frame (pt_entries s3 ! nat p) * VMEM_PAGESIZE h +
                                             a mod VMEM_PAGESIZE h) := v],
                       adm_g_count := adm_g_count s3 + 1\<rparr>"
  using res
  by (auto simp: write_tail_def Let_def frame_or_offset_h [OF pw]
      split: if_splits sum.splits prod.splits)

lemma vmem_read_touch:
  assumes pw: "pagesize_pow2 h" and res: "vmem_read h a s = Inr (v, t)"
  shows "\<exists>s3. 0 \<le> a div VMEM_PAGESIZE h \<and> a div VMEM_PAGESIZE h < VMEM_NPAGES h \<and>
      touch h (a div VMEM_PAGESIZE h)
        (PTF_REF OR flags (pt_entries s ! nat (a div VMEM_PAGESIZE h))) s = Inr ((), s3) \<and>
      read_tail h (a mod VMEM_PAGESIZE h) (a div VMEM_PAGESIZE h) s3 = Inr (v, t)"
  using res
  by (auto simp: vmem_read_unfold Let_def addr_split [OF pw]
      split: if_splits sum.splits prod.splits)

lemma vmem_write_touch:
  assumes pw: "pagesize_pow2 h" and res: "vmem_write h a v s = Inr (x, t)"
  shows "\<exists>s3. 0 \<le> a div VMEM_PAGESIZE h \<and> a div VMEM_PAGESIZE h < VMEM_NPAGES h \<and>
      touch h (a div VMEM_PAGESIZE h)
        (PTF_DIRTY OR PTF_REF OR flags (pt_entries s ! nat (a div VMEM_PAGESIZE h))) s = Inr ((), s3) \<and>
      write_tail h (a mod VMEM_PAGESIZE h) (a div VMEM_PAGESIZE h) v s3 = Inr (x, t)"
  using res
  by (auto simp: vmem_write_unfold Let_def addr_split [OF pw]
      split: if_splits sum.splits prod.splits)

lemma epilogue_effect:
  assumes h: "wf_h h" and inv: "machine_inv h s4"
    and ep: "if adm_page_rep_algo s4 = VMEM_ALGO_AGING
             then update_age_reset_ref h s4 = Inr ((), t) else t = s4"
  shows "machine_inv h t" and "map frame (pt_entries t) = map frame (pt_entries s4)"
    and "data t = data s4"
proof -
  from inv have lay: "layout_ok h s4" and fr: "frames_agree s4"
    by (simp_all add: machine_inv_def)
  from update_age_spec [OF h lay fr]
  obtain es where r: "update_age_reset_ref h s4 = Inr ((), s4\<lparr>pt_entries := es\<rparr>)"
    and mf: "map frame es = map frame (pt_entries s4)"
    by blast
  have "map frame (pt_entries t) = map frame (pt_entries s4) \<and> data t = data s4 \<and>
      pt_framepage t = pt_framepage s4 \<and> pagefile t = pagefile s4 \<and>
      fifo_current t = fifo_current s4"
  proof (cases "adm_page_rep_algo s4 = VMEM_ALGO_AGING")
    case True
    with ep r have "t = s4\<lparr>pt_entries := es\<rparr>" by simp
    with mf show ?thesis by simp
  next
    case False
    with ep show ?thesis by simp
  qed
  then show "map frame (pt_entries t) = map frame (pt_entries s4)" and "data t = data s4"
    and "machine_inv h t"
    using machine_inv_cong [OF inv, of t] by simp_all
qed

lemma epilogue_total:
  assumes h: "wf_h h" and inv: "machine_inv h s4"
  shows "\<exists>t. (if adm_page_rep_algo s4 = VMEM_ALGO_AGING
              then update_age_reset_ref h s4 else Inr ((), s4)) = Inr ((), t)"
proof -
  from inv have lay: "layout_ok h s4" and fr: "frames_agree s4"
    by (simp_all add: machine_inv_def)
  from update_age_spec [OF h lay fr] show ?thesis by auto
qed

lemma vmem_read_effect:
  assumes h: "wf_h h" and pw: "pagesize_pow2 h" and inv: "machine_inv h s"
    and res: "vmem_read h a s = Inr (v, t)"
  shows "\<exists>s3. machine_inv h s3 \<and> stays h s s3 \<and>
      frame (pt_entries s3 ! nat (a div VMEM_PAGESIZE h)) \<noteq> VOID_IDX \<and>
      length (pt_entries s3) = length (pt_entries s) \<and>
      map frame (pt_entries t) = map frame (pt_entries s3) \<and> data t = data s3 \<and>
      machine_inv h t \<and>
      v = data s3 ! nat (frame (pt_entries s3 ! nat (a div VMEM_PAGESIZE h)) * VMEM_PAGESIZE h +
                         a mod VMEM_PAGESIZE h)"
proof -
  from vmem_read_touch [OF pw res]
  obtain s3 where p: "0 \<le> a div VMEM_PAGESIZE h" "a div VMEM_PAGESIZE h < VMEM_NPAGES h"
    and tc: "touch h (a div VMEM_PAGESIZE h)
        (PTF_REF OR flags (pt_entries s ! nat (a div VMEM_PAGESIZE h))) s = Inr ((), s3)"
    and tl: "read_tail h (a mod VMEM_PAGESIZE h) (a div VMEM_PAGESIZE h) s3 = Inr (v, t)"
    by blast
  note ts = touch_spec [OF h inv p tc]
  let ?s4 = "s3\<lparr>adm_g_count := adm_g_count s3 + 1\<rparr>"
  have inv4: "machine_inv h ?s4"
    by (rule machine_inv_cong [OF ts(1)]) simp_all
  from read_tail_result(2) [OF pw tl]
  have ep: "if adm_page_rep_algo ?s4 = VMEM_ALGO_AGING
             then update_age_reset_ref h ?s4 = Inr ((), t) else t = ?s4"
    by simp
  note ee = epilogue_effect [OF h inv4 ep]
  from ts ee read_tail_result(1) [OF pw tl] show ?thesis
    by (intro exI [of _ s3]) simp
qed

lemma vmem_write_effect:
  assumes h: "wf_h h" and pw: "pagesize_pow2 h" and inv: "machine_inv h s"
    and res: "vmem_write h a v s = Inr (x, t)"
  shows "\<exists>s3. machine_inv h s3 \<and> stays h s s3 \<and>
      0 \<le> a div VMEM_PAGESIZE h \<and> a div VMEM_PAGESIZE h < VMEM_NPAGES h \<and>
      frame (pt_entries s3 ! nat (a div VMEM_PAGESIZE h)) \<noteq> VOID_IDX \<and>
      length (pt_entries s3) = length (pt_entries s) \<and>
      map frame (pt_entries t) = map frame (pt_entries s3) \<and>
      idx_ok (frame (pt_entries s3 ! nat (a div VMEM_PAGESIZE h)) * VMEM_PAGESIZE h +
              a mod VMEM_PAGESIZE h) (data s3) \<and>
      frame (pt_entries s3 ! nat (a div VMEM_PAGESIZE h)) * VMEM_PAGESIZE h +
              a mod VMEM_PAGESIZE h < 128 \<and>
      data t = (data s3)[nat (frame (pt_entries s3 ! nat (a div VMEM_PAGESIZE h)) * VMEM_PAGESIZE h +
                              a mod VMEM_PAGESIZE h) := v] \<and>
      machine_inv h t"
proof -
  from vmem_write_touch [OF pw res]
  obtain s3 where p: "0 \<le> a div VMEM_PAGESIZE h" "a div VMEM_PAGESIZE h < VMEM_NPAGES h"
    and tc: "touch h (a div VMEM_PAGESIZE h)
        (PTF_DIRTY OR PTF_REF OR flags (pt_entries s ! nat (a div VMEM_PAGESIZE h))) s = Inr ((), s3)"
    and tl: "write_tail h (a mod VMEM_PAGESIZE h) (a div VMEM_PAGESIZE h) v s3 = Inr (x, t)"
    by blast
  note ts = touch_spec [OF h inv p tc]
  let ?c = "frame (pt_entries s3 ! nat (a div VMEM_PAGESIZE h)) * VMEM_PAGESIZE h +
            a mod VMEM_PAGESIZE h"
  let ?s4 = "s3\<lparr>data := (data s3)[nat ?c := v], adm_g_count := adm_g_count s3 + 1\<rparr>"
  have inv4: "machine_inv h ?s4"
    by (rule machine_inv_cong [OF ts(1)]) simp_all
  note wt = write_tail_result [OF pw tl]
  from wt(3) have ep: "if adm_page_rep_algo ?s4 = VMEM_ALGO_AGING
             then update_age_reset_ref h ?s4 = Inr ((), t) else t = ?s4"
    by simp
  note ee = epilogue_effect [OF h inv4 ep]
  from ts ee wt(1,2) p show ?thesis
    by (intro exI [of _ s3]) simp
qed

lemma map_frame_nth:
  assumes "map frame es = map frame es'" "n < length es'"
  shows "frame (es ! n) = frame (es' ! n)"
proof -
  from assms(1) have len: "length es = length es'" by (metis length_map)
  have "frame (es ! n) = map frame es ! n" using assms(2) len by simp
  also have "\<dots> = map frame es' ! n" by (simp only: assms(1))
  also have "\<dots> = frame (es' ! n)" using assms(2) by simp
  finally show ?thesis .
qed

lemma cell_inj:
  assumes "0 < (ps::int)" "0 \<le> o1" "o1 < ps" "0 \<le> o2" "o2 < ps"
    and "f1 * ps + o1 = f2 * ps + o2"
  shows "f1 = f2" and "o1 = o2"
proof -
  have "(f1 * ps + o1) div ps = f1" using assms(1,2,3) by simp
  moreover have "(f2 * ps + o2) div ps = f2" using assms(1,4,5) by simp
  ultimately show "f1 = f2" using assms(6) by simp
  with assms(6) show "o1 = o2" by simp
qed

lemma resident_frame:
  assumes inv: "machine_inv h s" and p: "0 \<le> p" "p < VMEM_NPAGES h"
    and r: "frame (pt_entries s ! nat p) \<noteq> VOID_IDX"
  shows "0 \<le> frame (pt_entries s ! nat p)" and "frame (pt_entries s ! nat p) < VMEM_NFRAMES h"
    and "pt_framepage s ! nat (frame (pt_entries s ! nat p)) = p"
proof -
  from inv have lay: "layout_ok h s" and pg: "pages_agree s" by (simp_all add: machine_inv_def)
  from lay p have pn: "nat p < length (pt_entries s)"
    by (simp add: layout_ok_def nat_less_iff)
  from pg pn r have ok: "idx_ok (frame (pt_entries s ! nat p)) (pt_framepage s)"
    and bk: "pt_framepage s ! nat (frame (pt_entries s ! nat p)) = int (nat p)"
    unfolding pages_agree_def by blast+
  from ok lay show "0 \<le> frame (pt_entries s ! nat p)" "frame (pt_entries s ! nat p) < VMEM_NFRAMES h"
    by (simp_all add: idx_ok_def layout_ok_def)
  from bk p show "pt_framepage s ! nat (frame (pt_entries s ! nat p)) = p" by simp
qed

lemma write_holds:
  assumes h: "wf_h h" and pw: "pagesize_pow2 h" and inv: "machine_inv h s"
    and res: "vmem_write h a v s = Inr (x, s1)"
  shows "holds h a v s1"
proof -
  let ?p = "a div VMEM_PAGESIZE h"
  from vmem_write_effect [OF h pw inv res]
  obtain s3 where inv3: "machine_inv h s3" and p: "0 \<le> ?p" "?p < VMEM_NPAGES h"
    and r3: "frame (pt_entries s3 ! nat ?p) \<noteq> VOID_IDX"
    and mf: "map frame (pt_entries s1) = map frame (pt_entries s3)"
    and ok: "idx_ok (frame (pt_entries s3 ! nat ?p) * VMEM_PAGESIZE h + a mod VMEM_PAGESIZE h) (data s3)"
    and lt: "frame (pt_entries s3 ! nat ?p) * VMEM_PAGESIZE h + a mod VMEM_PAGESIZE h < 128"
    and d: "data s1 = (data s3)[nat (frame (pt_entries s3 ! nat ?p) * VMEM_PAGESIZE h +
                              a mod VMEM_PAGESIZE h) := v]"
    and inv1: "machine_inv h s1"
    by blast
  from inv3 p have pn: "nat ?p < length (pt_entries s3)"
    by (simp add: machine_inv_def layout_ok_def nat_less_iff)
  have f: "frame (pt_entries s1 ! nat ?p) = frame (pt_entries s3 ! nat ?p)"
    by (rule map_frame_nth [OF mf pn])
  from ok have "nat (frame (pt_entries s3 ! nat ?p) * VMEM_PAGESIZE h + a mod VMEM_PAGESIZE h)
      < length (data s3)"
    by (simp add: idx_ok_def nat_less_iff)
  then have "data s1 ! nat (frame (pt_entries s3 ! nat ?p) * VMEM_PAGESIZE h + a mod VMEM_PAGESIZE h) = v"
    by (simp add: d)
  with inv1 p r3 lt show ?thesis
    unfolding holds_def f by simp
qed

lemma stays_holds:
  assumes h: "wf_h h" and hv: "holds h a v s" and st: "stays h s s3"
    and len: "length (pt_entries s3) = length (pt_entries s)"
    and r3: "frame (pt_entries s3 ! nat (a div VMEM_PAGESIZE h)) \<noteq> VOID_IDX"
  shows "frame (pt_entries s3 ! nat (a div VMEM_PAGESIZE h)) =
         frame (pt_entries s ! nat (a div VMEM_PAGESIZE h))"
    and "data s3 ! nat (frame (pt_entries s3 ! nat (a div VMEM_PAGESIZE h)) * VMEM_PAGESIZE h +
                   a mod VMEM_PAGESIZE h) = v"
proof -
  let ?p = "a div VMEM_PAGESIZE h"
  from hv have inv: "machine_inv h s" and p: "0 \<le> ?p" "?p < VMEM_NPAGES h"
    and r: "frame (pt_entries s ! nat ?p) \<noteq> VOID_IDX"
    and dv: "data s ! nat (frame (pt_entries s ! nat ?p) * VMEM_PAGESIZE h + a mod VMEM_PAGESIZE h) = v"
    by (simp_all add: holds_def)
  from inv p have pn: "nat ?p < length (pt_entries s)"
    by (simp add: machine_inv_def layout_ok_def nat_less_iff)
  from h have off: "0 \<le> a mod VMEM_PAGESIZE h \<and> a mod VMEM_PAGESIZE h < VMEM_PAGESIZE h"
    by (simp add: wf_h_def)
  from st pn r r3
  have c: "frame (pt_entries s3 ! nat ?p) = frame (pt_entries s ! nat ?p) \<and>
        (\<forall>k. 0 \<le> k \<and> k < VMEM_PAGESIZE h \<longrightarrow>
           data s3 ! nat (frame (pt_entries s ! nat ?p) * VMEM_PAGESIZE h + k) =
           data s ! nat (frame (pt_entries s ! nat ?p) * VMEM_PAGESIZE h + k))"
    unfolding stays_def by blast
  from c show f: "frame (pt_entries s3 ! nat ?p) = frame (pt_entries s ! nat ?p)"
    by (rule conjunct1)
  from c off
  have "data s3 ! nat (frame (pt_entries s ! nat ?p) * VMEM_PAGESIZE h + a mod VMEM_PAGESIZE h) =
        data s ! nat (frame (pt_entries s ! nat ?p) * VMEM_PAGESIZE h + a mod VMEM_PAGESIZE h)"
    by blast
  with dv show "data s3 ! nat (frame (pt_entries s3 ! nat ?p) * VMEM_PAGESIZE h +
                   a mod VMEM_PAGESIZE h) = v"
    unfolding f by simp
qed

lemma read_keeps:
  assumes h: "wf_h h" and pw: "pagesize_pow2 h" and hv: "holds h a v s"
    and res: "vmem_read h b s = Inr (w, t)"
    and rt: "frame (pt_entries t ! nat (a div VMEM_PAGESIZE h)) \<noteq> VOID_IDX"
  shows "holds h a v t"
proof -
  let ?p = "a div VMEM_PAGESIZE h"
  from hv have inv: "machine_inv h s" and p: "0 \<le> ?p" "?p < VMEM_NPAGES h"
    and lt: "frame (pt_entries s ! nat ?p) * VMEM_PAGESIZE h + a mod VMEM_PAGESIZE h < 128"
    by (simp_all add: holds_def)
  from vmem_read_effect [OF h pw inv res]
  obtain s3 where inv3: "machine_inv h s3" and st: "stays h s s3"
    and len: "length (pt_entries s3) = length (pt_entries s)"
    and mf: "map frame (pt_entries t) = map frame (pt_entries s3)"
    and d: "data t = data s3" and invt: "machine_inv h t"
    by blast
  from inv3 p have pn: "nat ?p < length (pt_entries s3)"
    by (simp add: machine_inv_def layout_ok_def nat_less_iff)
  have f: "frame (pt_entries t ! nat ?p) = frame (pt_entries s3 ! nat ?p)"
    by (rule map_frame_nth [OF mf pn])
  from rt have r3: "frame (pt_entries s3 ! nat ?p) \<noteq> VOID_IDX" unfolding f .
  note sh = stays_holds [OF h hv st len r3]
  from invt p r3 lt sh(2) show ?thesis
    unfolding holds_def f d unfolding sh(1) by simp
qed

lemma write_keeps:
  assumes h: "wf_h h" and pw: "pagesize_pow2 h" and hv: "holds h a v s"
    and res: "vmem_write h b w s = Inr (x, t)" and ne: "b \<noteq> a"
    and rt: "frame (pt_entries t ! nat (a div VMEM_PAGESIZE h)) \<noteq> VOID_IDX"
  shows "holds h a v t"
proof -
  let ?p = "a div VMEM_PAGESIZE h"
  let ?q = "b div VMEM_PAGESIZE h"
  let ?ps = "VMEM_PAGESIZE h"
  from hv have inv: "machine_inv h s" and p: "0 \<le> ?p" "?p < VMEM_NPAGES h"
    and lt: "frame (pt_entries s ! nat ?p) * ?ps + a mod ?ps < 128"
    by (simp_all add: holds_def)
  from vmem_write_effect [OF h pw inv res]
  obtain s3 where inv3: "machine_inv h s3" and st: "stays h s s3"
    and q: "0 \<le> ?q" "?q < VMEM_NPAGES h"
    and rq: "frame (pt_entries s3 ! nat ?q) \<noteq> VOID_IDX"
    and len: "length (pt_entries s3) = length (pt_entries s)"
    and mf: "map frame (pt_entries t) = map frame (pt_entries s3)"
    and d: "data t = (data s3)[nat (frame (pt_entries s3 ! nat ?q) * ?ps + b mod ?ps) := w]"
    and invt: "machine_inv h t"
    by blast
  from inv3 p have pn: "nat ?p < length (pt_entries s3)"
    by (simp add: machine_inv_def layout_ok_def nat_less_iff)
  have f: "frame (pt_entries t ! nat ?p) = frame (pt_entries s3 ! nat ?p)"
    by (rule map_frame_nth [OF mf pn])
  from rt have r3: "frame (pt_entries s3 ! nat ?p) \<noteq> VOID_IDX" unfolding f .
  note sh = stays_holds [OF h hv st len r3]
  note fa = resident_frame [OF inv3 p r3]
  note fb = resident_frame [OF inv3 q rq]
  from h have ps: "0 < ?ps" by (simp add: wf_h_def)
  then have oa: "0 \<le> a mod ?ps" "a mod ?ps < ?ps" and ob: "0 \<le> b mod ?ps" "b mod ?ps < ?ps"
    by simp_all
  have cne: "frame (pt_entries s3 ! nat ?q) * ?ps + b mod ?ps \<noteq>
             frame (pt_entries s3 ! nat ?p) * ?ps + a mod ?ps"
  proof
    assume eq: "frame (pt_entries s3 ! nat ?q) * ?ps + b mod ?ps =
             frame (pt_entries s3 ! nat ?p) * ?ps + a mod ?ps"
    note ci = cell_inj [OF ps ob oa eq]
    from fa(3) fb(3) have "?q = ?p" unfolding ci(1) by simp
    with ci(2) have "b = a"
      by (metis mult_div_mod_eq)
    with ne show False by simp
  qed
  from fa(1) oa(1) ps have ca: "0 \<le> frame (pt_entries s3 ! nat ?p) * ?ps + a mod ?ps"
    by simp
  from fb(1) ob(1) ps have cb: "0 \<le> frame (pt_entries s3 ! nat ?q) * ?ps + b mod ?ps"
    by simp
  from cne ca cb have nne: "nat (frame (pt_entries s3 ! nat ?q) * ?ps + b mod ?ps) \<noteq>
             nat (frame (pt_entries s3 ! nat ?p) * ?ps + a mod ?ps)"
    by simp
  have "data t ! nat (frame (pt_entries s3 ! nat ?p) * ?ps + a mod ?ps) =
        data s3 ! nat (frame (pt_entries s3 ! nat ?p) * ?ps + a mod ?ps)"
    unfolding d by (rule nth_list_update_neq [OF nne])
  with sh(2) have "data t ! nat (frame (pt_entries s3 ! nat ?p) * ?ps + a mod ?ps) = v"
    by simp
  with invt p r3 lt show ?thesis
    unfolding holds_def f unfolding sh(1) by simp
qed

lemma step_keeps:
  assumes h: "wf_h h" and pw: "pagesize_pow2 h" and hv: "holds h a v s"
    and res: "step h x s = Some t" and nw: "\<not> writes_to a x"
    and rt: "frame (pt_entries t ! nat (a div VMEM_PAGESIZE h)) \<noteq> VOID_IDX"
  shows "holds h a v t"
proof (cases x)
  case (Read b)
  with res obtain w where "vmem_read h b s = Inr (w, t)"
    by (auto split: sum.splits prod.splits)
  from read_keeps [OF h pw hv this rt] show ?thesis .
next
  case (Write b w)
  with res obtain u where r: "vmem_write h b w s = Inr (u, t)"
    by (auto split: sum.splits prod.splits)
  from Write nw have "b \<noteq> a" by simp
  from write_keeps [OF h pw hv r this rt] show ?thesis .
qed

lemma run_keeps:
  assumes h: "wf_h h" and pw: "pagesize_pow2 h"
  shows "holds h a v s \<Longrightarrow> run_keeping h (a div VMEM_PAGESIZE h) xs s = Some t \<Longrightarrow>
         \<forall>x \<in> set xs. \<not> writes_to a x \<Longrightarrow> holds h a v t"
proof (induction xs arbitrary: s)
  case Nil
  then show ?case by simp
next
  case (Cons x xs)
  from Cons.prems(2) obtain s' where st: "step h x s = Some s'"
    and rt: "frame (pt_entries s' ! nat (a div VMEM_PAGESIZE h)) \<noteq> VOID_IDX"
    and rest: "run_keeping h (a div VMEM_PAGESIZE h) xs s' = Some t"
    by (auto split: option.splits if_splits)
  from Cons.prems(3) have nw: "\<not> writes_to a x" and nws: "\<forall>x \<in> set xs. \<not> writes_to a x"
    by simp_all
  from step_keeps [OF h pw Cons.prems(1) st nw rt] have "holds h a v s'" .
  from Cons.IH [OF this rest nws] show ?case .
qed

lemma holds_read:
  assumes h: "wf_h h" and pw: "pagesize_pow2 h" and hv: "holds h a v s"
  shows "\<exists>t. vmem_read h a s = Inr (v, t)"
proof -
  let ?p = "a div VMEM_PAGESIZE h"
  let ?ps = "VMEM_PAGESIZE h"
  let ?fl = "PTF_REF OR flags (pt_entries s ! nat ?p)"
  let ?s2 = "set_flags ?p ?fl (s\<lparr>adm_req_pageno := ?p\<rparr>)"
  let ?c = "frame (pt_entries s ! nat ?p) * ?ps + a mod ?ps"
  from hv have inv: "machine_inv h s" and p: "0 \<le> ?p" "?p < VMEM_NPAGES h"
    and r: "frame (pt_entries s ! nat ?p) \<noteq> VOID_IDX"
    and lt: "?c < 128" and dv: "data s ! nat ?c = v"
    by (simp_all add: holds_def)
  from inv have lay: "layout_ok h s" by (simp add: machine_inv_def)
  from lay p have pn: "nat ?p < length (pt_entries s)"
    by (simp add: layout_ok_def nat_less_iff)
  from lay p have ok: "idx_ok ?p (pt_entries s)"
    by (simp add: layout_ok_def idx_ok_def)
  from r have tc: "touch h ?p ?fl s = Inr ((), ?s2)" by (simp add: touch_def)
  have mf2: "map frame (pt_entries ?s2) = map frame (pt_entries s)"
    by (simp add: set_flags_def map_frame_update_same)
  have f2: "frame (pt_entries ?s2 ! nat ?p) = frame (pt_entries s ! nat ?p)"
    using pn by (simp add: set_flags_def)
  have ok2: "idx_ok ?p (pt_entries ?s2)"
    using ok by (simp add: idx_ok_def set_flags_def)
  have d2: "data ?s2 = data s" by (simp add: set_flags_def)
  note fa = resident_frame [OF inv p r]
  from h have ps: "0 < ?ps" by (simp add: wf_h_def)
  then have oa: "0 \<le> a mod ?ps" "a mod ?ps < ?ps" by simp_all
  from fa(1) oa(1) ps have c0: "0 \<le> ?c" by simp
  from fa(2) have "frame (pt_entries s ! nat ?p) + 1 \<le> VMEM_NFRAMES h" by simp
  with ps have "(frame (pt_entries s ! nat ?p) + 1) * ?ps \<le> VMEM_NFRAMES h * ?ps"
    by (intro mult_right_mono) simp_all
  with oa(2) have "?c < VMEM_NFRAMES h * ?ps" by (simp add: algebra_simps)
  with c0 lay have okc: "idx_ok ?c (data s)" by (simp add: idx_ok_def layout_ok_def)
  let ?s4 = "?s2\<lparr>adm_g_count := adm_g_count ?s2 + 1\<rparr>"
  have inv4: "machine_inv h ?s4"
    by (rule machine_inv_cong [OF inv]) (simp_all add: set_flags_def map_frame_update_same)
  from epilogue_total [OF h inv4]
  obtain t where ep: "(if adm_page_rep_algo ?s4 = VMEM_ALGO_AGING
              then update_age_reset_ref h ?s4 else Inr ((), ?s4)) = Inr ((), t)"
    by blast
  have "read_tail h (a mod ?ps) ?p ?s2 = Inr (v, t)"
    unfolding read_tail_def Let_def frame_or_offset_h [OF pw] f2 d2
    using ok2 c0 lt okc dv ep by simp
  with p ok tc have "vmem_read h a s = Inr (v, t)"
    unfolding vmem_read_unfold Let_def addr_split [OF pw] by simp
  then show ?thesis ..
qed

lemma touch_total:
  assumes h: "wf_h h" and inv: "machine_inv h s"
    and p: "0 \<le> p" "p < VMEM_NPAGES h"
    and al: "adm_page_rep_algo s \<noteq> VMEM_ALGO_OTHER"
  shows "\<exists>s3. touch h p fl s = Inr ((), s3)"
proof (cases "frame (pt_entries s ! nat p) = VOID_IDX")
  case False
  then show ?thesis by (simp add: touch_def)
next
  case True
  let ?s2 = "set_flags p fl (s\<lparr>adm_req_pageno := p\<rparr>)"
  let ?s2' = "?s2\<lparr>trace := trace ?s2 @ [Kill_SIGUSR1]\<rparr>"
  from inv p have pn: "nat p < length (pt_entries s)"
    by (simp add: machine_inv_def layout_ok_def nat_less_iff)
  have mf2': "map frame (pt_entries ?s2') = map frame (pt_entries s)"
    by (simp add: set_flags_def map_frame_update_same)
  have inv2': "machine_inv h ?s2'"
    by (rule machine_inv_cong [OF inv mf2']) (simp_all add: set_flags_def)
  then have lay: "layout_ok h ?s2'" and pf: "pagefile_ok h ?s2'" and fr: "frames_agree ?s2'"
    and cur: "cursor_ok h ?s2'"
    by (simp_all add: machine_inv_def)
  have req: "idx_ok (adm_req_pageno ?s2') (pt_entries ?s2')"
    using pn p by (simp add: idx_ok_def set_flags_def)
  have al': "adm_page_rep_algo ?s2' \<noteq> VMEM_ALGO_OTHER"
    using al by (simp add: set_flags_def)
  from allocate_page_cases [OF h lay pf fr cur req] al'
  obtain u where "allocate_page h ?s2' = Inr ((), sem_post u)"
    by blast
  then have "page_fault h ?s2 = Inr ((), (sem_post u)\<lparr>local_sem := local_sem (sem_post u) - 1\<rparr>)"
    by (simp add: page_fault_def sem_post_def)
  with True show ?thesis by (simp add: touch_def)
qed

lemma cell_in_range:
  assumes h: "wf_h h" and inv: "machine_inv h s"
    and p: "0 \<le> p" "p < VMEM_NPAGES h"
    and r: "frame (pt_entries s ! nat p) \<noteq> VOID_IDX"
  shows "idx_ok (frame (pt_entries s ! nat p) * VMEM_PAGESIZE h + a mod VMEM_PAGESIZE h) (data s)"
    and "frame (pt_entries s ! nat p) * VMEM_PAGESIZE h + a mod VMEM_PAGESIZE h <
         VMEM_NFRAMES h * VMEM_PAGESIZE h"
proof -
  let ?ps = "VMEM_PAGESIZE h"
  let ?c = "frame (pt_entries s ! nat p) * ?ps + a mod ?ps"
  from inv have lay: "layout_ok h s" by (simp add: machine_inv_def)
  note fa = resident_frame [OF inv p r]
  from h have ps: "0 < ?ps" by (simp add: wf_h_def)
  then have oa: "0 \<le> a mod ?ps" "a mod ?ps < ?ps" by simp_all
  from fa(1) oa(1) ps have c0: "0 \<le> ?c" by simp
  from fa(2) have "frame (pt_entries s ! nat p) + 1 \<le> VMEM_NFRAMES h" by simp
  with ps have "(frame (pt_entries s ! nat p) + 1) * ?ps \<le> VMEM_NFRAMES h * ?ps"
    by (intro mult_right_mono) simp_all
  with oa(2) show lt: "?c < VMEM_NFRAMES h * ?ps" by (simp add: algebra_simps)
  with c0 lay show "idx_ok ?c (data s)" by (simp add: idx_ok_def layout_ok_def)
qed

lemma read_tail_total:
  assumes h: "wf_h h" and pw: "pagesize_pow2 h" and inv: "machine_inv h s3"
    and p: "0 \<le> p" "p < VMEM_NPAGES h"
    and r: "frame (pt_entries s3 ! nat p) \<noteq> VOID_IDX"
    and sz: "VMEM_NFRAMES h * VMEM_PAGESIZE h \<le> 128"
  shows "\<exists>t. read_tail h (a mod VMEM_PAGESIZE h) p s3 =
           Inr (data s3 ! nat (frame (pt_entries s3 ! nat p) * VMEM_PAGESIZE h +
                               a mod VMEM_PAGESIZE h), t)"
proof -
  let ?ps = "VMEM_PAGESIZE h"
  let ?c = "frame (pt_entries s3 ! nat p) * ?ps + a mod ?ps"
  from inv p have ok: "idx_ok p (pt_entries s3)"
    by (simp add: machine_inv_def layout_ok_def idx_ok_def)
  note c = cell_in_range [OF h inv p r, of a]
  from c(1) have c0: "0 \<le> ?c" by (simp add: idx_ok_def)
  from c(2) sz have lt: "?c < 128" by simp
  let ?s4 = "s3\<lparr>adm_g_count := adm_g_count s3 + 1\<rparr>"
  have inv4: "machine_inv h ?s4"
    by (rule machine_inv_cong [OF inv]) simp_all
  from epilogue_total [OF h inv4]
  obtain t where ep: "(if adm_page_rep_algo ?s4 = VMEM_ALGO_AGING
              then update_age_reset_ref h ?s4 else Inr ((), ?s4)) = Inr ((), t)"
    by blast
  have "read_tail h (a mod ?ps) p s3 = Inr (data s3 ! nat ?c, t)"
    unfolding read_tail_def Let_def frame_or_offset_h [OF pw]
    using ok c0 lt c(1) ep by simp
  then show ?thesis ..
qed

lemma write_tail_total:
  assumes h: "wf_h h" and pw: "pagesize_pow2 h" and inv: "machine_inv h s3"
    and p: "0 \<le> p" "p < VMEM_NPAGES h"
    and r: "frame (pt_entries s3 ! nat p) \<noteq> VOID_IDX"
    and sz: "VMEM_NFRAMES h * VMEM_PAGESIZE h \<le> 128"
  shows "\<exists>t. write_tail h (a mod VMEM_PAGESIZE h) p v s3 = Inr ((), t)"
proof -
  let ?ps = "VMEM_PAGESIZE h"
  let ?c = "frame (pt_entries s3 ! nat p) * ?ps + a mod ?ps"
  from inv p have ok: "idx_ok p (pt_entries s3)"
    by (simp add: machine_inv_def layout_ok_def idx_ok_def)
  note c = cell_in_range [OF h inv p r, of a]
  from c(1) have c0: "0 \<le> ?c" by (simp add: idx_ok_def)
  from c(2) sz have lt: "?c < 128" by simp
  let ?s4 = "s3\<lparr>data := (data s3)[nat ?c := v], adm_g_count := adm_g_count s3 + 1\<rparr>"
  have inv4: "machine_inv h ?s4"
    by (rule machine_inv_cong [OF inv]) simp_all
  from epilogue_total [OF h inv4]
  obtain t where ep: "(if adm_page_rep_algo ?s4 = VMEM_ALGO_AGING
              then update_age_reset_ref h ?s4 else Inr ((), ?s4)) = Inr ((), t)"
    by blast
  have "write_tail h (a mod ?ps) p v s3 = Inr ((), t)"
    unfolding write_tail_def Let_def frame_or_offset_h [OF pw]
    using ok c0 lt c(1) ep by (simp split: if_splits)
  then show ?thesis ..
qed

text \<open>The entries that the end of an access leaves, written out.\<close>

lemma epilogue_entries:
  assumes h: "wf_h h" and inv: "machine_inv h s4"
    and ep: "if adm_page_rep_algo s4 = VMEM_ALGO_AGING
             then update_age_reset_ref h s4 = Inr ((), t) else t = s4"
  shows "t = s4\<lparr>pt_entries := pt_entries t\<rparr>"
    and "pt_entries t =
           (if adm_page_rep_algo s4 = VMEM_ALGO_AGING \<and>
               adm_g_count s4 smod UPDATE_AGE_COUNT h = 0
            then map (\<lambda>e. if frame e \<noteq> VOID_IDX then decay e else e) (pt_entries s4)
            else pt_entries s4)"
proof -
  from inv have lay: "layout_ok h s4" and fr: "frames_agree s4" and pg: "pages_agree s4"
    by (simp_all add: machine_inv_def)
  from update_age_spec [OF h lay fr]
  obtain es where r: "update_age_reset_ref h s4 = Inr ((), s4\<lparr>pt_entries := es\<rparr>)"
    and len: "length es = length (pt_entries s4)"
    and idle: "adm_g_count s4 smod UPDATE_AGE_COUNT h \<noteq> 0 \<longrightarrow> es = pt_entries s4"
    and pass: "adm_g_count s4 smod UPDATE_AGE_COUNT h = 0 \<longrightarrow>
         (\<forall>p < length es. es ! p =
            (if in_frames h 0 s4 p then decay (pt_entries s4 ! p) else pt_entries s4 ! p))"
    by blast
  have es: "es = map (\<lambda>e. if frame e \<noteq> VOID_IDX then decay e else e) (pt_entries s4)"
    if z: "adm_g_count s4 smod UPDATE_AGE_COUNT h = 0"
  proof (rule nth_equalityI)
    show "length es = length (map (\<lambda>e. if frame e \<noteq> VOID_IDX then decay e else e) (pt_entries s4))"
      using len by simp
    fix q assume q: "q < length es"
    with len have q4: "q < length (pt_entries s4)" by simp
    from pass z q have "es ! q =
        (if in_frames h 0 s4 q then decay (pt_entries s4 ! q) else pt_entries s4 ! q)"
      by blast
    then show "es ! q = map (\<lambda>e. if frame e \<noteq> VOID_IDX then decay e else e) (pt_entries s4) ! q"
      using q4 by (simp add: resident_in_frames [OF lay fr pg q4])
  qed
  show "t = s4\<lparr>pt_entries := pt_entries t\<rparr>"
  proof (cases "adm_page_rep_algo s4 = VMEM_ALGO_AGING")
    case False
    with ep show ?thesis by simp
  next
    case True
    with ep r have "t = s4\<lparr>pt_entries := es\<rparr>" by simp
    then show ?thesis by simp
  qed
  show "pt_entries t =
           (if adm_page_rep_algo s4 = VMEM_ALGO_AGING \<and>
               adm_g_count s4 smod UPDATE_AGE_COUNT h = 0
            then map (\<lambda>e. if frame e \<noteq> VOID_IDX then decay e else e) (pt_entries s4)
            else pt_entries s4)"
  proof (cases "adm_page_rep_algo s4 = VMEM_ALGO_AGING")
    case False
    with ep show ?thesis by simp
  next
    case True
    with ep r have t: "t = s4\<lparr>pt_entries := es\<rparr>" by simp
    show ?thesis
    proof (cases "adm_g_count s4 smod UPDATE_AGE_COUNT h = 0")
      case z: True
      with True es show ?thesis by (simp add: t)
    next
      case z: False
      with idle show ?thesis by (simp add: t)
    qed
  qed
qed

lemma vmem_read_counts:
  assumes h: "wf_h h" and pw: "pagesize_pow2 h" and inv: "machine_inv h s"
    and p: "0 \<le> a div VMEM_PAGESIZE h" "a div VMEM_PAGESIZE h < VMEM_NPAGES h"
    and al: "adm_page_rep_algo s \<noteq> VMEM_ALGO_OTHER"
    and sz: "VMEM_NFRAMES h * VMEM_PAGESIZE h \<le> 128"
  shows "\<exists>s3 t.
      touch h (a div VMEM_PAGESIZE h)
        (PTF_REF OR flags (pt_entries s ! nat (a div VMEM_PAGESIZE h))) s = Inr ((), s3) \<and>
      vmem_read h a s =
        Inr (data s3 ! nat (frame (pt_entries s3 ! nat (a div VMEM_PAGESIZE h)) * VMEM_PAGESIZE h +
                            a mod VMEM_PAGESIZE h), t) \<and>
      machine_inv h s3 \<and> adm_g_count s3 = adm_g_count s \<and>
      t = s3\<lparr>adm_g_count := adm_g_count s + 1, pt_entries := pt_entries t\<rparr> \<and>
      pt_entries t =
        (if adm_page_rep_algo s = VMEM_ALGO_AGING \<and>
            (adm_g_count s + 1) smod UPDATE_AGE_COUNT h = 0
         then map (\<lambda>e. if frame e \<noteq> VOID_IDX then decay e else e) (pt_entries s3)
         else pt_entries s3) \<and>
      (if adm_page_rep_algo s = VMEM_ALGO_AGING
       then update_age_reset_ref h (s3\<lparr>adm_g_count := adm_g_count s + 1\<rparr>) = Inr ((), t)
       else t = s3\<lparr>adm_g_count := adm_g_count s + 1\<rparr>) \<and>
      machine_inv h t"
proof -
  let ?p = "a div VMEM_PAGESIZE h"
  let ?fl = "PTF_REF OR flags (pt_entries s ! nat ?p)"
  from touch_total [OF h inv p al]
  obtain s3 where tc: "touch h ?p ?fl s = Inr ((), s3)" by blast
  note ts = touch_spec [OF h inv p tc]
  from read_tail_total [OF h pw ts(1) p ts(3) sz]
  obtain t where tl: "read_tail h (a mod VMEM_PAGESIZE h) ?p s3 =
      Inr (data s3 ! nat (frame (pt_entries s3 ! nat ?p) * VMEM_PAGESIZE h + a mod VMEM_PAGESIZE h), t)"
    by blast
  from inv p have ok: "idx_ok ?p (pt_entries s)"
    by (simp add: machine_inv_def layout_ok_def idx_ok_def)
  from p ok tc tl have rd: "vmem_read h a s =
      Inr (data s3 ! nat (frame (pt_entries s3 ! nat ?p) * VMEM_PAGESIZE h + a mod VMEM_PAGESIZE h), t)"
    unfolding vmem_read_unfold Let_def addr_split [OF pw] by simp
  let ?s4 = "s3\<lparr>adm_g_count := adm_g_count s + 1\<rparr>"
  have s4: "s3\<lparr>adm_g_count := adm_g_count s3 + 1\<rparr> = ?s4" by (simp add: ts(4))
  have inv4: "machine_inv h ?s4"
    by (rule machine_inv_cong [OF ts(1)]) simp_all
  from read_tail_result(2) [OF pw tl]
  have ep: "if adm_page_rep_algo ?s4 = VMEM_ALGO_AGING
            then update_age_reset_ref h ?s4 = Inr ((), t) else t = ?s4"
    unfolding s4 by simp
  note ee = epilogue_entries [OF h inv4 ep]
  note ef = epilogue_effect [OF h inv4 ep]
  from ee(1) have e1: "t = s3\<lparr>adm_g_count := adm_g_count s + 1, pt_entries := pt_entries t\<rparr>"
    by simp
  from ee(2) have e2: "pt_entries t =
        (if adm_page_rep_algo s = VMEM_ALGO_AGING \<and>
            (adm_g_count s + 1) smod UPDATE_AGE_COUNT h = 0
         then map (\<lambda>e. if frame e \<noteq> VOID_IDX then decay e else e) (pt_entries s3)
         else pt_entries s3)"
    by (simp add: ts(5))
  from ep have e3: "if adm_page_rep_algo s = VMEM_ALGO_AGING
       then update_age_reset_ref h ?s4 = Inr ((), t) else t = ?s4"
    by (simp add: ts(5))
  from tc rd ts(1) ts(4) e1 e2 e3 ef(1) show ?thesis by blast
qed

lemma vmem_write_counts:
  assumes h: "wf_h h" and pw: "pagesize_pow2 h" and inv: "machine_inv h s"
    and p: "0 \<le> a div VMEM_PAGESIZE h" "a div VMEM_PAGESIZE h < VMEM_NPAGES h"
    and al: "adm_page_rep_algo s \<noteq> VMEM_ALGO_OTHER"
    and sz: "VMEM_NFRAMES h * VMEM_PAGESIZE h \<le> 128"
  shows "\<exists>s3 t.
      touch h (a div VMEM_PAGESIZE h)
        (PTF_DIRTY OR PTF_REF OR flags (pt_entries s ! nat (a div VMEM_PAGESIZE h))) s =
        Inr ((), s3) \<and>
      vmem_write h a v s = Inr ((), t) \<and>
      machine_inv h s3 \<and> adm_g_count s3 = adm_g_count s \<and>
      t = s3\<lparr>data := (data s3)[nat (frame (pt_entries s3 ! nat (a div VMEM_PAGESIZE h)) *
                                       VMEM_PAGESIZE h + a mod VMEM_PAGESIZE h) := v],
             adm_g_count := adm_g_count s + 1, pt_entries := pt_entries t\<rparr> \<and>
      pt_entries t =
        (if adm_page_rep_algo s = VMEM_ALGO_AGING \<and>
            (adm_g_count s + 1) smod UPDATE_AGE_COUNT h = 0
         then map (\<lambda>e. if frame e \<noteq> VOID_IDX then decay e else e) (pt_entries s3)
         else pt_entries s3) \<and>
      (if adm_page_rep_algo s = VMEM_ALGO_AGING
       then update_age_reset_ref h
              (s3\<lparr>data := (data s3)[nat (frame (pt_entries s3 ! nat (a div VMEM_PAGESIZE h)) *
                                          VMEM_PAGESIZE h + a mod VMEM_PAGESIZE h) := v],
                  adm_g_count := adm_g_count s + 1\<rparr>) = Inr ((), t)
       else t = s3\<lparr>data := (data s3)[nat (frame (pt_entries s3 ! nat (a div VMEM_PAGESIZE h)) *
                                           VMEM_PAGESIZE h + a mod VMEM_PAGESIZE h) := v],
                   adm_g_count := adm_g_count s + 1\<rparr>) \<and>
      machine_inv h t"
proof -
  let ?p = "a div VMEM_PAGESIZE h"
  let ?fl = "PTF_DIRTY OR PTF_REF OR flags (pt_entries s ! nat ?p)"
  from touch_total [OF h inv p al]
  obtain s3 where tc: "touch h ?p ?fl s = Inr ((), s3)" by blast
  note ts = touch_spec [OF h inv p tc]
  from write_tail_total [OF h pw ts(1) p ts(3) sz]
  obtain t where tl: "write_tail h (a mod VMEM_PAGESIZE h) ?p v s3 = Inr ((), t)"
    by blast
  from inv p have ok: "idx_ok ?p (pt_entries s)"
    by (simp add: machine_inv_def layout_ok_def idx_ok_def)
  from p ok tc tl have wr: "vmem_write h a v s = Inr ((), t)"
    unfolding vmem_write_unfold Let_def addr_split [OF pw] by simp
  let ?c = "frame (pt_entries s3 ! nat ?p) * VMEM_PAGESIZE h + a mod VMEM_PAGESIZE h"
  let ?s4 = "s3\<lparr>data := (data s3)[nat ?c := v], adm_g_count := adm_g_count s + 1\<rparr>"
  have s4: "s3\<lparr>data := (data s3)[nat ?c := v], adm_g_count := adm_g_count s3 + 1\<rparr> = ?s4"
    by (simp add: ts(4))
  have inv4: "machine_inv h ?s4"
    by (rule machine_inv_cong [OF ts(1)]) simp_all
  from write_tail_result(3) [OF pw tl]
  have ep: "if adm_page_rep_algo ?s4 = VMEM_ALGO_AGING
            then update_age_reset_ref h ?s4 = Inr ((), t) else t = ?s4"
    unfolding s4 by simp
  note ee = epilogue_entries [OF h inv4 ep]
  note ef = epilogue_effect [OF h inv4 ep]
  from ee(1) have e1: "t = s3\<lparr>data := (data s3)[nat ?c := v],
      adm_g_count := adm_g_count s + 1, pt_entries := pt_entries t\<rparr>"
    by simp
  from ee(2) have e2: "pt_entries t =
        (if adm_page_rep_algo s = VMEM_ALGO_AGING \<and>
            (adm_g_count s + 1) smod UPDATE_AGE_COUNT h = 0
         then map (\<lambda>e. if frame e \<noteq> VOID_IDX then decay e else e) (pt_entries s3)
         else pt_entries s3)"
    by (simp add: ts(5))
  from ep have e3: "if adm_page_rep_algo s = VMEM_ALGO_AGING
       then update_age_reset_ref h ?s4 = Inr ((), t) else t = ?s4"
    by (simp add: ts(5))
  from tc wr ts(1) ts(4) e1 e2 e3 ef(1) show ?thesis by blast
qed

lemma step_counts:
  assumes h: "wf_h h" and pw: "pagesize_pow2 h" and inv: "machine_inv h s"
    and x: "in_range h x"
    and al: "adm_page_rep_algo s \<noteq> VMEM_ALGO_OTHER"
    and sz: "VMEM_NFRAMES h * VMEM_PAGESIZE h \<le> 128"
  shows "\<exists>t. step h x s = Some t \<and> machine_inv h t \<and>
           adm_g_count t = adm_g_count s + 1 \<and> adm_page_rep_algo t = adm_page_rep_algo s"
proof (cases x)
  case (Read a)
  with x have p: "0 \<le> a div VMEM_PAGESIZE h" "a div VMEM_PAGESIZE h < VMEM_NPAGES h"
    by simp_all
  from vmem_read_counts [OF h pw inv p al sz]
  obtain s3 t v where tc: "touch h (a div VMEM_PAGESIZE h)
        (PTF_REF OR flags (pt_entries s ! nat (a div VMEM_PAGESIZE h))) s = Inr ((), s3)"
    and rd: "vmem_read h a s = Inr (v, t)"
    and inv3: "machine_inv h s3"
    and t: "t = s3\<lparr>adm_g_count := adm_g_count s + 1, pt_entries := pt_entries t\<rparr>"
    and ep: "if adm_page_rep_algo s = VMEM_ALGO_AGING
       then update_age_reset_ref h (s3\<lparr>adm_g_count := adm_g_count s + 1\<rparr>) = Inr ((), t)
       else t = s3\<lparr>adm_g_count := adm_g_count s + 1\<rparr>"
    by blast
  note ts = touch_spec [OF h inv p tc]
  let ?s4 = "s3\<lparr>adm_g_count := adm_g_count s + 1\<rparr>"
  have inv4: "machine_inv h ?s4"
    by (rule machine_inv_cong [OF inv3]) simp_all
  from ep ts(5) have ep': "if adm_page_rep_algo ?s4 = VMEM_ALGO_AGING
       then update_age_reset_ref h ?s4 = Inr ((), t) else t = ?s4"
    by simp
  note ee = epilogue_effect [OF h inv4 ep']
  from t have "adm_g_count t =
      adm_g_count (s3\<lparr>adm_g_count := adm_g_count s + 1, pt_entries := pt_entries t\<rparr>)"
    by (rule arg_cong)
  then have g: "adm_g_count t = adm_g_count s + 1" by simp
  from t have "adm_page_rep_algo t =
      adm_page_rep_algo (s3\<lparr>adm_g_count := adm_g_count s + 1, pt_entries := pt_entries t\<rparr>)"
    by (rule arg_cong)
  then have a: "adm_page_rep_algo t = adm_page_rep_algo s" by (simp add: ts(5))
  from rd ee(1) g a Read show ?thesis by simp
next
  case (Write a v)
  with x have p: "0 \<le> a div VMEM_PAGESIZE h" "a div VMEM_PAGESIZE h < VMEM_NPAGES h"
    by simp_all
  let ?c = "frame (pt_entries s3 ! nat (a div VMEM_PAGESIZE h)) * VMEM_PAGESIZE h +
            a mod VMEM_PAGESIZE h"
  from vmem_write_counts [OF h pw inv p al sz, of v]
  obtain s3 t where tc: "touch h (a div VMEM_PAGESIZE h)
        (PTF_DIRTY OR PTF_REF OR flags (pt_entries s ! nat (a div VMEM_PAGESIZE h))) s =
        Inr ((), s3)"
    and wr: "vmem_write h a v s = Inr ((), t)"
    and inv3: "machine_inv h s3"
    and t: "t = s3\<lparr>data := (data s3)[nat (frame (pt_entries s3 ! nat (a div VMEM_PAGESIZE h)) *
                                       VMEM_PAGESIZE h + a mod VMEM_PAGESIZE h) := v],
             adm_g_count := adm_g_count s + 1, pt_entries := pt_entries t\<rparr>"
    and ep: "if adm_page_rep_algo s = VMEM_ALGO_AGING
       then update_age_reset_ref h
              (s3\<lparr>data := (data s3)[nat (frame (pt_entries s3 ! nat (a div VMEM_PAGESIZE h)) *
                                          VMEM_PAGESIZE h + a mod VMEM_PAGESIZE h) := v],
                  adm_g_count := adm_g_count s + 1\<rparr>) = Inr ((), t)
       else t = s3\<lparr>data := (data s3)[nat (frame (pt_entries s3 ! nat (a div VMEM_PAGESIZE h)) *
                                           VMEM_PAGESIZE h + a mod VMEM_PAGESIZE h) := v],
                   adm_g_count := adm_g_count s + 1\<rparr>"
    by blast
  note ts = touch_spec [OF h inv p tc]
  let ?s4 = "s3\<lparr>data := (data s3)[nat (frame (pt_entries s3 ! nat (a div VMEM_PAGESIZE h)) *
                                          VMEM_PAGESIZE h + a mod VMEM_PAGESIZE h) := v],
                  adm_g_count := adm_g_count s + 1\<rparr>"
  have inv4: "machine_inv h ?s4"
    by (rule machine_inv_cong [OF inv3]) simp_all
  from ep ts(5) have ep': "if adm_page_rep_algo ?s4 = VMEM_ALGO_AGING
       then update_age_reset_ref h ?s4 = Inr ((), t) else t = ?s4"
    by simp
  note ee = epilogue_effect [OF h inv4 ep']
  from t have "adm_g_count t =
      adm_g_count (s3\<lparr>data := (data s3)[nat (frame (pt_entries s3 ! nat (a div VMEM_PAGESIZE h)) *
                                       VMEM_PAGESIZE h + a mod VMEM_PAGESIZE h) := v],
             adm_g_count := adm_g_count s + 1, pt_entries := pt_entries t\<rparr>)"
    by (rule arg_cong)
  then have g: "adm_g_count t = adm_g_count s + 1" by simp
  from t have "adm_page_rep_algo t =
      adm_page_rep_algo (s3\<lparr>data := (data s3)[nat (frame (pt_entries s3 ! nat (a div VMEM_PAGESIZE h)) *
                                       VMEM_PAGESIZE h + a mod VMEM_PAGESIZE h) := v],
             adm_g_count := adm_g_count s + 1, pt_entries := pt_entries t\<rparr>)"
    by (rule arg_cong)
  then have a: "adm_page_rep_algo t = adm_page_rep_algo s" by (simp add: ts(5))
  from wr ee(1) g a Write show ?thesis by simp
qed

lemma run_counts:
  assumes h: "wf_h h" and pw: "pagesize_pow2 h"
    and sz: "VMEM_NFRAMES h * VMEM_PAGESIZE h \<le> 128"
  shows "machine_inv h s \<Longrightarrow> adm_page_rep_algo s \<noteq> VMEM_ALGO_OTHER \<Longrightarrow>
         \<forall>x \<in> set xs. in_range h x \<Longrightarrow>
         \<exists>t. run h xs s = Some t \<and> machine_inv h t \<and>
              adm_g_count t = adm_g_count s + int (length xs) \<and>
              adm_page_rep_algo t = adm_page_rep_algo s"
proof (induction xs arbitrary: s)
  case Nil
  then show ?case by simp
next
  case (Cons x xs)
  from Cons.prems(3) have x: "in_range h x" and xs: "\<forall>x \<in> set xs. in_range h x"
    by simp_all
  from step_counts [OF h pw Cons.prems(1) x Cons.prems(2) sz]
  obtain s' where st: "step h x s = Some s'" and inv': "machine_inv h s'"
    and g': "adm_g_count s' = adm_g_count s + 1"
    and a': "adm_page_rep_algo s' = adm_page_rep_algo s"
    by blast
  from Cons.prems(2) a' have al': "adm_page_rep_algo s' \<noteq> VMEM_ALGO_OTHER" by simp
  from Cons.IH [OF inv' al' xs]
  obtain t where "run h xs s' = Some t" "machine_inv h t"
    "adm_g_count t = adm_g_count s' + int (length xs)"
    "adm_page_rep_algo t = adm_page_rep_algo s'"
    by blast
  with st g' a' show ?case by simp
qed


subsection \<open>The statements of allocate\_page one by one\<close>

lemma allocate_page_steps_free_eq:
  assumes ff: "find_free_frame h s = (idx, s0)" and nv: "idx \<noteq> VOID_IDX"
    and iok: "idx_ok idx (pt_framepage s0)"
    and req: "idx_ok (adm_req_pageno s0) (pt_entries s0)" "adm_req_pageno s0 < VMEM_NPAGES h"
  shows "allocate_page_steps h s =
           [s0, s0\<lparr>adm_pf_count := adm_pf_count s0 + 1\<rparr>,
            slot_taken idx (s0\<lparr>adm_pf_count := adm_pf_count s0 + 1\<rparr>),
            event_set idx (slot_taken idx (s0\<lparr>adm_pf_count := adm_pf_count s0 + 1\<rparr>)),
            log_fault idx (slot_taken idx (s0\<lparr>adm_pf_count := adm_pf_count s0 + 1\<rparr>))] @
           [enter_frame idx (s0\<lparr>adm_pf_count := adm_pf_count s0 + 1\<rparr>),
            sem_post (enter_frame idx (s0\<lparr>adm_pf_count := adm_pf_count s0 + 1\<rparr>))]"
proof -
  from iok have n: "nat idx < length (pt_framepage s0)" by (simp add: idx_ok_def nat_less_iff)
  from req(1) have r0: "\<not> adm_req_pageno s0 < 0" by (simp add: idx_ok_def)
  show ?thesis
    using nv iok req r0 n
    by (simp add: allocate_page_steps_def ff Let_def enter_frame_def log_fault_def set_frame_def
        slot_taken_def event_set_def)
qed

lemma allocate_page_steps_evict_eq:
  assumes ff: "find_free_frame h s = (VOID_IDX, s0)"
    and rm: "find_remove_frame h (s0\<lparr>adm_pf_count := adm_pf_count s0 + 1\<rparr>) = Inr (idx, u)"
    and idx: "0 \<le> idx" "idx < VMEM_NFRAMES h"
    and iok: "idx_ok idx (pt_framepage u)"
    and req: "idx_ok (adm_req_pageno u) (pt_entries u)" "adm_req_pageno u < VMEM_NPAGES h"
    and pf: "int (length (pagefile u (adm_req_pageno u))) = VMEM_PAGESIZE h"
    and sl: "slice_ok (idx * VMEM_PAGESIZE h) (VMEM_PAGESIZE h) (data u)"
  shows "allocate_page_steps h s =
           [s0, s0\<lparr>adm_pf_count := adm_pf_count s0 + 1\<rparr>, u,
            set_frame (adm_req_pageno u) idx u, fetched h idx u,
            slot_taken idx (fetched h idx u),
            event_set idx (slot_taken idx (fetched h idx u)),
            log_fault idx (slot_taken idx (fetched h idx u))] @
           [enter_frame idx (fetched h idx u), sem_post (enter_frame idx (fetched h idx u))]"
proof -
  let ?u1 = "set_frame (adm_req_pageno u) idx u"
  from req(1) have n: "nat (adm_req_pageno u) < length (pt_entries u)"
    by (simp add: idx_ok_def nat_less_iff)
  from req(1) have r0: "\<not> adm_req_pageno u < 0" by (simp add: idx_ok_def)
  have req1: "idx_ok (adm_req_pageno ?u1) (pt_entries ?u1)" "adm_req_pageno ?u1 < VMEM_NPAGES h"
    using req by (simp_all add: set_frame_def idx_ok_def)
  have fr1: "frame (pt_entries ?u1 ! nat (adm_req_pageno ?u1)) = idx"
    using n by (simp add: set_frame_def)
  have pf1: "int (length (pagefile ?u1 (adm_req_pageno ?u1))) = VMEM_PAGESIZE h"
    using pf by (simp add: set_frame_def)
  have sl1: "slice_ok (idx * VMEM_PAGESIZE h) (VMEM_PAGESIZE h) (data ?u1)"
    using sl by (simp add: set_frame_def)
  have ft: "fetch_page h (adm_req_pageno u) ?u1 = Inr ((), fetched h idx u)"
    using fetch_page_eq [OF req1 fr1 pf1 sl1]
    by (simp add: set_frame_def fetched_def)
  have iok2: "idx_ok idx (pt_framepage (fetched h idx u))"
    using iok by (simp add: fetched_def)
  from iok have ni: "nat idx < length (pt_framepage u)" by (simp add: idx_ok_def nat_less_iff)
  have req2: "idx_ok (adm_req_pageno u) (pt_entries (fetched h idx u))"
    using req(1) by (simp add: fetched_def idx_ok_def)
  note ft' = ft [unfolded set_frame_def fetched_def]
  show ?thesis
    using idx req r0 ni iok2 req2
    by (simp add: allocate_page_steps_def ff rm ft' Let_def enter_frame_def log_fault_def
        set_frame_def fetched_def slot_taken_def event_set_def)
qed

lemma allocate_page_steps_last:
  "allocate_page h s = Inr (x, t) \<or> allocate_page h s = Inl (e, t) \<Longrightarrow>
     last (allocate_page_steps h s) = t"
proof (cases "find_free_frame h s")
  case (Pair idx0 s0)
  assume res: "allocate_page h s = Inr (x, t) \<or> allocate_page h s = Inl (e, t)"
  let ?s1 = "s0\<lparr>adm_pf_count := adm_pf_count s0 + 1\<rparr>"
  note defs = allocate_page_def allocate_page_steps_def Let_def Pair
  show ?thesis
  proof (cases "idx0 = VOID_IDX")
    case False
    with res show ?thesis
      by (simp add: defs split: if_splits)
  next
    case True
    show ?thesis
    proof (cases "find_remove_frame h ?s1")
      case (Inl a)
      obtain e' s2 where a: "a = (e', s2)" by (cases a)
      from res show ?thesis
        by (simp add: defs True Inl a)
    next
      case (Inr b)
      obtain idx s2 where b: "b = (idx, s2)" by (cases b)
      show ?thesis
      proof (cases "idx < 0 \<or> idx \<ge> VMEM_NFRAMES h \<or> \<not> idx_ok (adm_req_pageno s2) (pt_entries s2)")
        case c: True
        show ?thesis
        proof (cases "idx < 0")
          case True
          from res show ?thesis
            by (simp add: defs \<open>idx0 = VOID_IDX\<close> Inr b True)
        next
          case n0: False
          show ?thesis
          proof (cases "idx \<ge> VMEM_NFRAMES h")
            case True
            from res n0 show ?thesis
              by (simp add: defs \<open>idx0 = VOID_IDX\<close> Inr b True)
          next
            case False
            with c n0 have "\<not> idx_ok (adm_req_pageno s2) (pt_entries s2)" by simp
            with res n0 False show ?thesis
              by (simp add: defs \<open>idx0 = VOID_IDX\<close> Inr b)
          qed
        qed
      next
        case c: False
        show ?thesis
        proof (cases "fetch_page h (adm_req_pageno s2) (set_frame (adm_req_pageno s2) idx s2)")
          case f: (Inl a)
          obtain e' s3 where a: "a = (e', s3)" by (cases a)
          from res c show ?thesis
            by (simp add: defs True Inr b f a)
        next
          case f: (Inr d)
          obtain u s3 where d: "d = (u, s3)" by (cases d)
          from res c show ?thesis
            by (simp add: defs True Inr b f d split: if_splits)
        qed
      qed
    qed
  qed
qed

lemma not_released_cong:
  assumes "local_sem w = local_sem s" "trace w = trace s @ evs" "Sem_post \<notin> set evs"
  shows "not_released s w"
  using assms unfolding not_released_def by blast

lemma steps_free:
  assumes h: "wf_h h" and inv: "machine_inv h s"
    and req: "idx_ok (adm_req_pageno s) (pt_entries s)"
    and free: "\<not> all_occupied s"
  shows "\<exists>pre idx. 0 \<le> idx \<and> idx < VMEM_NFRAMES h \<and>
      allocate_page_steps h s =
        pre @ [enter_frame idx (s\<lparr>event := (event s)\<lparr>le_replaced_page := VOID_IDX\<rparr>,
                                   adm_pf_count := adm_pf_count s + 1\<rparr>),
               sem_post (enter_frame idx (s\<lparr>event := (event s)\<lparr>le_replaced_page := VOID_IDX\<rparr>,
                                   adm_pf_count := adm_pf_count s + 1\<rparr>))] \<and>
      allocate_page h s =
        Inr ((), sem_post (enter_frame idx (s\<lparr>event := (event s)\<lparr>le_replaced_page := VOID_IDX\<rparr>,
                                   adm_pf_count := adm_pf_count s + 1\<rparr>))) \<and>
      (\<forall>w \<in> set pre. not_released s w)"
proof -
  from inv have lay: "layout_ok h s" by (simp add: machine_inv_def)
  let ?s0 = "s\<lparr>event := (event s)\<lparr>le_replaced_page := VOID_IDX\<rparr>\<rparr>"
  let ?s1 = "?s0\<lparr>adm_pf_count := adm_pf_count ?s0 + 1\<rparr>"
  from find_free_frame_cases [OF lay] free
  obtain idx where idx: "0 \<le> idx" "idx < VMEM_NFRAMES h"
    and ff: "find_free_frame h s = (idx, ?s0)"
    by blast
  from idx have nv: "idx \<noteq> VOID_IDX" by (simp add: VOID_IDX_def)
  from idx lay have iok: "idx_ok idx (pt_framepage ?s0)" by (simp add: idx_ok_def layout_ok_def)
  from req have r1: "idx_ok (adm_req_pageno ?s0) (pt_entries ?s0)" by simp
  from req lay have r2: "adm_req_pageno ?s0 < VMEM_NPAGES h" by (simp add: idx_ok_def layout_ok_def)
  note se = allocate_page_steps_free_eq [OF ff nv iok r1 r2]
  note ae = allocate_page_free_eq [OF ff nv iok r1 r2]
  let ?pre = "[?s0, ?s1, slot_taken idx ?s1, event_set idx (slot_taken idx ?s1),
               log_fault idx (slot_taken idx ?s1)]"
  have n0: "not_released s ?s0"
    by (rule not_released_cong [of _ _ "[]"]) simp_all
  have n1: "not_released s ?s1"
    by (rule not_released_cong [of _ _ "[]"]) simp_all
  have n2: "not_released s (slot_taken idx ?s1)"
    by (rule not_released_cong [of _ _ "[]"]) (simp_all add: slot_taken_def)
  have n3: "not_released s (event_set idx (slot_taken idx ?s1))"
    by (rule not_released_cong [of _ _ "[]"]) (simp_all add: slot_taken_def event_set_def)
  have n4: "not_released s (log_fault idx (slot_taken idx ?s1))"
    by (rule not_released_cong [of _ _ "[Logger (event (log_fault idx (slot_taken idx ?s1)))]"])
      (simp_all add: slot_taken_def log_fault_def)
  have "\<forall>w \<in> set ?pre. not_released s w"
    using n0 n1 n2 n3 n4 by simp
  with se ae idx show ?thesis
    by (intro exI [of _ ?pre] exI [of _ idx]) simp
qed

lemma steps_evict:
  assumes h: "wf_h h" and inv: "machine_inv h s"
    and req: "idx_ok (adm_req_pageno s) (pt_entries s)"
    and occ: "all_occupied s" and al: "adm_page_rep_algo s \<noteq> VMEM_ALGO_OTHER"
  shows "\<exists>pre idx u. evicts h (s\<lparr>adm_pf_count := adm_pf_count s + 1\<rparr>) idx u \<and>
      int (length (pagefile u (adm_req_pageno s))) = VMEM_PAGESIZE h \<and>
      slice_ok (idx * VMEM_PAGESIZE h) (VMEM_PAGESIZE h) (data u) \<and>
      allocate_page_steps h s =
        pre @ [enter_frame idx (fetched h idx u), sem_post (enter_frame idx (fetched h idx u))] \<and>
      allocate_page h s = Inr ((), sem_post (enter_frame idx (fetched h idx u))) \<and>
      (\<forall>w \<in> set pre. not_released s w)"
proof -
  from inv have lay: "layout_ok h s" by (simp add: machine_inv_def)
  let ?s1 = "s\<lparr>adm_pf_count := adm_pf_count s + 1\<rparr>"
  have ff: "find_free_frame h s = (VOID_IDX, s)"
  proof -
    have "False" if i: "0 \<le> idx" "idx < VMEM_NFRAMES h"
      and v: "pt_framepage s ! nat idx = VOID_IDX" for idx
    proof -
      from i lay have "nat idx < length (pt_framepage s)"
        by (simp add: layout_ok_def nat_less_iff)
      with occ v show False unfolding all_occupied_def by blast
    qed
    with find_free_frame_cases [OF lay] show ?thesis by blast
  qed
  from allocate_page_evict_result [OF h inv req occ al]
  obtain idx u where rm: "find_remove_frame h ?s1 = Inr (idx, u)"
    and ev: "evicts h ?s1 idx u"
    and eq: "allocate_page h s = Inr ((), sem_post (enter_frame idx (fetched h idx u)))"
    and pl: "int (length (pagefile u (adm_req_pageno s))) = VMEM_PAGESIZE h"
    and sl: "slice_ok (idx * VMEM_PAGESIZE h) (VMEM_PAGESIZE h) (data u)"
    by blast
  from ev have idx: "0 \<le> idx" "idx < VMEM_NFRAMES h"
    and fpu: "pt_framepage u = pt_framepage s"
    and lenu: "length (pt_entries u) = length (pt_entries s)"
    and ru: "adm_req_pageno u = adm_req_pageno s"
    and su: "local_sem u = local_sem s"
    and tu: "trace u = trace s @ (if is_dirty s (pt_framepage s ! nat idx)
                          then [Store (pt_framepage s ! nat idx) (idx * VMEM_PAGESIZE h)] else [])"
    by (simp_all add: evicts_def is_dirty_def)
  from idx lay have iok: "idx_ok idx (pt_framepage u)" by (simp add: idx_ok_def layout_ok_def fpu)
  from req have r1: "idx_ok (adm_req_pageno u) (pt_entries u)" by (simp add: idx_ok_def ru lenu)
  from req lay have r2: "adm_req_pageno u < VMEM_NPAGES h" by (simp add: idx_ok_def layout_ok_def ru)
  from pl have pl': "int (length (pagefile u (adm_req_pageno u))) = VMEM_PAGESIZE h" by (simp add: ru)
  note se = allocate_page_steps_evict_eq [OF ff rm [simplified] idx iok r1 r2 pl' sl]
  let ?st = "if is_dirty s (pt_framepage s ! nat idx)
             then [Store (pt_framepage s ! nat idx) (idx * VMEM_PAGESIZE h)] else []"
  let ?ft = "?st @ [Fetch (adm_req_pageno s) (idx * VMEM_PAGESIZE h)]"
  let ?f = "fetched h idx u"
  let ?pre = "[s, ?s1, u, set_frame (adm_req_pageno u) idx u, ?f,
               slot_taken idx ?f, event_set idx (slot_taken idx ?f),
               log_fault idx (slot_taken idx ?f)]"
  have n0: "not_released s s"
    by (rule not_released_cong [of _ _ "[]"]) simp_all
  have n1: "not_released s ?s1"
    by (rule not_released_cong [of _ _ "[]"]) simp_all
  have n2: "not_released s u"
    by (rule not_released_cong [of _ _ ?st]) (simp_all add: su tu)
  have n3: "not_released s (set_frame (adm_req_pageno u) idx u)"
    by (rule not_released_cong [of _ _ ?st]) (simp_all add: su tu set_frame_def)
  have n4: "not_released s ?f"
    by (rule not_released_cong [of _ _ ?ft]) (simp_all add: su tu ru fetched_def)
  have n5: "not_released s (slot_taken idx ?f)"
    by (rule not_released_cong [of _ _ ?ft]) (simp_all add: su tu ru fetched_def slot_taken_def)
  have n6: "not_released s (event_set idx (slot_taken idx ?f))"
    by (rule not_released_cong [of _ _ ?ft])
      (simp_all add: su tu ru fetched_def slot_taken_def event_set_def)
  have n7: "not_released s (log_fault idx (slot_taken idx ?f))"
    by (rule not_released_cong
        [of _ _ "?ft @ [Logger (event (log_fault idx (slot_taken idx ?f)))]"])
      (simp_all add: su tu ru fetched_def slot_taken_def log_fault_def)
  have "\<forall>w \<in> set ?pre. not_released s w"
    using n0 n1 n2 n3 n4 n5 n6 n7 by simp
  with se eq ev pl sl show ?thesis
    by (intro exI [of _ ?pre] exI [of _ idx] exI [of _ u]) simp
qed


subsection \<open>The concrete machines are well-formed\<close>

lemma h_small_wf: "wf_h h_small"
  by (simp add: wf_h_def h_small_def)

lemma s_full_layout: "layout_ok h_small (s_full a)"
  by (simp add: layout_ok_def h_small_def s_full_def)

lemma s_full_frames: "frames_agree (s_full a)"
  by (simp add: frames_agree_def s_full_def less_Suc_eq idx_ok_def VOID_IDX_def)

lemma s_full_pages: "pages_agree (s_full a)"
  by (simp add: pages_agree_def s_full_def less_Suc_eq idx_ok_def VOID_IDX_def)

lemma s_full_pagefile: "pagefile_ok h_small (s_full a)"
  by (simp add: pagefile_ok_def s_full_def h_small_def pf_small_def)

lemma s_full_cursor: "cursor_ok h_small (s_full a)"
  by (simp add: cursor_ok_def s_full_def h_small_def)

lemma s_full_occupied: "all_occupied (s_full a)"
  by (simp add: all_occupied_def s_full_def less_Suc_eq VOID_IDX_def)

lemma s_fault_inv: "machine_inv h_small (s_fault a)"
  by (simp add: machine_inv_def layout_ok_def pagefile_ok_def frames_agree_def pages_agree_def
      cursor_ok_def s_fault_def s_full_def h_small_def pf_small_def less_Suc_eq idx_ok_def
      VOID_IDX_def)

lemma s_fault_occupied: "all_occupied (s_fault a)"
  by (simp add: all_occupied_def s_fault_def s_full_def less_Suc_eq VOID_IDX_def)

lemma s_fault_req: "idx_ok (adm_req_pageno (s_fault a)) (pt_entries (s_fault a))"
  by (simp add: s_fault_def s_full_def idx_ok_def)

lemma s_fault_nonres: "frame (pt_entries (s_fault a) ! nat (adm_req_pageno (s_fault a))) = VOID_IDX"
  by (simp add: s_fault_def s_full_def VOID_IDX_def)

lemma s_fault_algo: "adm_page_rep_algo (s_fault VMEM_ALGO_FIFO) \<noteq> VMEM_ALGO_OTHER"
  by (simp add: s_fault_def s_full_def)

lemma h_small_pow2: "pagesize_pow2 h_small"
  unfolding pagesize_pow2_def h_small_def by (rule exI [of _ 3]) simp

lemma s_full_inv: "machine_inv h_small (s_full a)"
  by (simp add: machine_inv_def s_full_layout s_full_pagefile s_full_frames s_full_pages
      s_full_cursor)

lemma s_first_inv: "machine_inv h_small (s_first a)"
  by (simp add: machine_inv_def layout_ok_def pagefile_ok_def frames_agree_def pages_agree_def
      cursor_ok_def s_first_def h_small_def pf_small_def less_Suc_eq idx_ok_def
      VOID_IDX_def)


section \<open>The claims\<close>

subsection \<open>C1: the frame table and the page table agree\<close>

text \<open>
  Claim C1: when the tables agree and the manager handles a fault for a page that is in
  range and not resident, as the client raises it, and the handling is completed, the
  tables agree again: the page of every occupied frame is in range, it is the one and only
  page whose \<^verbatim>\<open>frame\<close> is this frame, and no two pages have the same frame.
\<close>

theorem fault_keeps_tables_consistent:
  assumes "wf_h h" and "machine_inv h s"
    and "idx_ok (adm_req_pageno s) (pt_entries s)"
    and "frame (pt_entries s ! nat (adm_req_pageno s)) = VOID_IDX"
    and "allocate_page h s = Inr (x, t)"
  shows "tables_consistent t \<and> machine_inv h t"
proof -
  from allocate_page_inv [OF assms] have inv: "machine_inv h t" .
  then have "frames_agree t" "pages_agree t" by (simp_all add: machine_inv_def)
  then have "tables_consistent t" by (rule agree_consistent)
  with inv show ?thesis by simp
qed

theorem fault_keeps_tables_consistent_witness:
  "wf_h h_small \<and> machine_inv h_small (s_fault VMEM_ALGO_FIFO) \<and>
   idx_ok (adm_req_pageno (s_fault VMEM_ALGO_FIFO)) (pt_entries (s_fault VMEM_ALGO_FIFO)) \<and>
   frame (pt_entries (s_fault VMEM_ALGO_FIFO) ! nat (adm_req_pageno (s_fault VMEM_ALGO_FIFO))) =
     VOID_IDX \<and>
   (\<exists>t. allocate_page h_small (s_fault VMEM_ALGO_FIFO) = Inr ((), t) \<and>
        tables_consistent t \<and> machine_inv h_small t \<and>
        pt_framepage t = [2, 1] \<and> map frame (pt_entries t) = [VOID_IDX, 1, 0, VOID_IDX])"
proof -
  obtain t where t: "allocate_page h_small (s_fault VMEM_ALGO_FIFO) = Inr ((), t)"
    and fp: "pt_framepage t = [2, 1]" and fs: "map frame (pt_entries t) = [VOID_IDX, 1, 0, VOID_IDX]"
  proof -
    have "map_sum fst (\<lambda>(u, t). (pt_framepage t, map frame (pt_entries t)))
            (allocate_page h_small (s_fault VMEM_ALGO_FIFO)) = Inr ([2, 1], [VOID_IDX, 1, 0, VOID_IDX])"
      by code_simp
    then show ?thesis
      by (cases "allocate_page h_small (s_fault VMEM_ALGO_FIFO)") (auto intro: that)
  qed
  from fault_keeps_tables_consistent [OF h_small_wf s_fault_inv s_fault_req s_fault_nonres t]
    h_small_wf s_fault_inv s_fault_req s_fault_nonres t fp fs
  show ?thesis by simp
qed


subsection \<open>C2: the frame of a fault\<close>

text \<open>
  Claim C2: a fault for a page in range, with a policy selected, is completed; the fault
  counter grows by one. When a frame is free, the requested page gets the free frame with
  the smallest index, nothing is read from the pagefile and no page is evicted: the frame
  data, the pagefile, the cursor and all other page table entries are as before, and the
  fault adds the log record and the release to the trace and nothing else. When no frame
  is free, the frame is the one that \<^verbatim>\<open>find_remove_frame\<close> returns, the page is read
  from the pagefile once, after the eviction, and the frame then holds the words of the
  page in the pagefile.
\<close>

theorem allocate_page_frame_and_fetch:
  assumes "wf_h h" and "machine_inv h s"
    and "idx_ok (adm_req_pageno s) (pt_entries s)"
    and "adm_page_rep_algo s \<noteq> VMEM_ALGO_OTHER"
  shows "\<exists>t idx. allocate_page h s = Inr ((), t) \<and>
      adm_pf_count t = adm_pf_count s + 1 \<and>
      0 \<le> idx \<and> idx < VMEM_NFRAMES h \<and>
      frame (pt_entries t ! nat (adm_req_pageno s)) = idx \<and>
      pt_framepage t ! nat idx = adm_req_pageno s \<and>
      (\<not> all_occupied s \<longrightarrow>
         pt_framepage s ! nat idx = VOID_IDX \<and>
         (\<forall>k. 0 \<le> k \<and> k < idx \<longrightarrow> pt_framepage s ! nat k \<noteq> VOID_IDX) \<and>
         trace t = trace s @ [Logger (event t), Sem_post] \<and>
         data t = data s \<and> pagefile t = pagefile s \<and>
         fifo_current t = fifo_current s \<and> adm_next_alloc_idx t = adm_next_alloc_idx s \<and>
         pt_entries t = (pt_entries s)[nat (adm_req_pageno s) :=
                           (pt_entries s ! nat (adm_req_pageno s))\<lparr>frame := idx\<rparr>] \<and>
         le_replaced_page (event t) = VOID_IDX) \<and>
      (all_occupied s \<longrightarrow>
         (\<exists>u. find_remove_frame h (s\<lparr>adm_pf_count := adm_pf_count s + 1\<rparr>) = Inr (idx, u) \<and>
            trace t = trace u @ [Fetch (adm_req_pageno s) (idx * VMEM_PAGESIZE h),
                                 Logger (event t), Sem_post] \<and>
            pagefile t = pagefile u \<and>
            frame_words h t idx = pagefile u (adm_req_pageno s)))"
proof (cases "all_occupied s")
  case True
  from allocate_page_evict_result [OF assms(1-3) True assms(4)]
  obtain idx u where rm: "find_remove_frame h (s\<lparr>adm_pf_count := adm_pf_count s + 1\<rparr>) = Inr (idx, u)"
    and ev: "evicts h (s\<lparr>adm_pf_count := adm_pf_count s + 1\<rparr>) idx u"
    and eq: "allocate_page h s = Inr ((), sem_post (enter_frame idx (fetched h idx u)))"
    and pl: "int (length (pagefile u (adm_req_pageno s))) = VMEM_PAGESIZE h"
    and sl: "slice_ok (idx * VMEM_PAGESIZE h) (VMEM_PAGESIZE h) (data u)"
    by blast
  let ?t = "sem_post (enter_frame idx (fetched h idx u))"
  from ev have idx: "0 \<le> idx" "idx < VMEM_NFRAMES h"
    and fpu: "pt_framepage u = pt_framepage s"
    and lenu: "length (pt_entries u) = length (pt_entries s)"
    and ru: "adm_req_pageno u = adm_req_pageno s"
    and pcu: "adm_pf_count u = adm_pf_count s + 1"
    by (simp_all add: evicts_def)
  from assms(3) have rn: "nat (adm_req_pageno s) < length (pt_entries u)"
    by (simp add: idx_ok_def nat_less_iff lenu)
  from assms(2) idx have ni: "nat idx < length (pt_framepage u)"
    by (simp add: machine_inv_def layout_ok_def fpu nat_less_iff)
  have "adm_pf_count ?t = adm_pf_count s + 1"
    by (simp add: sem_post_def enter_frame_def log_fault_def set_frame_def fetched_def pcu)
  moreover have "frame (pt_entries ?t ! nat (adm_req_pageno s)) = idx"
    using rn by (simp add: sem_post_def enter_frame_def log_fault_def set_frame_def fetched_def ru)
  moreover have "pt_framepage ?t ! nat idx = adm_req_pageno s"
    using ni by (simp add: sem_post_def enter_frame_def log_fault_def set_frame_def fetched_def ru)
  moreover have "trace ?t = trace u @ [Fetch (adm_req_pageno s) (idx * VMEM_PAGESIZE h),
                                 Logger (event ?t), Sem_post]"
    by (simp add: sem_post_def enter_frame_def log_fault_def set_frame_def fetched_def ru)
  moreover have "pagefile ?t = pagefile u"
    by (simp add: sem_post_def enter_frame_def log_fault_def set_frame_def fetched_def)
  moreover have "frame_words h ?t idx = pagefile u (adm_req_pageno s)"
    using fetched_frame_words [OF sl pl]
    by (simp add: frame_words_def sem_post_def enter_frame_def log_fault_def set_frame_def
        fetched_def ru)
  ultimately show ?thesis using eq rm idx True by blast
next
  case False
  from assms(2) have lay: "layout_ok h s" and pf: "pagefile_ok h s" and fr: "frames_agree s"
    and cur: "cursor_ok h s"
    by (simp_all add: machine_inv_def)
  from allocate_page_cases [OF assms(1) lay pf fr cur assms(3)] False
  obtain idx where idx: "0 \<le> idx" "idx < VMEM_NFRAMES h"
    and v: "pt_framepage s ! nat idx = VOID_IDX"
    and least: "\<forall>k. 0 \<le> k \<and> k < idx \<longrightarrow> pt_framepage s ! nat k \<noteq> VOID_IDX"
    and eq: "allocate_page h s =
              Inr ((), sem_post (enter_frame idx
                         (s\<lparr>event := (event s)\<lparr>le_replaced_page := VOID_IDX\<rparr>,
                            adm_pf_count := adm_pf_count s + 1\<rparr>)))"
    by blast
  let ?t = "sem_post (enter_frame idx
                         (s\<lparr>event := (event s)\<lparr>le_replaced_page := VOID_IDX\<rparr>,
                            adm_pf_count := adm_pf_count s + 1\<rparr>))"
  from assms(3) have rn: "nat (adm_req_pageno s) < length (pt_entries s)"
    by (simp add: idx_ok_def nat_less_iff)
  from lay idx have ni: "nat idx < length (pt_framepage s)"
    by (simp add: layout_ok_def nat_less_iff)
  have "adm_pf_count ?t = adm_pf_count s + 1"
    and "trace ?t = trace s @ [Logger (event ?t), Sem_post]"
    and "data ?t = data s" and "pagefile ?t = pagefile s"
    and "fifo_current ?t = fifo_current s" and "adm_next_alloc_idx ?t = adm_next_alloc_idx s"
    and "pt_entries ?t = (pt_entries s)[nat (adm_req_pageno s) :=
                           (pt_entries s ! nat (adm_req_pageno s))\<lparr>frame := idx\<rparr>]"
    and "le_replaced_page (event ?t) = VOID_IDX"
    by (simp_all add: sem_post_def enter_frame_def log_fault_def set_frame_def)
  moreover have "frame (pt_entries ?t ! nat (adm_req_pageno s)) = idx"
    using rn by (simp add: sem_post_def enter_frame_def log_fault_def set_frame_def)
  moreover have "pt_framepage ?t ! nat idx = adm_req_pageno s"
    using ni by (simp add: sem_post_def enter_frame_def log_fault_def set_frame_def)
  ultimately show ?thesis using eq idx v least False by blast
qed

theorem allocate_page_frame_and_fetch_witness:
  "wf_h h_small \<and> machine_inv h_small (s_fault VMEM_ALGO_FIFO) \<and>
   idx_ok (adm_req_pageno (s_fault VMEM_ALGO_FIFO)) (pt_entries (s_fault VMEM_ALGO_FIFO)) \<and>
   adm_page_rep_algo (s_fault VMEM_ALGO_FIFO) \<noteq> VMEM_ALGO_OTHER \<and>
   all_occupied (s_fault VMEM_ALGO_FIFO) \<and>
   (\<exists>t idx u. allocate_page h_small (s_fault VMEM_ALGO_FIFO) = Inr ((), t) \<and>
      adm_pf_count t = 3 \<and>
      find_remove_frame h_small ((s_fault VMEM_ALGO_FIFO)\<lparr>adm_pf_count := 3\<rparr>) = Inr (idx, u) \<and>
      frame (pt_entries t ! 2) = idx \<and>
      trace t = trace u @ [Fetch 2 (idx * 8), Logger (event t), Sem_post])"
proof -
  have pc: "adm_pf_count (s_fault VMEM_ALGO_FIFO) = 2" and rq: "adm_req_pageno (s_fault VMEM_ALGO_FIFO) = 2"
    by (simp_all add: s_fault_def s_full_def)
  from allocate_page_frame_and_fetch [OF h_small_wf s_fault_inv s_fault_req s_fault_algo]
    s_fault_occupied [of VMEM_ALGO_FIFO]
  have "\<exists>t idx u. allocate_page h_small (s_fault VMEM_ALGO_FIFO) = Inr ((), t) \<and>
      adm_pf_count t = 3 \<and>
      find_remove_frame h_small ((s_fault VMEM_ALGO_FIFO)\<lparr>adm_pf_count := 3\<rparr>) = Inr (idx, u) \<and>
      frame (pt_entries t ! 2) = idx \<and>
      trace t = trace u @ [Fetch 2 (idx * 8), Logger (event t), Sem_post]"
    by (simp add: pc rq h_small_def) blast
  with h_small_wf s_fault_inv s_fault_req s_fault_algo s_fault_occupied show ?thesis
    by blast
qed


subsection \<open>C3: dirty victims are written back\<close>

text \<open>
  Claim C3: when every frame is occupied and one of the three policies is selected,
  \<^verbatim>\<open>find_remove_frame\<close> returns a frame; if the page of this frame is dirty, the words of
  the frame are written to the pagefile under the number of the page, and this is the only
  write; if it is not dirty, the pagefile is not written. When \<^verbatim>\<open>find_remove_frame\<close>
  returns, the page is marked as not resident, and the frame table and the frame data are
  untouched: the frame has not been given to another page yet.
\<close>

theorem eviction_writes_back_iff_dirty:
  assumes "wf_h h" and "layout_ok h s" and "frames_agree s" and "cursor_ok h s"
    and "all_occupied s" and "adm_page_rep_algo s \<noteq> VMEM_ALGO_OTHER"
  shows "\<exists>idx u. find_remove_frame h s = Inr (idx, u) \<and>
      0 \<le> idx \<and> idx < VMEM_NFRAMES h \<and>
      (is_dirty s (pt_framepage s ! nat idx) \<longrightarrow>
         pagefile u = (pagefile s)(pt_framepage s ! nat idx := frame_words h s idx) \<and>
         trace u = trace s @ [Store (pt_framepage s ! nat idx) (idx * VMEM_PAGESIZE h)]) \<and>
      (\<not> is_dirty s (pt_framepage s ! nat idx) \<longrightarrow>
         pagefile u = pagefile s \<and> trace u = trace s) \<and>
      frame (pt_entries u ! nat (pt_framepage s ! nat idx)) = VOID_IDX \<and>
      pt_framepage u = pt_framepage s \<and> data u = data s"
proof -
  from find_remove_frame_evicts [OF assms]
  obtain idx u where rm: "find_remove_frame h s = Inr (idx, u)" and ev: "evicts h s idx u"
    by blast
  from ev have idx: "0 \<le> idx" "idx < VMEM_NFRAMES h"
    and lenu: "length (pt_entries u) = length (pt_entries s)"
    and mf: "map frame (pt_entries u) =
        (map frame (pt_entries s))[nat (pt_framepage s ! nat idx) := VOID_IDX]"
    by (simp_all add: evicts_def)
  from idx assms(2) have "idx < int (length (pt_framepage s))" by (simp add: layout_ok_def)
  from occupied_page(1) [OF assms(3,5) idx(1) this]
  have en: "nat (pt_framepage s ! nat idx) < length (pt_entries s)"
    by (simp add: idx_ok_def nat_less_iff)
  have "frame (pt_entries u ! nat (pt_framepage s ! nat idx)) =
      map frame (pt_entries u) ! nat (pt_framepage s ! nat idx)"
    using en lenu by simp
  also have "\<dots> = VOID_IDX"
    using en by (simp add: mf)
  finally have "frame (pt_entries u ! nat (pt_framepage s ! nat idx)) = VOID_IDX" .
  with rm ev show ?thesis
    by (auto simp: evicts_def)
qed

theorem eviction_writes_back_iff_dirty_witness:
  "wf_h h_small \<and> layout_ok h_small (s_full VMEM_ALGO_FIFO) \<and>
   frames_agree (s_full VMEM_ALGO_FIFO) \<and> cursor_ok h_small (s_full VMEM_ALGO_FIFO) \<and>
   all_occupied (s_full VMEM_ALGO_FIFO) \<and>
   adm_page_rep_algo (s_full VMEM_ALGO_FIFO) \<noteq> VMEM_ALGO_OTHER \<and>
   is_dirty (s_full VMEM_ALGO_FIFO) 0 \<and>
   (\<exists>u. find_remove_frame h_small (s_full VMEM_ALGO_FIFO) = Inr (0, u) \<and>
        pagefile u = pf_small(0 := [7, 0, 0, 0, 0, 0, 0, 0]) \<and>
        trace u = trace (s_full VMEM_ALGO_FIFO) @ [Store 0 0] \<and>
        frame (pt_entries u ! 0) = VOID_IDX)"
proof -
  have al: "adm_page_rep_algo (s_full VMEM_ALGO_FIFO) \<noteq> VMEM_ALGO_OTHER"
    by (simp add: s_full_def)
  have d: "is_dirty (s_full VMEM_ALGO_FIFO) 0"
    by (simp add: is_dirty_def s_full_def PTF_DIRTY_def)
  have v: "map_sum fst fst (find_remove_frame h_small (s_full VMEM_ALGO_FIFO)) = Inr 0"
    by code_simp
  have fp: "pt_framepage (s_full VMEM_ALGO_FIFO) ! 0 = 0"
    and fw: "frame_words h_small (s_full VMEM_ALGO_FIFO) 0 = [7, 0, 0, 0, 0, 0, 0, 0]"
    and pfs: "pagefile (s_full VMEM_ALGO_FIFO) = pf_small"
    by (simp_all add: s_full_def frame_words_def h_small_def)
  from eviction_writes_back_iff_dirty [OF h_small_wf s_full_layout s_full_frames s_full_cursor
      s_full_occupied al]
  obtain idx u where rm: "find_remove_frame h_small (s_full VMEM_ALGO_FIFO) = Inr (idx, u)"
    and dirty: "is_dirty (s_full VMEM_ALGO_FIFO) (pt_framepage (s_full VMEM_ALGO_FIFO) ! nat idx) \<longrightarrow>
         pagefile u = (pagefile (s_full VMEM_ALGO_FIFO))
            (pt_framepage (s_full VMEM_ALGO_FIFO) ! nat idx := frame_words h_small (s_full VMEM_ALGO_FIFO) idx) \<and>
         trace u = trace (s_full VMEM_ALGO_FIFO) @
            [Store (pt_framepage (s_full VMEM_ALGO_FIFO) ! nat idx) (idx * VMEM_PAGESIZE h_small)]"
    and gone: "frame (pt_entries u ! nat (pt_framepage (s_full VMEM_ALGO_FIFO) ! nat idx)) = VOID_IDX"
    by blast
  from v rm have i0: "idx = 0" by simp
  from dirty gone d rm have "find_remove_frame h_small (s_full VMEM_ALGO_FIFO) = Inr (0, u) \<and>
        pagefile u = pf_small(0 := [7, 0, 0, 0, 0, 0, 0, 0]) \<and>
        trace u = trace (s_full VMEM_ALGO_FIFO) @ [Store 0 0] \<and>
        frame (pt_entries u ! 0) = VOID_IDX"
    unfolding i0 by (simp add: fp fw pfs)
  with h_small_wf s_full_layout s_full_frames s_full_cursor s_full_occupied al d
  show ?thesis by blast
qed


subsection \<open>C4: the victim of the aging policy\<close>

text \<open>
  Claim C4, as the spec states it: with all frames occupied, the aging policy picks the page
  with the smallest age and resolves ties by the lowest frame index. It does not: in
  \<open>s_full\<close> the pages of the frames 0 and 1 both have the age \<open>0x80\<close>, the spec names the
  frame 0 and \<^verbatim>\<open>find_remove_aging\<close> returns the frame 1, because the scan replaces its
  candidate whenever the age is less than or equal to the smallest seen so far.
\<close>

theorem aging_tie_counterexample:
  "map_sum fst fst (find_remove_aging h_small (s_full VMEM_ALGO_AGING)) = Inr 1 \<and>
   aging_victim_spec h_small (s_full VMEM_ALGO_AGING) = 0 \<and>
   frame_age (s_full VMEM_ALGO_AGING) 0 = frame_age (s_full VMEM_ALGO_AGING) 1"
proof (intro conjI)
  show "map_sum fst fst (find_remove_aging h_small (s_full VMEM_ALGO_AGING)) = Inr 1"
    by code_simp
  show "aging_victim_spec h_small (s_full VMEM_ALGO_AGING) = 0"
    by code_simp
  show "frame_age (s_full VMEM_ALGO_AGING) 0 = frame_age (s_full VMEM_ALGO_AGING) 1"
    by (simp add: frame_age_def s_full_def)
qed

text \<open>
  Claim C4, amended: with all frames occupied, \<^verbatim>\<open>find_remove_aging\<close> returns a frame
  whose page has the smallest age of all frames, and among those frames the one with the
  highest index (every later frame holds a page that is strictly older in the counter's
  order, that is, has a greater age); in the state it returns, the evicted page has the age
  \<open>0x80\<close> of \<^verbatim>\<open>vmem_init\<close> and is not resident.
\<close>

theorem aging_victim_last_minimum:
  assumes "wf_h h" and "layout_ok h s" and "frames_agree s" and "cursor_ok h s"
    and "all_occupied s"
  shows "\<exists>idx t. find_remove_aging h s = Inr (idx, t) \<and>
           0 \<le> idx \<and> idx < VMEM_NFRAMES h \<and>
           (\<forall>k. 0 \<le> k \<and> k < VMEM_NFRAMES h \<longrightarrow> frame_age s idx \<le> frame_age s k) \<and>
           (\<forall>k. idx < k \<and> k < VMEM_NFRAMES h \<longrightarrow> frame_age s idx < frame_age s k) \<and>
           age (pt_entries t ! nat (pt_framepage s ! nat idx)) = 0x80 \<and>
           frame (pt_entries t ! nat (pt_framepage s ! nat idx)) = VOID_IDX"
proof -
  from aging_evicts [OF assms]
  obtain idx t where "find_remove_aging h s = Inr (idx, t)" and "evicts h s idx t"
    and "\<forall>k. 0 \<le> k \<and> k < VMEM_NFRAMES h \<longrightarrow> frame_age s idx \<le> frame_age s k"
    and "\<forall>k. idx < k \<and> k < VMEM_NFRAMES h \<longrightarrow> frame_age s idx < frame_age s k"
    and "age (pt_entries t ! nat (pt_framepage s ! nat idx)) = 0x80"
    and "frame (pt_entries t ! nat (pt_framepage s ! nat idx)) = VOID_IDX"
    by blast
  moreover from \<open>evicts h s idx t\<close> have "0 \<le> idx \<and> idx < VMEM_NFRAMES h"
    by (simp add: evicts_def)
  ultimately show ?thesis by blast
qed

theorem aging_victim_last_minimum_witness:
  "wf_h h_small \<and> layout_ok h_small (s_full VMEM_ALGO_AGING) \<and>
   frames_agree (s_full VMEM_ALGO_AGING) \<and> cursor_ok h_small (s_full VMEM_ALGO_AGING) \<and>
   all_occupied (s_full VMEM_ALGO_AGING) \<and>
   (\<exists>idx t. find_remove_aging h_small (s_full VMEM_ALGO_AGING) = Inr (idx, t) \<and>
      0 \<le> idx \<and> idx < VMEM_NFRAMES h_small \<and>
      (\<forall>k. 0 \<le> k \<and> k < VMEM_NFRAMES h_small \<longrightarrow>
         frame_age (s_full VMEM_ALGO_AGING) idx \<le> frame_age (s_full VMEM_ALGO_AGING) k) \<and>
      (\<forall>k. idx < k \<and> k < VMEM_NFRAMES h_small \<longrightarrow>
         frame_age (s_full VMEM_ALGO_AGING) idx < frame_age (s_full VMEM_ALGO_AGING) k) \<and>
      age (pt_entries t ! nat (pt_framepage (s_full VMEM_ALGO_AGING) ! nat idx)) = 0x80 \<and>
      frame (pt_entries t ! nat (pt_framepage (s_full VMEM_ALGO_AGING) ! nat idx)) = VOID_IDX)"
  using aging_victim_last_minimum [OF h_small_wf s_full_layout s_full_frames s_full_cursor
      s_full_occupied, of VMEM_ALGO_AGING]
    h_small_wf s_full_layout s_full_frames s_full_cursor s_full_occupied
  by simp


subsection \<open>C5: the second chance of the clock policy\<close>

lemma second_chance_clears:
  assumes "idx_ok (visited_page h s) (pt_entries s)" and "is_ref s (visited_page h s)"
  shows "\<not> is_ref (second_chance h s) (visited_page h s)"
proof -
  from assms(1) have n: "nat (visited_page h s) < length (pt_entries s)"
    by (simp add: idx_ok_def nat_less_iff)
  from assms(2) have P: "flags (pt_entries s ! nat (visited_page h s)) AND PTF_REF = PTF_REF"
    by (simp add: is_ref_def)
  have "PTF_REF \<noteq> 0" by (simp add: PTF_REF_def)
  with ref_xor_clears [OF P] n show ?thesis
    by (simp add: is_ref_def second_chance_def set_flags_def clock_turn_def)
qed

lemma second_chance_funpow_pre:
  assumes "wf_h h" "layout_ok h s" "frames_agree s" "cursor_ok h s" "all_occupied s"
  shows "layout_ok h ((second_chance h ^^ m) s) \<and> frames_agree ((second_chance h ^^ m) s) \<and>
         cursor_ok h ((second_chance h ^^ m) s) \<and> all_occupied ((second_chance h ^^ m) s)"
proof (induction m)
  case 0
  from assms show ?case by simp
next
  case (Suc m)
  then show ?case
    using second_chance_pre [OF assms(1), of "(second_chance h ^^ m) s"] by simp
qed

text \<open>
  Claim C5: with all frames occupied, \<^verbatim>\<open>find_remove_clock\<close> makes some number \<open>n\<close> of
  turns that do not evict and then one that does. In each of the \<open>n\<close> turns the cursor
  moves on circularly to its next frame, the page of that frame has \<^verbatim>\<open>PTF_REF\<close> set and
  loses it, and no page loses its frame. The turn after them finds a page whose
  \<^verbatim>\<open>PTF_REF\<close> is clear; its frame is the result, and only this page loses its frame.
\<close>

theorem clock_second_chance:
  assumes "wf_h h" and "layout_ok h s" and "frames_agree s" and "cursor_ok h s"
    and "all_occupied s"
  shows "\<exists>n t.
      (\<forall>m<n. is_ref ((second_chance h ^^ m) s) (visited_page h ((second_chance h ^^ m) s)) \<and>
              \<not> is_ref ((second_chance h ^^ Suc m) s) (visited_page h ((second_chance h ^^ m) s)) \<and>
              fifo_current ((second_chance h ^^ Suc m) s) =
                next_frame h (fifo_current ((second_chance h ^^ m) s)) \<and>
              map frame (pt_entries ((second_chance h ^^ Suc m) s)) =
                map frame (pt_entries ((second_chance h ^^ m) s))) \<and>
      \<not> is_ref ((second_chance h ^^ n) s) (visited_page h ((second_chance h ^^ n) s)) \<and>
      find_remove_clock h s = Inr (next_frame h (fifo_current ((second_chance h ^^ n) s)), t) \<and>
      fifo_current t = next_frame h (fifo_current ((second_chance h ^^ n) s)) \<and>
      map frame (pt_entries t) =
        (map frame (pt_entries s))[nat (visited_page h ((second_chance h ^^ n) s)) := VOID_IDX] \<and>
      map flags (pt_entries t) = map flags (pt_entries ((second_chance h ^^ n) s))"
proof -
  let ?S = "\<lambda>m. (second_chance h ^^ m) s"
  from clock_loop [OF assms]
  obtain n where skipped: "\<forall>m<n. is_ref (?S m) (visited_page h (?S m))"
    and stop: "\<not> is_ref (?S n) (visited_page h (?S n))"
    and res: "find_remove_clock h s =
        Inr (next_frame h (fifo_current (?S n)),
             after_removal h (visited_page h (?S n)) (clock_turn h (?S n)))"
    and ev: "evicts h s (next_frame h (fifo_current (?S n)))
        (after_removal h (visited_page h (?S n)) (clock_turn h (?S n)))"
    by blast
  let ?t = "after_removal h (visited_page h (?S n)) (clock_turn h (?S n))"
  have pre: "layout_ok h (?S m) \<and> frames_agree (?S m) \<and> cursor_ok h (?S m) \<and> all_occupied (?S m)"
    for m by (rule second_chance_funpow_pre [OF assms])
  have fp: "pt_framepage (?S m) = pt_framepage s" for m
    by (induction m) (simp_all add: second_chance_fields)
  have vok: "idx_ok (visited_page h (?S m)) (pt_entries (?S m))" for m
  proof -
    from pre [of m] have lay: "layout_ok h (?S m)" and fr: "frames_agree (?S m)"
      and cur: "cursor_ok h (?S m)" and occ: "all_occupied (?S m)" by simp_all
    from next_frame_range [OF assms(1) cur] lay
    have "0 \<le> next_frame h (fifo_current (?S m))"
      and "next_frame h (fifo_current (?S m)) < int (length (pt_framepage (?S m)))"
      by (simp_all add: layout_ok_def)
    from occupied_page(1) [OF fr occ this] show ?thesis
      by (simp add: visited_page_def)
  qed
  have turns: "\<forall>m<n. is_ref (?S m) (visited_page h (?S m)) \<and>
              \<not> is_ref (?S (Suc m)) (visited_page h (?S m)) \<and>
              fifo_current (?S (Suc m)) = next_frame h (fifo_current (?S m)) \<and>
              map frame (pt_entries (?S (Suc m))) = map frame (pt_entries (?S m))"
  proof (intro allI impI)
    fix m assume "m < n"
    with skipped have r: "is_ref (?S m) (visited_page h (?S m))" by blast
    from second_chance_clears [OF vok r] r
    show "is_ref (?S m) (visited_page h (?S m)) \<and>
              \<not> is_ref (?S (Suc m)) (visited_page h (?S m)) \<and>
              fifo_current (?S (Suc m)) = next_frame h (fifo_current (?S m)) \<and>
              map frame (pt_entries (?S (Suc m))) = map frame (pt_entries (?S m))"
      by (simp add: second_chance_fields)
  qed
  have vp: "pt_framepage s ! nat (next_frame h (fifo_current (?S n))) = visited_page h (?S n)"
    by (simp add: visited_page_def fp)
  from ev have fr_t: "map frame (pt_entries ?t) =
      (map frame (pt_entries s))[nat (visited_page h (?S n)) := VOID_IDX]"
    by (simp add: evicts_def vp)
  have fl_t: "map flags (pt_entries ?t) = map flags (pt_entries (?S n))"
    by (cases "nat (visited_page h (?S n)) < length (pt_entries (?S n))")
      (auto simp: after_removal_def clock_turn_def list_eq_iff_nth_eq nth_list_update)
  have cur_t: "fifo_current ?t = next_frame h (fifo_current (?S n))"
    by (simp add: after_removal_def clock_turn_def)
  from turns stop res cur_t fr_t fl_t show ?thesis
    by blast
qed

theorem clock_second_chance_witness:
  "wf_h h_small \<and> layout_ok h_small (s_full VMEM_ALGO_CLOCK) \<and>
   frames_agree (s_full VMEM_ALGO_CLOCK) \<and> cursor_ok h_small (s_full VMEM_ALGO_CLOCK) \<and>
   all_occupied (s_full VMEM_ALGO_CLOCK) \<and>
   (\<exists>n t.
      (\<forall>m<n. is_ref ((second_chance h_small ^^ m) (s_full VMEM_ALGO_CLOCK))
                (visited_page h_small ((second_chance h_small ^^ m) (s_full VMEM_ALGO_CLOCK))) \<and>
              \<not> is_ref ((second_chance h_small ^^ Suc m) (s_full VMEM_ALGO_CLOCK))
                (visited_page h_small ((second_chance h_small ^^ m) (s_full VMEM_ALGO_CLOCK))) \<and>
              fifo_current ((second_chance h_small ^^ Suc m) (s_full VMEM_ALGO_CLOCK)) =
                next_frame h_small
                  (fifo_current ((second_chance h_small ^^ m) (s_full VMEM_ALGO_CLOCK))) \<and>
              map frame (pt_entries ((second_chance h_small ^^ Suc m) (s_full VMEM_ALGO_CLOCK))) =
                map frame (pt_entries ((second_chance h_small ^^ m) (s_full VMEM_ALGO_CLOCK)))) \<and>
      \<not> is_ref ((second_chance h_small ^^ n) (s_full VMEM_ALGO_CLOCK))
          (visited_page h_small ((second_chance h_small ^^ n) (s_full VMEM_ALGO_CLOCK))) \<and>
      find_remove_clock h_small (s_full VMEM_ALGO_CLOCK) =
        Inr (next_frame h_small
               (fifo_current ((second_chance h_small ^^ n) (s_full VMEM_ALGO_CLOCK))), t) \<and>
      fifo_current t =
        next_frame h_small (fifo_current ((second_chance h_small ^^ n) (s_full VMEM_ALGO_CLOCK))) \<and>
      map frame (pt_entries t) =
        (map frame (pt_entries (s_full VMEM_ALGO_CLOCK)))
          [nat (visited_page h_small ((second_chance h_small ^^ n) (s_full VMEM_ALGO_CLOCK))) :=
             VOID_IDX] \<and>
      map flags (pt_entries t) =
        map flags (pt_entries ((second_chance h_small ^^ n) (s_full VMEM_ALGO_CLOCK))))"
  using clock_second_chance [OF h_small_wf s_full_layout s_full_frames s_full_cursor
      s_full_occupied, of VMEM_ALGO_CLOCK]
    h_small_wf s_full_layout s_full_frames s_full_cursor s_full_occupied
  by simp


subsection \<open>C6: the aging pass\<close>

text \<open>
  Claim C6: an access to an address in range, with a policy selected and frame data of at
  most 128 words, returns. It makes the page resident, reads or writes the word, adds one
  to the access counter, and after that, exactly when the aging policy is selected, it
  calls \<^verbatim>\<open>update_age_reset_ref\<close> once, on the state with the new counter. This function
  returns; it leaves the state as it is unless the access counter is a multiple of
  \<^verbatim>\<open>UPDATE_AGE_COUNT\<close>. If it is, the age of every resident page becomes half of what it
  was (integer division), with the top bit \<open>0x80\<close> set when the page's \<^verbatim>\<open>PTF_REF\<close> was set;
  the \<^verbatim>\<open>PTF_REF\<close> of every resident page is clear afterwards and no other flag, nor the
  frame or the count, is changed; the entries of pages that are not resident and everything
  outside the page table are as before. So the page table that an access leaves is the
  page table \<open>s3\<close> in which the page has been made resident and flagged, with every
  resident entry decayed when the policy is aging and the new counter is a multiple of
  \<^verbatim>\<open>UPDATE_AGE_COUNT\<close>, and unchanged otherwise: the counter goes up by one with every
  access, and the pass takes effect at one access in \<^verbatim>\<open>UPDATE_AGE_COUNT\<close>. A run of
  accesses in range returns under the same conditions, and it leaves the counter greater
  by the number of the accesses.
\<close>

theorem aging_decay_pass:
  assumes "wf_h h" and "pagesize_pow2 h" and "machine_inv h s"
  shows "(\<exists>t. update_age_reset_ref h s = Inr ((), t) \<and>
      t = s\<lparr>pt_entries := pt_entries t\<rparr> \<and>
      length (pt_entries t) = length (pt_entries s) \<and>
      (adm_g_count s smod UPDATE_AGE_COUNT h \<noteq> 0 \<longrightarrow> t = s) \<and>
      (adm_g_count s smod UPDATE_AGE_COUNT h = 0 \<longrightarrow>
         (\<forall>p < length (pt_entries s).
            (frame (pt_entries s ! p) \<noteq> VOID_IDX \<longrightarrow>
               age (pt_entries t ! p) =
                 (if is_ref s (int p) then age (pt_entries s ! p) div 2 OR 0x80
                  else age (pt_entries s ! p) div 2) \<and>
               \<not> is_ref t (int p) \<and>
               flags (pt_entries t ! p) =
                 (if is_ref s (int p) then flags (pt_entries s ! p) XOR PTF_REF
                  else flags (pt_entries s ! p)) \<and>
               frame (pt_entries t ! p) = frame (pt_entries s ! p) \<and>
               count (pt_entries t ! p) = count (pt_entries s ! p)) \<and>
            (frame (pt_entries s ! p) = VOID_IDX \<longrightarrow> pt_entries t ! p = pt_entries s ! p)))) \<and>
    (\<forall>a. 0 \<le> a div VMEM_PAGESIZE h \<and> a div VMEM_PAGESIZE h < VMEM_NPAGES h \<and>
        adm_page_rep_algo s \<noteq> VMEM_ALGO_OTHER \<and> VMEM_NFRAMES h * VMEM_PAGESIZE h \<le> 128 \<longrightarrow>
       (\<exists>s3 t.
          (if frame (pt_entries s ! nat (a div VMEM_PAGESIZE h)) = VOID_IDX
           then page_fault h
                  (set_flags (a div VMEM_PAGESIZE h)
                     (PTF_REF OR flags (pt_entries s ! nat (a div VMEM_PAGESIZE h)))
                     (s\<lparr>adm_req_pageno := a div VMEM_PAGESIZE h\<rparr>))
           else Inr ((), set_flags (a div VMEM_PAGESIZE h)
                           (PTF_REF OR flags (pt_entries s ! nat (a div VMEM_PAGESIZE h)))
                           (s\<lparr>adm_req_pageno := a div VMEM_PAGESIZE h\<rparr>))) =
            Inr ((), s3) \<and>
          vmem_read h a s = Inr (data s3 ! nat (frame (pt_entries s3 ! nat (a div VMEM_PAGESIZE h)) * VMEM_PAGESIZE h +
                             a mod VMEM_PAGESIZE h), t) \<and>
          machine_inv h s3 \<and> adm_g_count s3 = adm_g_count s \<and>
          t = s3\<lparr>adm_g_count := adm_g_count s + 1, pt_entries := pt_entries t\<rparr> \<and>
          pt_entries t =
            (if adm_page_rep_algo s = VMEM_ALGO_AGING \<and>
                (adm_g_count s + 1) smod UPDATE_AGE_COUNT h = 0
             then map (\<lambda>e. if frame e \<noteq> VOID_IDX then decay e else e) (pt_entries s3)
             else pt_entries s3) \<and>
          (if adm_page_rep_algo s = VMEM_ALGO_AGING
           then update_age_reset_ref h (s3\<lparr>adm_g_count := adm_g_count s + 1\<rparr>) = Inr ((), t)
           else t = s3\<lparr>adm_g_count := adm_g_count s + 1\<rparr>) \<and>
          machine_inv h t)) \<and>
    (\<forall>a v. 0 \<le> a div VMEM_PAGESIZE h \<and> a div VMEM_PAGESIZE h < VMEM_NPAGES h \<and>
        adm_page_rep_algo s \<noteq> VMEM_ALGO_OTHER \<and> VMEM_NFRAMES h * VMEM_PAGESIZE h \<le> 128 \<longrightarrow>
       (\<exists>s3 t.
          (if frame (pt_entries s ! nat (a div VMEM_PAGESIZE h)) = VOID_IDX
           then page_fault h
                  (set_flags (a div VMEM_PAGESIZE h)
                     (PTF_DIRTY OR PTF_REF OR flags (pt_entries s ! nat (a div VMEM_PAGESIZE h)))
                     (s\<lparr>adm_req_pageno := a div VMEM_PAGESIZE h\<rparr>))
           else Inr ((), set_flags (a div VMEM_PAGESIZE h)
                           (PTF_DIRTY OR PTF_REF OR flags (pt_entries s ! nat (a div VMEM_PAGESIZE h)))
                           (s\<lparr>adm_req_pageno := a div VMEM_PAGESIZE h\<rparr>))) =
            Inr ((), s3) \<and>
          vmem_write h a v s = Inr ((), t) \<and>
          machine_inv h s3 \<and> adm_g_count s3 = adm_g_count s \<and>
          t = s3\<lparr>data := (data s3)[nat (frame (pt_entries s3 ! nat (a div VMEM_PAGESIZE h)) * VMEM_PAGESIZE h +
                             a mod VMEM_PAGESIZE h) := v],
                  adm_g_count := adm_g_count s + 1, pt_entries := pt_entries t\<rparr> \<and>
          pt_entries t =
            (if adm_page_rep_algo s = VMEM_ALGO_AGING \<and>
                (adm_g_count s + 1) smod UPDATE_AGE_COUNT h = 0
             then map (\<lambda>e. if frame e \<noteq> VOID_IDX then decay e else e) (pt_entries s3)
             else pt_entries s3) \<and>
          (if adm_page_rep_algo s = VMEM_ALGO_AGING
           then update_age_reset_ref h
                  (s3\<lparr>data := (data s3)[nat (frame (pt_entries s3 ! nat (a div VMEM_PAGESIZE h)) * VMEM_PAGESIZE h +
                             a mod VMEM_PAGESIZE h) := v],
                  adm_g_count := adm_g_count s + 1\<rparr>) = Inr ((), t)
           else t = s3\<lparr>data := (data s3)[nat (frame (pt_entries s3 ! nat (a div VMEM_PAGESIZE h)) * VMEM_PAGESIZE h +
                             a mod VMEM_PAGESIZE h) := v],
                  adm_g_count := adm_g_count s + 1\<rparr>) \<and>
          machine_inv h t)) \<and>
    (\<forall>xs. (\<forall>x \<in> set xs. in_range h x) \<and>
        adm_page_rep_algo s \<noteq> VMEM_ALGO_OTHER \<and> VMEM_NFRAMES h * VMEM_PAGESIZE h \<le> 128 \<longrightarrow>
       (\<exists>t. run h xs s = Some t \<and> machine_inv h t \<and>
            adm_g_count t = adm_g_count s + int (length xs) \<and>
            adm_page_rep_algo t = adm_page_rep_algo s))"
proof (intro conjI allI impI)
  from assms(3) have lay: "layout_ok h s" and fr: "frames_agree s" and pg: "pages_agree s"
    by (simp_all add: machine_inv_def)
  from update_age_spec [OF assms(1) lay fr]
  obtain es where r: "update_age_reset_ref h s = Inr ((), s\<lparr>pt_entries := es\<rparr>)"
    and len: "length es = length (pt_entries s)"
    and idle: "adm_g_count s smod UPDATE_AGE_COUNT h \<noteq> 0 \<longrightarrow> es = pt_entries s"
    and pass: "adm_g_count s smod UPDATE_AGE_COUNT h = 0 \<longrightarrow>
         (\<forall>p < length es. es ! p =
            (if in_frames h 0 s p then decay (pt_entries s ! p) else pt_entries s ! p))"
    by blast
  let ?t = "s\<lparr>pt_entries := es\<rparr>"
  have nz: "PTF_REF \<noteq> 0" by (simp add: PTF_REF_def)
  have "\<forall>p < length (pt_entries s).
            (frame (pt_entries s ! p) \<noteq> VOID_IDX \<longrightarrow>
               age (pt_entries ?t ! p) =
                 (if is_ref s (int p) then age (pt_entries s ! p) div 2 OR 0x80
                  else age (pt_entries s ! p) div 2) \<and>
               \<not> is_ref ?t (int p) \<and>
               flags (pt_entries ?t ! p) =
                 (if is_ref s (int p) then flags (pt_entries s ! p) XOR PTF_REF
                  else flags (pt_entries s ! p)) \<and>
               frame (pt_entries ?t ! p) = frame (pt_entries s ! p) \<and>
               count (pt_entries ?t ! p) = count (pt_entries s ! p)) \<and>
            (frame (pt_entries s ! p) = VOID_IDX \<longrightarrow> pt_entries ?t ! p = pt_entries s ! p)"
    if zero: "adm_g_count s smod UPDATE_AGE_COUNT h = 0"
  proof (intro allI impI)
    fix p assume p: "p < length (pt_entries s)"
    from pass zero p len
    have ep: "es ! p = (if in_frames h 0 s p then decay (pt_entries s ! p) else pt_entries s ! p)"
      by simp
    note res = resident_in_frames [OF lay fr pg p]
    show "(frame (pt_entries s ! p) \<noteq> VOID_IDX \<longrightarrow>
               age (pt_entries ?t ! p) =
                 (if is_ref s (int p) then age (pt_entries s ! p) div 2 OR 0x80
                  else age (pt_entries s ! p) div 2) \<and>
               \<not> is_ref ?t (int p) \<and>
               flags (pt_entries ?t ! p) =
                 (if is_ref s (int p) then flags (pt_entries s ! p) XOR PTF_REF
                  else flags (pt_entries s ! p)) \<and>
               frame (pt_entries ?t ! p) = frame (pt_entries s ! p) \<and>
               count (pt_entries ?t ! p) = count (pt_entries s ! p)) \<and>
            (frame (pt_entries s ! p) = VOID_IDX \<longrightarrow> pt_entries ?t ! p = pt_entries s ! p)"
    proof (cases "frame (pt_entries s ! p) = VOID_IDX")
      case True
      with ep res show ?thesis by simp
    next
      case False
      with ep res have d: "es ! p = decay (pt_entries s ! p)" by simp
      show ?thesis
      proof (cases "flags (pt_entries s ! p) AND PTF_REF = PTF_REF")
        case True
        from ref_xor_clears [OF True] nz True False show ?thesis
          by (simp add: d decay_def is_ref_def)
      next
        case nr: False
        with False show ?thesis
          by (simp add: d decay_def is_ref_def)
      qed
    qed
  qed
  moreover have "adm_g_count s smod UPDATE_AGE_COUNT h \<noteq> 0 \<longrightarrow> ?t = s"
    using idle by simp
  ultimately show "\<exists>t. update_age_reset_ref h s = Inr ((), t) \<and>
      t = s\<lparr>pt_entries := pt_entries t\<rparr> \<and>
      length (pt_entries t) = length (pt_entries s) \<and>
      (adm_g_count s smod UPDATE_AGE_COUNT h \<noteq> 0 \<longrightarrow> t = s) \<and>
      (adm_g_count s smod UPDATE_AGE_COUNT h = 0 \<longrightarrow>
         (\<forall>p < length (pt_entries s).
            (frame (pt_entries s ! p) \<noteq> VOID_IDX \<longrightarrow>
               age (pt_entries t ! p) =
                 (if is_ref s (int p) then age (pt_entries s ! p) div 2 OR 0x80
                  else age (pt_entries s ! p) div 2) \<and>
               \<not> is_ref t (int p) \<and>
               flags (pt_entries t ! p) =
                 (if is_ref s (int p) then flags (pt_entries s ! p) XOR PTF_REF
                  else flags (pt_entries s ! p)) \<and>
               frame (pt_entries t ! p) = frame (pt_entries s ! p) \<and>
               count (pt_entries t ! p) = count (pt_entries s ! p)) \<and>
            (frame (pt_entries s ! p) = VOID_IDX \<longrightarrow> pt_entries t ! p = pt_entries s ! p)))"
    using r len by (intro exI [of _ ?t]) simp
next
  fix a
  assume "0 \<le> a div VMEM_PAGESIZE h \<and> a div VMEM_PAGESIZE h < VMEM_NPAGES h \<and>
        adm_page_rep_algo s \<noteq> VMEM_ALGO_OTHER \<and> VMEM_NFRAMES h * VMEM_PAGESIZE h \<le> 128"
  then have p: "0 \<le> a div VMEM_PAGESIZE h" "a div VMEM_PAGESIZE h < VMEM_NPAGES h"
    and al: "adm_page_rep_algo s \<noteq> VMEM_ALGO_OTHER"
    and sz: "VMEM_NFRAMES h * VMEM_PAGESIZE h \<le> 128"
    by simp_all
  from vmem_read_counts [OF assms p al sz, unfolded touch_def]
  show "\<exists>s3 t.
          (if frame (pt_entries s ! nat (a div VMEM_PAGESIZE h)) = VOID_IDX
           then page_fault h
                  (set_flags (a div VMEM_PAGESIZE h)
                     (PTF_REF OR flags (pt_entries s ! nat (a div VMEM_PAGESIZE h)))
                     (s\<lparr>adm_req_pageno := a div VMEM_PAGESIZE h\<rparr>))
           else Inr ((), set_flags (a div VMEM_PAGESIZE h)
                           (PTF_REF OR flags (pt_entries s ! nat (a div VMEM_PAGESIZE h)))
                           (s\<lparr>adm_req_pageno := a div VMEM_PAGESIZE h\<rparr>))) =
            Inr ((), s3) \<and>
          vmem_read h a s = Inr (data s3 ! nat (frame (pt_entries s3 ! nat (a div VMEM_PAGESIZE h)) * VMEM_PAGESIZE h +
                             a mod VMEM_PAGESIZE h), t) \<and>
          machine_inv h s3 \<and> adm_g_count s3 = adm_g_count s \<and>
          t = s3\<lparr>adm_g_count := adm_g_count s + 1, pt_entries := pt_entries t\<rparr> \<and>
          pt_entries t =
            (if adm_page_rep_algo s = VMEM_ALGO_AGING \<and>
                (adm_g_count s + 1) smod UPDATE_AGE_COUNT h = 0
             then map (\<lambda>e. if frame e \<noteq> VOID_IDX then decay e else e) (pt_entries s3)
             else pt_entries s3) \<and>
          (if adm_page_rep_algo s = VMEM_ALGO_AGING
           then update_age_reset_ref h (s3\<lparr>adm_g_count := adm_g_count s + 1\<rparr>) = Inr ((), t)
           else t = s3\<lparr>adm_g_count := adm_g_count s + 1\<rparr>) \<and>
          machine_inv h t" .
next
  fix a v
  assume "0 \<le> a div VMEM_PAGESIZE h \<and> a div VMEM_PAGESIZE h < VMEM_NPAGES h \<and>
        adm_page_rep_algo s \<noteq> VMEM_ALGO_OTHER \<and> VMEM_NFRAMES h * VMEM_PAGESIZE h \<le> 128"
  then have p: "0 \<le> a div VMEM_PAGESIZE h" "a div VMEM_PAGESIZE h < VMEM_NPAGES h"
    and al: "adm_page_rep_algo s \<noteq> VMEM_ALGO_OTHER"
    and sz: "VMEM_NFRAMES h * VMEM_PAGESIZE h \<le> 128"
    by simp_all
  from vmem_write_counts [OF assms p al sz, unfolded touch_def]
  show "\<exists>s3 t.
          (if frame (pt_entries s ! nat (a div VMEM_PAGESIZE h)) = VOID_IDX
           then page_fault h
                  (set_flags (a div VMEM_PAGESIZE h)
                     (PTF_DIRTY OR PTF_REF OR flags (pt_entries s ! nat (a div VMEM_PAGESIZE h)))
                     (s\<lparr>adm_req_pageno := a div VMEM_PAGESIZE h\<rparr>))
           else Inr ((), set_flags (a div VMEM_PAGESIZE h)
                           (PTF_DIRTY OR PTF_REF OR flags (pt_entries s ! nat (a div VMEM_PAGESIZE h)))
                           (s\<lparr>adm_req_pageno := a div VMEM_PAGESIZE h\<rparr>))) =
            Inr ((), s3) \<and>
          vmem_write h a v s = Inr ((), t) \<and>
          machine_inv h s3 \<and> adm_g_count s3 = adm_g_count s \<and>
          t = s3\<lparr>data := (data s3)[nat (frame (pt_entries s3 ! nat (a div VMEM_PAGESIZE h)) * VMEM_PAGESIZE h +
                             a mod VMEM_PAGESIZE h) := v],
                  adm_g_count := adm_g_count s + 1, pt_entries := pt_entries t\<rparr> \<and>
          pt_entries t =
            (if adm_page_rep_algo s = VMEM_ALGO_AGING \<and>
                (adm_g_count s + 1) smod UPDATE_AGE_COUNT h = 0
             then map (\<lambda>e. if frame e \<noteq> VOID_IDX then decay e else e) (pt_entries s3)
             else pt_entries s3) \<and>
          (if adm_page_rep_algo s = VMEM_ALGO_AGING
           then update_age_reset_ref h
                  (s3\<lparr>data := (data s3)[nat (frame (pt_entries s3 ! nat (a div VMEM_PAGESIZE h)) * VMEM_PAGESIZE h +
                             a mod VMEM_PAGESIZE h) := v],
                  adm_g_count := adm_g_count s + 1\<rparr>) = Inr ((), t)
           else t = s3\<lparr>data := (data s3)[nat (frame (pt_entries s3 ! nat (a div VMEM_PAGESIZE h)) * VMEM_PAGESIZE h +
                             a mod VMEM_PAGESIZE h) := v],
                  adm_g_count := adm_g_count s + 1\<rparr>) \<and>
          machine_inv h t" .
next
  fix xs
  assume "(\<forall>x \<in> set xs. in_range h x) \<and>
        adm_page_rep_algo s \<noteq> VMEM_ALGO_OTHER \<and> VMEM_NFRAMES h * VMEM_PAGESIZE h \<le> 128"
  then have xs: "\<forall>x \<in> set xs. in_range h x"
    and al: "adm_page_rep_algo s \<noteq> VMEM_ALGO_OTHER"
    and sz: "VMEM_NFRAMES h * VMEM_PAGESIZE h \<le> 128"
    by simp_all
  from run_counts [OF assms(1,2) sz assms(3) al xs]
  show "\<exists>t. run h xs s = Some t \<and> machine_inv h t \<and>
            adm_g_count t = adm_g_count s + int (length xs) \<and>
            adm_page_rep_algo t = adm_page_rep_algo s" .
qed

theorem aging_decay_pass_witness:
  "wf_h h_small \<and> pagesize_pow2 h_small \<and>
   machine_inv h_small ((s_full VMEM_ALGO_AGING)\<lparr>adm_g_count := 19\<rparr>) \<and>
   machine_inv h_small ((s_full VMEM_ALGO_AGING)\<lparr>adm_g_count := 20\<rparr>) \<and>
   0 \<le> (16::int) div VMEM_PAGESIZE h_small \<and> 16 div VMEM_PAGESIZE h_small < VMEM_NPAGES h_small \<and>
   0 \<le> (9::int) div VMEM_PAGESIZE h_small \<and> 9 div VMEM_PAGESIZE h_small < VMEM_NPAGES h_small \<and>
   adm_page_rep_algo ((s_full VMEM_ALGO_AGING)\<lparr>adm_g_count := 19\<rparr>) \<noteq> VMEM_ALGO_OTHER \<and>
   VMEM_NFRAMES h_small * VMEM_PAGESIZE h_small \<le> 128 \<and>
   (\<exists>t. update_age_reset_ref h_small ((s_full VMEM_ALGO_AGING)\<lparr>adm_g_count := 20\<rparr>) = Inr ((), t) \<and>
        map age (pt_entries t) = [0xC0, 0xC0, 0x80, 0x80] \<and>
        map flags (pt_entries t) = [2, 0, 0, 0]) \<and>
   (\<exists>t. vmem_read h_small 16 ((s_full VMEM_ALGO_AGING)\<lparr>adm_g_count := 19\<rparr>) = Inr (102, t) \<and>
        adm_g_count t = 20 \<and>
        map frame (pt_entries t) = [0, - 1, 1, - 1] \<and>
        map age (pt_entries t) = [0xC0, 0x80, 0xC0, 0x80] \<and>
        map flags (pt_entries t) = [2, 4, 0, 0]) \<and>
   (\<exists>t. vmem_write h_small 9 5 ((s_full VMEM_ALGO_AGING)\<lparr>adm_g_count := 19\<rparr>) = Inr ((), t) \<and>
        adm_g_count t = 20 \<and> data t ! 9 = 5 \<and>
        map age (pt_entries t) = [0xC0, 0xC0, 0x80, 0x80] \<and>
        map flags (pt_entries t) = [2, 2, 0, 0]) \<and>
   map_sum fst (\<lambda>(v, t). (v, adm_g_count t, map age (pt_entries t), map flags (pt_entries t)))
     (vmem_read h_small 0 (s_full VMEM_ALGO_AGING)) = Inr (7, 3, [0x80, 0x80, 0x80, 0x80], [6, 4, 0, 0]) \<and>
   map_sum fst (\<lambda>(v, t). (v, adm_g_count t, map age (pt_entries t), map flags (pt_entries t)))
     (vmem_read h_small 0 ((s_full VMEM_ALGO_FIFO)\<lparr>adm_g_count := 19\<rparr>)) =
     Inr (7, 20, [0x80, 0x80, 0x80, 0x80], [6, 4, 0, 0]) \<and>
   in_range h_small (Read 0) \<and> in_range h_small (Read 8) \<and>
   (\<exists>t. run h_small [Read 0, Read 8, Read 0] ((s_full VMEM_ALGO_AGING)\<lparr>adm_g_count := 18\<rparr>) = Some t \<and>
        adm_g_count t = 21 \<and>
        map age (pt_entries t) = [0xC0, 0xC0, 0x80, 0x80] \<and>
        map flags (pt_entries t) = [6, 0, 0, 0])"
proof -
  let ?s19 = "(s_full VMEM_ALGO_AGING)\<lparr>adm_g_count := 19\<rparr>"
  let ?s20 = "(s_full VMEM_ALGO_AGING)\<lparr>adm_g_count := 20\<rparr>"
  have inv19: "machine_inv h_small ?s19"
    by (rule machine_inv_cong [OF s_full_inv [of VMEM_ALGO_AGING]]) simp_all
  have inv20: "machine_inv h_small ?s20"
    by (rule machine_inv_cong [OF s_full_inv [of VMEM_ALGO_AGING]]) simp_all
  have hy: "0 \<le> (16::int) div VMEM_PAGESIZE h_small" "16 div VMEM_PAGESIZE h_small < VMEM_NPAGES h_small"
    "0 \<le> (9::int) div VMEM_PAGESIZE h_small" "9 div VMEM_PAGESIZE h_small < VMEM_NPAGES h_small"
    "adm_page_rep_algo ?s19 \<noteq> VMEM_ALGO_OTHER"
    "VMEM_NFRAMES h_small * VMEM_PAGESIZE h_small \<le> 128"
    by (simp_all add: h_small_def s_full_def)
  note th19 = aging_decay_pass [OF h_small_wf h_small_pow2 inv19]
  note th20 = aging_decay_pass [OF h_small_wf h_small_pow2 inv20]
  from th20 obtain t0 where r0: "update_age_reset_ref h_small ?s20 = Inr ((), t0)"
    by blast
  have "map_sum fst (\<lambda>(u, t). (map age (pt_entries t), map flags (pt_entries t)))
          (update_age_reset_ref h_small ?s20) = Inr ([0xC0, 0xC0, 0x80, 0x80], [2, 0, 0, 0])"
    by code_simp
  with r0 have c0: "\<exists>t. update_age_reset_ref h_small ?s20 = Inr ((), t) \<and>
        map age (pt_entries t) = [0xC0, 0xC0, 0x80, 0x80] \<and>
        map flags (pt_entries t) = [2, 0, 0, 0]"
    by simp
  from th19 hy have "\<exists>v t. vmem_read h_small 16 ?s19 = Inr (v, t)"
    by blast
  then obtain v1 t1 where r1: "vmem_read h_small 16 ?s19 = Inr (v1, t1)"
    by blast
  have "map_sum fst (\<lambda>(v, t). (v, adm_g_count t, map frame (pt_entries t), map age (pt_entries t),
                               map flags (pt_entries t)))
          (vmem_read h_small 16 ?s19) =
        Inr (102, 20, [0, - 1, 1, - 1], [0xC0, 0x80, 0xC0, 0x80], [2, 4, 0, 0])"
    by code_simp
  with r1 have c1: "\<exists>t. vmem_read h_small 16 ?s19 = Inr (102, t) \<and>
        adm_g_count t = 20 \<and>
        map frame (pt_entries t) = [0, - 1, 1, - 1] \<and>
        map age (pt_entries t) = [0xC0, 0x80, 0xC0, 0x80] \<and>
        map flags (pt_entries t) = [2, 4, 0, 0]"
    by simp
  from th19 hy have "\<exists>t. vmem_write h_small 9 5 ?s19 = Inr ((), t)"
    by blast
  then obtain t2 where r2: "vmem_write h_small 9 5 ?s19 = Inr ((), t2)"
    by blast
  have "map_sum fst (\<lambda>(v, t). (adm_g_count t, data t ! 9, map age (pt_entries t),
                               map flags (pt_entries t)))
          (vmem_write h_small 9 5 ?s19) =
        Inr (20, 5, [0xC0, 0xC0, 0x80, 0x80], [2, 2, 0, 0])"
    by code_simp
  with r2 have c2: "\<exists>t. vmem_write h_small 9 5 ?s19 = Inr ((), t) \<and>
        adm_g_count t = 20 \<and> data t ! 9 = 5 \<and>
        map age (pt_entries t) = [0xC0, 0xC0, 0x80, 0x80] \<and>
        map flags (pt_entries t) = [2, 2, 0, 0]"
    by simp
  have c3: "map_sum fst (\<lambda>(v, t). (v, adm_g_count t, map age (pt_entries t), map flags (pt_entries t)))
     (vmem_read h_small 0 (s_full VMEM_ALGO_AGING)) = Inr (7, 3, [0x80, 0x80, 0x80, 0x80], [6, 4, 0, 0])"
    by code_simp
  have c4: "map_sum fst (\<lambda>(v, t). (v, adm_g_count t, map age (pt_entries t), map flags (pt_entries t)))
     (vmem_read h_small 0 ((s_full VMEM_ALGO_FIFO)\<lparr>adm_g_count := 19\<rparr>)) =
     Inr (7, 20, [0x80, 0x80, 0x80, 0x80], [6, 4, 0, 0])"
    by code_simp
  let ?s18 = "(s_full VMEM_ALGO_AGING)\<lparr>adm_g_count := 18\<rparr>"
  have inv18: "machine_inv h_small ?s18"
    by (rule machine_inv_cong [OF s_full_inv [of VMEM_ALGO_AGING]]) simp_all
  have rg: "\<forall>x \<in> set [Read 0, Read 8, Read 0]. in_range h_small x"
    by (simp add: h_small_def)
  have al18: "adm_page_rep_algo ?s18 \<noteq> VMEM_ALGO_OTHER"
    by (simp add: s_full_def)
  note th18 = aging_decay_pass [OF h_small_wf h_small_pow2 inv18]
  from th18 rg al18 hy(6)
  have "\<exists>t. run h_small [Read 0, Read 8, Read 0] ?s18 = Some t"
    by blast
  then obtain t5 where r5: "run h_small [Read 0, Read 8, Read 0] ?s18 = Some t5"
    by blast
  have "map_option (\<lambda>t. (adm_g_count t, map age (pt_entries t), map flags (pt_entries t)))
          (run h_small [Read 0, Read 8, Read 0] ?s18) =
        Some (21, [0xC0, 0xC0, 0x80, 0x80], [6, 0, 0, 0])"
    by code_simp
  with r5 have c5: "\<exists>t. run h_small [Read 0, Read 8, Read 0] ?s18 = Some t \<and>
        adm_g_count t = 21 \<and>
        map age (pt_entries t) = [0xC0, 0xC0, 0x80, 0x80] \<and>
        map flags (pt_entries t) = [6, 0, 0, 0]"
    by simp
  from rg have rg': "in_range h_small (Read 0)" "in_range h_small (Read 8)"
    by simp_all
  from h_small_wf h_small_pow2 inv19 inv20 hy c0 c1 c2 c3 c4 rg' c5 show ?thesis
    by (intro conjI)
qed


subsection \<open>C7: the round trip of a write and a read\<close>

text \<open>
  Claim C7, as the spec states it: a write of \<open>v\<close> to the address \<open>a\<close> followed by a read
  of \<open>a\<close> returns \<open>v\<close>, for any sequence of operations in between that does not evict the
  page of \<open>a\<close>. A second write to \<open>a\<close> is such an operation: in \<open>s_full\<close>, after the write of
  7 to the address 0 and the write of 8 to the address 0, which leaves the page 0 resident,
  the read of the address 0 returns 8.
\<close>

theorem round_trip_overwritten:
  "\<exists>s1 s2 t. machine_inv h_small (s_full VMEM_ALGO_FIFO) \<and>
     vmem_write h_small 0 7 (s_full VMEM_ALGO_FIFO) = Inr ((), s1) \<and>
     run_keeping h_small (0 div VMEM_PAGESIZE h_small) [Write 0 8] s1 = Some s2 \<and>
     vmem_read h_small 0 s2 = Inr (8, t)"
proof -
  have "case vmem_write h_small 0 7 (s_full VMEM_ALGO_FIFO) of
          Inl e \<Rightarrow> False
        | Inr (u, s1) \<Rightarrow>
            (case run_keeping h_small (0 div VMEM_PAGESIZE h_small) [Write 0 8] s1 of
               None \<Rightarrow> False
             | Some s2 \<Rightarrow> map_sum fst fst (vmem_read h_small 0 s2) = Inr 8)"
    by code_simp
  then obtain s1 where w: "vmem_write h_small 0 7 (s_full VMEM_ALGO_FIFO) = Inr ((), s1)"
    and c: "case run_keeping h_small (0 div VMEM_PAGESIZE h_small) [Write 0 8] s1 of
               None \<Rightarrow> False
             | Some s2 \<Rightarrow> map_sum fst fst (vmem_read h_small 0 s2) = Inr 8"
    by (cases "vmem_write h_small 0 7 (s_full VMEM_ALGO_FIFO)")
      (auto simp del: run_keeping.simps)
  then obtain s2
    where r: "run_keeping h_small (0 div VMEM_PAGESIZE h_small) [Write 0 8] s1 = Some s2"
    and v: "map_sum fst fst (vmem_read h_small 0 s2) = Inr 8"
    by (cases "run_keeping h_small (0 div VMEM_PAGESIZE h_small) [Write 0 8] s1")
      (auto simp del: run_keeping.simps)
  from v obtain t where "vmem_read h_small 0 s2 = Inr (8, t)"
    by (cases "vmem_read h_small 0 s2") auto
  with w r s_full_inv [of VMEM_ALGO_FIFO] show ?thesis by blast
qed

text \<open>
  Claim C7, amended: let the page size be a power of two. Then the masks of \<^verbatim>\<open>vmem_read\<close>
  and \<^verbatim>\<open>vmem_write\<close> compute the offset \<open>a mod page_size\<close> and the page number
  \<open>a div page_size\<close>. After a write of \<open>v\<close> to the address \<open>a\<close> that returns, the page of \<open>a\<close>
  is resident and the word of its frame at the offset of \<open>a\<close> is \<open>v\<close>; this still holds after
  any sequence of reads and writes that return, leave the page of \<open>a\<close> resident, and do not
  write to \<open>a\<close>; and the read of \<open>a\<close> after them returns, with the value \<open>v\<close>.
\<close>

theorem write_read_round_trip:
  assumes "wf_h h" and "pagesize_pow2 h" and "machine_inv h s"
    and "vmem_write h a v s = Inr ((), s1)"
    and "run_keeping h (a div VMEM_PAGESIZE h) xs s1 = Some s2"
    and "\<forall>x \<in> set xs. \<not> writes_to a x"
  shows "a AND (VMEM_PAGESIZE h - 1) = a mod VMEM_PAGESIZE h \<and>
     (a AND NOT (VMEM_PAGESIZE h - 1)) sdiv VMEM_PAGESIZE h = a div VMEM_PAGESIZE h \<and>
     holds h a v s1 \<and> holds h a v s2 \<and> (\<exists>t. vmem_read h a s2 = Inr (v, t))"
proof -
  note h1 = write_holds [OF assms(1,2,3,4)]
  note h2 = run_keeps [OF assms(1,2) h1 assms(5,6)]
  from addr_split [OF assms(2)] h1 h2 holds_read [OF assms(1,2) h2] show ?thesis
    by simp
qed

theorem write_read_round_trip_witness:
  "\<exists>s1 s2 t. vmem_write h_small 0 7 (s_full VMEM_ALGO_AGING) = Inr ((), s1) \<and>
     run_keeping h_small (0 div VMEM_PAGESIZE h_small) [Read 16, Write 17 5, Read 1] s1 = Some s2 \<and>
     (\<forall>x \<in> set [Read 16, Write 17 5, Read 1]. \<not> writes_to 0 x) \<and>
     frame (pt_entries s1 ! 1) \<noteq> VOID_IDX \<and> frame (pt_entries s2 ! 1) = VOID_IDX \<and>
     vmem_read h_small 0 s2 = Inr (7, t)"
proof -
  have "case vmem_write h_small 0 7 (s_full VMEM_ALGO_AGING) of
          Inl e \<Rightarrow> False
        | Inr (u, s1) \<Rightarrow>
            (case run_keeping h_small (0 div VMEM_PAGESIZE h_small)
                    [Read 16, Write 17 5, Read 1] s1 of
               None \<Rightarrow> False
             | Some s2 \<Rightarrow> frame (pt_entries s1 ! 1) \<noteq> VOID_IDX \<and>
                          frame (pt_entries s2 ! 1) = VOID_IDX)"
    by code_simp
  then obtain s1 where w: "vmem_write h_small 0 7 (s_full VMEM_ALGO_AGING) = Inr ((), s1)"
    and c: "case run_keeping h_small (0 div VMEM_PAGESIZE h_small)
                    [Read 16, Write 17 5, Read 1] s1 of
               None \<Rightarrow> False
             | Some s2 \<Rightarrow> frame (pt_entries s1 ! 1) \<noteq> VOID_IDX \<and>
                          frame (pt_entries s2 ! 1) = VOID_IDX"
    by (cases "vmem_write h_small 0 7 (s_full VMEM_ALGO_AGING)")
      (auto simp del: run_keeping.simps)
  then obtain s2
    where r: "run_keeping h_small (0 div VMEM_PAGESIZE h_small)
              [Read 16, Write 17 5, Read 1] s1 = Some s2"
    and e: "frame (pt_entries s1 ! 1) \<noteq> VOID_IDX" "frame (pt_entries s2 ! 1) = VOID_IDX"
    by (cases "run_keeping h_small (0 div VMEM_PAGESIZE h_small)
              [Read 16, Write 17 5, Read 1] s1")
      (auto simp del: run_keeping.simps)
  have nw: "\<forall>x \<in> set [Read 16, Write 17 5, Read 1]. \<not> writes_to 0 x"
    by simp
  from write_read_round_trip [OF h_small_wf h_small_pow2 s_full_inv w r nw]
  obtain t where "vmem_read h_small 0 s2 = Inr (7, t)"
    by blast
  with w r nw e show ?thesis by blast
qed


subsection \<open>C8: an access outside the virtual memory\<close>

text \<open>
  Claim C8 says that a read or a write whose page number is out of range ends with the
  bounds fault before any shared state is written. \<^verbatim>\<open>vmem_write\<close> does so.
  \<^verbatim>\<open>vmem_read\<close> assigns \<^verbatim>\<open>adm.req_pageno\<close> before its two tests: at the address 32 of the
  small header, the first address behind the last page, the process exits with the
  requested-page slot changed from 1 to 4.
\<close>

theorem vmem_read_publishes_before_bounds_test:
  "vmem_read h_small 32 (s_full VMEM_ALGO_FIFO) =
     Inl (Exit_failure, (s_full VMEM_ALGO_FIFO)\<lparr>adm_req_pageno := 4\<rparr>) \<and>
   adm_req_pageno (s_full VMEM_ALGO_FIFO) = 1 \<and>
   vmem_write h_small 32 v (s_full VMEM_ALGO_FIFO) = Inl (Exit_failure, s_full VMEM_ALGO_FIFO)"
  by (simp add: vmem_read_def vmem_write_def h_small_def Let_def signed_divide_int_def
      s_full_def)


subsection \<open>C9: the release comes last\<close>

text \<open>
  Claim C9, as the spec states it: in every fault the \<^verbatim>\<open>frame\<close> of the requested page,
  the slot of the frame table and the contents of the frame are fully updated before the
  semaphore is released. The contents are not when the fault is served by a free frame: in
  \<open>s_first\<close> the page 0 is requested and the frame 0 is free. The list gives, for each state
  of the run of \<^verbatim>\<open>allocate_page\<close>, the value of the semaphore, the \<^verbatim>\<open>frame\<close> of the page
  0, the slot of the frame 0 and the words of the frame 0. When the semaphore is released
  the two table entries are written, and the frame holds the eight zeros it held before,
  not the eight words 100 of the page 0 in the pagefile; nothing was fetched.
\<close>

theorem free_frame_released_unloaded:
  "machine_inv h_small (s_first VMEM_ALGO_FIFO) \<and>
   map (\<lambda>w. (local_sem w, frame (pt_entries w ! 0), pt_framepage w ! 0, frame_words h_small w 0))
       (allocate_page_steps h_small (s_first VMEM_ALGO_FIFO)) =
     [(0, - 1, - 1, [0, 0, 0, 0, 0, 0, 0, 0]),
      (0, - 1, - 1, [0, 0, 0, 0, 0, 0, 0, 0]),
      (0, - 1, 0, [0, 0, 0, 0, 0, 0, 0, 0]),
      (0, - 1, 0, [0, 0, 0, 0, 0, 0, 0, 0]),
      (0, - 1, 0, [0, 0, 0, 0, 0, 0, 0, 0]),
      (0, 0, 0, [0, 0, 0, 0, 0, 0, 0, 0]),
      (1, 0, 0, [0, 0, 0, 0, 0, 0, 0, 0])] \<and>
   map_sum fst (\<lambda>(u, t). (local_sem t, frame (pt_entries t ! 0), pt_framepage t ! 0,
                          frame_words h_small t 0, pagefile t 0, trace t))
     (allocate_page h_small (s_first VMEM_ALGO_FIFO)) =
     Inr (1, 0, 0, [0, 0, 0, 0, 0, 0, 0, 0], [100, 100, 100, 100, 100, 100, 100, 100],
          [Kill_SIGUSR1,
           Logger \<lparr>le_req_pageno = 0, le_replaced_page = - 1, le_alloc_frame = 0,
                   le_pf_count = 1, le_g_count = 0\<rparr>,
           Sem_post])"
proof (intro conjI)
  show "machine_inv h_small (s_first VMEM_ALGO_FIFO)"
    by (rule s_first_inv)
  show "map (\<lambda>w. (local_sem w, frame (pt_entries w ! 0), pt_framepage w ! 0, frame_words h_small w 0))
       (allocate_page_steps h_small (s_first VMEM_ALGO_FIFO)) =
     [(0, - 1, - 1, [0, 0, 0, 0, 0, 0, 0, 0]),
      (0, - 1, - 1, [0, 0, 0, 0, 0, 0, 0, 0]),
      (0, - 1, 0, [0, 0, 0, 0, 0, 0, 0, 0]),
      (0, - 1, 0, [0, 0, 0, 0, 0, 0, 0, 0]),
      (0, - 1, 0, [0, 0, 0, 0, 0, 0, 0, 0]),
      (0, 0, 0, [0, 0, 0, 0, 0, 0, 0, 0]),
      (1, 0, 0, [0, 0, 0, 0, 0, 0, 0, 0])]"
    by code_simp
  show "map_sum fst (\<lambda>(u, t). (local_sem t, frame (pt_entries t ! 0), pt_framepage t ! 0,
                          frame_words h_small t 0, pagefile t 0, trace t))
     (allocate_page h_small (s_first VMEM_ALGO_FIFO)) =
     Inr (1, 0, 0, [0, 0, 0, 0, 0, 0, 0, 0], [100, 100, 100, 100, 100, 100, 100, 100],
          [Kill_SIGUSR1,
           Logger \<lparr>le_req_pageno = 0, le_replaced_page = - 1, le_alloc_frame = 0,
                   le_pf_count = 1, le_g_count = 0\<rparr>,
           Sem_post])"
    by code_simp
qed

text \<open>
  Claim C9, amended: a fault for a page in range, with a policy selected, is completed. The
  statements of \<^verbatim>\<open>allocate_page\<close> leave a list of states that ends with the state \<open>u\<close> in
  which \<^verbatim>\<open>sem_post\<close> is called and the state that \<^verbatim>\<open>sem_post\<close> leaves, which is the state
  the function returns. In \<open>u\<close> and in every state before it the semaphore has the value it
  had at the start and no release has been added to the trace. In \<open>u\<close> the \<^verbatim>\<open>frame\<close> of
  the requested page is the allocated frame and the slot of this frame holds the requested
  page; when the frame was emptied by an eviction it holds the words of the requested page
  in the pagefile, and when it was free the frame data are as they were at the start. The
  release adds one to the semaphore and one \<^verbatim>\<open>Sem_post\<close> to the trace and changes neither
  the tables nor the frame data.
\<close>

theorem allocate_page_releases_last:
  assumes "wf_h h" and "machine_inv h s"
    and "idx_ok (adm_req_pageno s) (pt_entries s)"
    and "adm_page_rep_algo s \<noteq> VMEM_ALGO_OTHER"
  shows "\<exists>pre u idx. allocate_page_steps h s = pre @ [u, sem_post u] \<and>
      allocate_page h s = Inr ((), sem_post u) \<and>
      (\<forall>w \<in> set (pre @ [u]).
          local_sem w = local_sem s \<and>
          (\<exists>evs. trace w = trace s @ evs \<and> Sem_post \<notin> set evs)) \<and>
      0 \<le> idx \<and> idx < VMEM_NFRAMES h \<and>
      frame (pt_entries u ! nat (adm_req_pageno s)) = idx \<and>
      pt_framepage u ! nat idx = adm_req_pageno s \<and>
      (all_occupied s \<longrightarrow> frame_words h u idx = pagefile u (adm_req_pageno s)) \<and>
      (\<not> all_occupied s \<longrightarrow> data u = data s) \<and>
      local_sem (sem_post u) = local_sem s + 1 \<and>
      trace (sem_post u) = trace u @ [Sem_post] \<and>
      pt_entries (sem_post u) = pt_entries u \<and>
      pt_framepage (sem_post u) = pt_framepage u \<and>
      data (sem_post u) = data u"
proof (cases "all_occupied s")
  case True
  from steps_evict [OF assms(1-3) True assms(4)]
  obtain pre idx w where ev: "evicts h (s\<lparr>adm_pf_count := adm_pf_count s + 1\<rparr>) idx w"
    and pl: "int (length (pagefile w (adm_req_pageno s))) = VMEM_PAGESIZE h"
    and sl: "slice_ok (idx * VMEM_PAGESIZE h) (VMEM_PAGESIZE h) (data w)"
    and se: "allocate_page_steps h s =
        pre @ [enter_frame idx (fetched h idx w), sem_post (enter_frame idx (fetched h idx w))]"
    and eq: "allocate_page h s = Inr ((), sem_post (enter_frame idx (fetched h idx w)))"
    and nr: "\<forall>w \<in> set pre. not_released s w"
    by blast
  let ?u = "enter_frame idx (fetched h idx w)"
  from ev have idx: "0 \<le> idx" "idx < VMEM_NFRAMES h"
    and fpw: "pt_framepage w = pt_framepage s"
    and lenw: "length (pt_entries w) = length (pt_entries s)"
    and rw: "adm_req_pageno w = adm_req_pageno s"
    and sw: "local_sem w = local_sem s"
    and tw: "trace w = trace s @ (if is_dirty s (pt_framepage s ! nat idx)
                          then [Store (pt_framepage s ! nat idx) (idx * VMEM_PAGESIZE h)] else [])"
    by (simp_all add: evicts_def is_dirty_def)
  from assms(3) have rn: "nat (adm_req_pageno s) < length (pt_entries w)"
    by (simp add: idx_ok_def nat_less_iff lenw)
  from assms(2) idx have ni: "nat idx < length (pt_framepage w)"
    by (simp add: machine_inv_def layout_ok_def fpw nat_less_iff)
  define evs where "evs = (if is_dirty s (pt_framepage s ! nat idx)
        then [Store (pt_framepage s ! nat idx) (idx * VMEM_PAGESIZE h)] else []) @
      [Fetch (adm_req_pageno s) (idx * VMEM_PAGESIZE h), Logger (event ?u)]"
  have f1: "frame (pt_entries ?u ! nat (adm_req_pageno s)) = idx"
    using rn by (simp add: enter_frame_def log_fault_def set_frame_def fetched_def rw)
  have f2: "pt_framepage ?u ! nat idx = adm_req_pageno s"
    using ni by (simp add: enter_frame_def log_fault_def set_frame_def fetched_def rw)
  have f3: "frame_words h ?u idx = pagefile ?u (adm_req_pageno s)"
    using fetched_frame_words [OF sl pl]
    by (simp add: frame_words_def enter_frame_def log_fault_def set_frame_def fetched_def rw)
  have f4: "local_sem ?u = local_sem s"
    by (simp add: enter_frame_def log_fault_def set_frame_def fetched_def sw)
  have f5: "trace ?u = trace s @ evs"
    by (simp add: evs_def enter_frame_def log_fault_def set_frame_def fetched_def rw tw)
  have f6: "Sem_post \<notin> set evs"
    by (simp add: evs_def)
  from f4 f5 f6 have nu: "not_released s ?u" by (rule not_released_cong)
  from nr nu have f7: "\<forall>w \<in> set (pre @ [?u]).
          local_sem w = local_sem s \<and>
          (\<exists>evs. trace w = trace s @ evs \<and> Sem_post \<notin> set evs)"
    by (simp add: not_released_def)
  show ?thesis
    using se eq f7 idx f1 f2 f3 f4 True
    by (intro exI [of _ pre] exI [of _ ?u] exI [of _ idx]) (simp add: sem_post_def)
next
  case False
  from steps_free [OF assms(1-3) False]
  obtain pre idx where idx: "0 \<le> idx" "idx < VMEM_NFRAMES h"
    and se: "allocate_page_steps h s =
        pre @ [enter_frame idx (s\<lparr>event := (event s)\<lparr>le_replaced_page := VOID_IDX\<rparr>,
                                   adm_pf_count := adm_pf_count s + 1\<rparr>),
               sem_post (enter_frame idx (s\<lparr>event := (event s)\<lparr>le_replaced_page := VOID_IDX\<rparr>,
                                   adm_pf_count := adm_pf_count s + 1\<rparr>))]"
    and eq: "allocate_page h s =
        Inr ((), sem_post (enter_frame idx (s\<lparr>event := (event s)\<lparr>le_replaced_page := VOID_IDX\<rparr>,
                                   adm_pf_count := adm_pf_count s + 1\<rparr>)))"
    and nr: "\<forall>w \<in> set pre. not_released s w"
    by blast
  let ?u = "enter_frame idx (s\<lparr>event := (event s)\<lparr>le_replaced_page := VOID_IDX\<rparr>,
                            adm_pf_count := adm_pf_count s + 1\<rparr>)"
  from assms(2) have lay: "layout_ok h s" by (simp add: machine_inv_def)
  from assms(3) have rn: "nat (adm_req_pageno s) < length (pt_entries s)"
    by (simp add: idx_ok_def nat_less_iff)
  from lay idx have ni: "nat idx < length (pt_framepage s)"
    by (simp add: layout_ok_def nat_less_iff)
  have f1: "frame (pt_entries ?u ! nat (adm_req_pageno s)) = idx"
    using rn by (simp add: enter_frame_def log_fault_def set_frame_def)
  have f2: "pt_framepage ?u ! nat idx = adm_req_pageno s"
    using ni by (simp add: enter_frame_def log_fault_def set_frame_def)
  have f3: "data ?u = data s" and f4: "local_sem ?u = local_sem s"
    and f5: "trace ?u = trace s @ [Logger (event ?u)]"
    by (simp_all add: enter_frame_def log_fault_def set_frame_def)
  have f6: "Sem_post \<notin> set [Logger (event ?u)]"
    by simp
  from f4 f5 f6 have nu: "not_released s ?u" by (rule not_released_cong)
  from nr nu have f7: "\<forall>w \<in> set (pre @ [?u]).
          local_sem w = local_sem s \<and>
          (\<exists>evs. trace w = trace s @ evs \<and> Sem_post \<notin> set evs)"
    by (simp add: not_released_def)
  show ?thesis
    using se eq f7 idx f1 f2 f3 f4 False
    by (intro exI [of _ pre] exI [of _ ?u] exI [of _ idx]) (simp add: sem_post_def)
qed

theorem allocate_page_releases_last_witness:
  "wf_h h_small \<and> machine_inv h_small (s_fault VMEM_ALGO_FIFO) \<and>
   idx_ok (adm_req_pageno (s_fault VMEM_ALGO_FIFO)) (pt_entries (s_fault VMEM_ALGO_FIFO)) \<and>
   adm_page_rep_algo (s_fault VMEM_ALGO_FIFO) \<noteq> VMEM_ALGO_OTHER \<and>
   (\<exists>pre u idx. allocate_page_steps h_small (s_fault VMEM_ALGO_FIFO) = pre @ [u, sem_post u] \<and>
      allocate_page h_small (s_fault VMEM_ALGO_FIFO) = Inr ((), sem_post u) \<and>
      (\<forall>w \<in> set (pre @ [u]). local_sem w = 0) \<and>
      frame (pt_entries u ! 2) = idx \<and> pt_framepage u ! nat idx = 2 \<and>
      frame_words h_small u idx = pagefile u 2 \<and>
      local_sem (sem_post u) = 1 \<and>
      trace (sem_post u) = trace u @ [Sem_post]) \<and>
   map (\<lambda>w. (local_sem w, frame (pt_entries w ! 2), pt_framepage w ! 0, frame_words h_small w 0))
       (allocate_page_steps h_small (s_fault VMEM_ALGO_FIFO)) =
     [(0, - 1, 0, [7, 0, 0, 0, 0, 0, 0, 0]),
      (0, - 1, 0, [7, 0, 0, 0, 0, 0, 0, 0]),
      (0, - 1, 0, [7, 0, 0, 0, 0, 0, 0, 0]),
      (0, 0, 0, [7, 0, 0, 0, 0, 0, 0, 0]),
      (0, 0, 0, [102, 102, 102, 102, 102, 102, 102, 102]),
      (0, 0, 2, [102, 102, 102, 102, 102, 102, 102, 102]),
      (0, 0, 2, [102, 102, 102, 102, 102, 102, 102, 102]),
      (0, 0, 2, [102, 102, 102, 102, 102, 102, 102, 102]),
      (0, 0, 2, [102, 102, 102, 102, 102, 102, 102, 102]),
      (1, 0, 2, [102, 102, 102, 102, 102, 102, 102, 102])]"
proof -
  have rq: "adm_req_pageno (s_fault VMEM_ALGO_FIFO) = 2"
    and ls: "local_sem (s_fault VMEM_ALGO_FIFO) = 0"
    by (simp_all add: s_fault_def s_full_def)
  from allocate_page_releases_last [OF h_small_wf s_fault_inv s_fault_req s_fault_algo]
  obtain pre u idx
    where a: "allocate_page_steps h_small (s_fault VMEM_ALGO_FIFO) = pre @ [u, sem_post u]"
      "allocate_page h_small (s_fault VMEM_ALGO_FIFO) = Inr ((), sem_post u)"
    and b: "\<forall>w \<in> set (pre @ [u]). local_sem w = local_sem (s_fault VMEM_ALGO_FIFO) \<and>
          (\<exists>evs. trace w = trace (s_fault VMEM_ALGO_FIFO) @ evs \<and> Sem_post \<notin> set evs)"
    and c: "frame (pt_entries u ! nat (adm_req_pageno (s_fault VMEM_ALGO_FIFO))) = idx"
      "pt_framepage u ! nat idx = adm_req_pageno (s_fault VMEM_ALGO_FIFO)"
      "all_occupied (s_fault VMEM_ALGO_FIFO) \<longrightarrow>
         frame_words h_small u idx = pagefile u (adm_req_pageno (s_fault VMEM_ALGO_FIFO))"
      "local_sem (sem_post u) = local_sem (s_fault VMEM_ALGO_FIFO) + 1"
      "trace (sem_post u) = trace u @ [Sem_post]"
    by blast
  from b have b': "\<forall>w \<in> set (pre @ [u]). local_sem w = 0"
    unfolding ls by blast
  from c s_fault_occupied [of VMEM_ALGO_FIFO]
  have c': "frame (pt_entries u ! 2) = idx" "pt_framepage u ! nat idx = 2"
    "frame_words h_small u idx = pagefile u 2" "local_sem (sem_post u) = 1"
    by (simp_all add: rq ls)
  have d: "map (\<lambda>w. (local_sem w, frame (pt_entries w ! 2), pt_framepage w ! 0, frame_words h_small w 0))
       (allocate_page_steps h_small (s_fault VMEM_ALGO_FIFO)) =
     [(0, - 1, 0, [7, 0, 0, 0, 0, 0, 0, 0]),
      (0, - 1, 0, [7, 0, 0, 0, 0, 0, 0, 0]),
      (0, - 1, 0, [7, 0, 0, 0, 0, 0, 0, 0]),
      (0, 0, 0, [7, 0, 0, 0, 0, 0, 0, 0]),
      (0, 0, 0, [102, 102, 102, 102, 102, 102, 102, 102]),
      (0, 0, 2, [102, 102, 102, 102, 102, 102, 102, 102]),
      (0, 0, 2, [102, 102, 102, 102, 102, 102, 102, 102]),
      (0, 0, 2, [102, 102, 102, 102, 102, 102, 102, 102]),
      (0, 0, 2, [102, 102, 102, 102, 102, 102, 102, 102]),
      (1, 0, 2, [102, 102, 102, 102, 102, 102, 102, 102])]"
    by code_simp
  from a b' c' c(5) have "\<exists>pre u idx.
      allocate_page_steps h_small (s_fault VMEM_ALGO_FIFO) = pre @ [u, sem_post u] \<and>
      allocate_page h_small (s_fault VMEM_ALGO_FIFO) = Inr ((), sem_post u) \<and>
      (\<forall>w \<in> set (pre @ [u]). local_sem w = 0) \<and>
      frame (pt_entries u ! 2) = idx \<and> pt_framepage u ! nat idx = 2 \<and>
      frame_words h_small u idx = pagefile u 2 \<and>
      local_sem (sem_post u) = 1 \<and>
      trace (sem_post u) = trace u @ [Sem_post]"
    by blast
  with h_small_wf s_fault_inv s_fault_req s_fault_algo d show ?thesis
    by blast
qed


subsection \<open>C10: the shared segment after vmem\_init\<close>

text \<open>
  Claim C10 says that after the initialisation both counters are zero. \<^verbatim>\<open>vmem_init\<close>
  assigns neither \<^verbatim>\<open>adm.pf_count\<close> nor \<^verbatim>\<open>adm.g_count\<close>: they keep what the attached
  segment holds. For a segment that \<^verbatim>\<open>shmget\<close> creates this is zero; for the segment that
  an earlier manager left behind under the same key (here \<open>s_full\<close>, two faults and two
  accesses old) the counters go on from 2, while the page table, the frame table and the
  semaphore are initialised.
\<close>

theorem vmem_init_keeps_counters:
  "adm_pf_count (vmem_init h_small (s_full VMEM_ALGO_FIFO)) = 2 \<and>
   adm_g_count (vmem_init h_small (s_full VMEM_ALGO_FIFO)) = 2 \<and>
   pt_framepage (vmem_init h_small (s_full VMEM_ALGO_FIFO)) = [VOID_IDX, VOID_IDX] \<and>
   pt_entries (vmem_init h_small (s_full VMEM_ALGO_FIFO)) =
     replicate 4 \<lparr>flags = 0, frame = VOID_IDX, count = 0, age = 0x80\<rparr> \<and>
   local_sem (vmem_init h_small (s_full VMEM_ALGO_FIFO)) = 0"
proof (intro conjI)
  show "adm_pf_count (vmem_init h_small (s_full VMEM_ALGO_FIFO)) = 2"
    by (simp add: vmem_init_def s_full_def)
  show "adm_g_count (vmem_init h_small (s_full VMEM_ALGO_FIFO)) = 2"
    by (simp add: vmem_init_def s_full_def)
  show "pt_framepage (vmem_init h_small (s_full VMEM_ALGO_FIFO)) = [VOID_IDX, VOID_IDX]"
    by code_simp
  show "pt_entries (vmem_init h_small (s_full VMEM_ALGO_FIFO)) =
     replicate 4 \<lparr>flags = 0, frame = VOID_IDX, count = 0, age = 0x80\<rparr>"
    by code_simp
  show "local_sem (vmem_init h_small (s_full VMEM_ALGO_FIFO)) = 0"
    by (simp add: vmem_init_def)
qed



end
